(* ===== verification/SHS_Prelude.thy ===== *)
theory SHS_Prelude
  imports Main "HOL-Library.Word" "HOL-Library.Sublist"
begin

text \<open>
  Shared vocabulary of the development: bytes and byte strings, the C++ failures the code can
  raise, unsigned 64-bit size arithmetic, byte vectors, byte-array ranges, and reads and writes
  of a flat byte memory. The collections \<open>size_simps\<close> and \<open>buffer_simps\<close> hold the rewrite rules
  that the component theories share.
\<close>

named_theorems size_simps "arithmetic on size_t values that do not wrap"
named_theorems buffer_simps "reads, writes and resizes of byte buffers"

section \<open>Bytes and failures\<close>

type_synonym byte = "8 word"
type_synonym bytes = "byte list"

text \<open>
  What can go wrong in a C++ call: the exceptions the code throws (\<open>std::logic_error\<close>,
  \<open>std::invalid_argument\<close>, \<open>std::length_error\<close> from a vector, \<open>std::bad_optional_access\<close> from
  \<open>optional::value()\<close>, \<open>std::bad_cast\<close> from a reference \<open>dynamic_cast\<close>, \<open>std::runtime_error\<close>),
  a failed \<open>assert\<close>, and undefined behaviour (dereferencing an empty optional or a null pointer).
\<close>

datatype cpp_exn = LogicError | InvalidArgument | LengthError | BadOptionalAccess | BadCast
  | RuntimeError | AssertFailed | UndefinedBehaviour

text \<open>
  A member function that may throw returns the exception or its result, and in either case the
  object as it then is.
\<close>

type_synonym ('r, 's) outcome = "(cpp_exn + 'r) \<times> 's"

definition opt_value :: "'a option \<Rightarrow> cpp_exn + 'a" where
  "opt_value x = (case x of None \<Rightarrow> Inl BadOptionalAccess | Some v \<Rightarrow> Inr v)"

definition opt_deref :: "'a option \<Rightarrow> cpp_exn + 'a" where
  "opt_deref x = (case x of None \<Rightarrow> Inl UndefinedBehaviour | Some v \<Rightarrow> Inr v)"

definition with_val :: "cpp_exn + 'a \<Rightarrow> 's \<Rightarrow> ('a \<Rightarrow> ('r, 's) outcome) \<Rightarrow> ('r, 's) outcome" where
  "with_val x s f = (case x of Inl e \<Rightarrow> (Inl e, s) | Inr v \<Rightarrow> f v)"

definition ebind :: "('a, 's) outcome \<Rightarrow> ('a \<Rightarrow> 's \<Rightarrow> ('r, 't) outcome) \<Rightarrow> ('s \<Rightarrow> 't)
    \<Rightarrow> ('r, 't) outcome" where
  "ebind m f g = (case m of (Inl e, s) \<Rightarrow> (Inl e, g s) | (Inr v, s) \<Rightarrow> f v s)"

lemma opt_value_simps [simp]:
  "opt_value None = Inl BadOptionalAccess" "opt_value (Some v) = Inr v"
  by (simp_all add: opt_value_def)

lemma opt_deref_simps [simp]:
  "opt_deref None = Inl UndefinedBehaviour" "opt_deref (Some v) = Inr v"
  by (simp_all add: opt_deref_def)

lemma with_val_simps [simp]:
  "with_val (Inl e) s f = (Inl e, s)" "with_val (Inr v) s f = f v"
  by (simp_all add: with_val_def)

lemma ebind_simps [simp]:
  "ebind (Inl e, s) f g = (Inl e, g s)" "ebind (Inr v, s) f g = f v s"
  by (simp_all add: ebind_def)

lemma unat_byte: "unat (b :: byte) < 256"
  using unsigned_less [of b, where ?'a = nat] by simp

section \<open>size_t arithmetic\<close>

text \<open>Sizes are natural numbers below \<open>2 ^ 64\<close>; the three operations wrap as \<open>size_t\<close> does.\<close>

definition size_max :: nat where
  "size_max = 2 ^ 64"

definition size_add :: "nat \<Rightarrow> nat \<Rightarrow> nat" where
  "size_add a b = (a + b) mod size_max"

definition size_sub :: "nat \<Rightarrow> nat \<Rightarrow> nat" where
  "size_sub a b = (if b \<le> a then a - b else size_max + a - b)"

lemma size_add_small [size_simps]: "a + b < size_max \<Longrightarrow> size_add a b = a + b"
  by (simp add: size_add_def)

lemma size_sub_le [size_simps]: "b \<le> a \<Longrightarrow> size_sub a b = a - b"
  by (simp add: size_sub_def)

lemma size_sub_same [simp]: "size_sub a a = 0"
  by (simp add: size_sub_def)

section \<open>Byte vectors and byte arrays\<close>

text \<open>\<open>std::vector::resize\<close> truncates, or pads with zero bytes.\<close>

definition resize :: "nat \<Rightarrow> bytes \<Rightarrow> bytes" where
  "resize n xs = take n xs @ replicate (n - length xs) 0"

text \<open>\<open>byte_array::range<i, n>()\<close>: \<open>n\<close> bytes from offset \<open>i\<close>.\<close>

definition range_of :: "nat \<Rightarrow> nat \<Rightarrow> bytes \<Rightarrow> bytes" where
  "range_of i n xs = take n (drop i xs)"

lemma length_resize [simp]: "length (resize n xs) = n"
  by (simp add: resize_def)

lemma resize_same [buffer_simps]: "length xs = n \<Longrightarrow> resize n xs = xs"
  by (simp add: resize_def)

lemma resize_less [buffer_simps]: "n \<le> length xs \<Longrightarrow> resize n xs = take n xs"
  by (simp add: resize_def)

lemma resize_greater [buffer_simps]:
  "length xs \<le> n \<Longrightarrow> resize n xs = xs @ replicate (n - length xs) 0"
  by (simp add: resize_def)

lemma length_range_of [simp]: "length (range_of i n xs) = min n (length xs - i)"
  by (simp add: range_of_def)

lemma range_of_prefix [buffer_simps]: "length xs = n \<Longrightarrow> range_of 0 n (xs @ ys) = xs"
  by (simp add: range_of_def)

lemma range_of_suffix [buffer_simps]:
  "length xs = i \<Longrightarrow> length ys = n \<Longrightarrow> range_of i n (xs @ ys) = ys"
  by (simp add: range_of_def)

lemma take_of_prefix:
  assumes "prefix xs (m @ rest)" "length m \<le> length xs"
  shows "take (length m) xs = m"
  using assms by (metis append_eq_conv_conj prefix_def take_append take_all_iff
      diff_is_0_eq take0 append_Nil2)

section \<open>A flat byte memory\<close>

text \<open>
  Code that works on raw pointers is modelled over a memory of bytes, a pointer being an offset.
  \<open>mem_read m p n\<close> is the contents of the \<open>n\<close> bytes at \<open>p\<close>; \<open>mem_write m p bs\<close> stores \<open>bs\<close>
  there and leaves every other byte, and the size of the memory, as it was.
\<close>

definition mem_read :: "bytes \<Rightarrow> nat \<Rightarrow> nat \<Rightarrow> bytes" where
  "mem_read m p n = take n (drop p m)"

definition mem_write :: "bytes \<Rightarrow> nat \<Rightarrow> bytes \<Rightarrow> bytes" where
  "mem_write m p bs = take p m @ take (length m - p) bs @ drop (p + length bs) m"

lemma length_mem_write [simp]: "length (mem_write m p bs) = length m"
  by (simp add: mem_write_def)

lemma length_mem_read [simp]: "length (mem_read m p n) = min n (length m - p)"
  by (simp add: mem_read_def)

lemma mem_write_split [buffer_simps]:
  "p + length bs \<le> length m \<Longrightarrow> mem_write m p bs = take p m @ bs @ drop (p + length bs) m"
  by (simp add: mem_write_def)

lemma mem_read_write_same [buffer_simps]:
  "p + length bs \<le> length m \<Longrightarrow> length bs = n \<Longrightarrow> mem_read (mem_write m p bs) p n = bs"
  by (simp add: mem_write_def mem_read_def min_def)

lemma nth_mem_write:
  "i < length m \<Longrightarrow> mem_write m p bs ! i
     = (if p \<le> i \<and> i < p + length bs then bs ! (i - p) else m ! i)"
  by (auto simp: mem_write_def nth_append min_def)

lemma mem_write_outside:
  "i < length m \<Longrightarrow> i < p \<or> p + length bs \<le> i \<Longrightarrow> mem_write m p bs ! i = m ! i"
  by (auto simp: nth_mem_write)

lemma mem_write_write_adjacent:
  "p + length xs + length ys \<le> length m
     \<Longrightarrow> mem_write (mem_write m (p + length xs) ys) p xs = mem_write m p (xs @ ys)"
  by (rule nth_equalityI) (auto simp: nth_mem_write nth_append)

end
