(* ===== verification/SHS_Crypto.thy ===== *)
theory SHS_Crypto
  imports SHS_Prelude
begin

text \<open>
  The cryptographic library. MonocypherCpp (the \<open>vendor/monocypher-cpp\<close> submodule) is not part of
  the repository's own code, so its functions are fields of a record \<open>crypto\<close> that every
  definition using them takes as an argument. What the code relies on is stated as the
  predicates \<open>hash_ok\<close>, \<open>sign_ok\<close>, \<open>kx_ok\<close>, \<open>aead_ok\<close>, \<open>nonce_ok\<close>, together \<open>crypto_ok\<close>: output sizes, that a
  genuine signature verifies, that the two sides of a Curve25519 exchange agree, and that
  authenticated decryption inverts encryption. A small executable instance \<open>toy\<close> satisfies them
  all; the witnesses of the properties are evaluated on it.
\<close>

section \<open>The interface\<close>

text \<open>
  \<open>encryption_key<Algorithm>\<close>: \<open>lock\<close> returns MAC and ciphertext, \<open>unlock\<close> the plaintext if the MAC
  matches; \<open>box\<close> is the combined format, \<open>unbox\<close> its fixed-size inverse returning a bool, and
  \<open>unbox_to\<close> the overload with a caller's output buffer of some capacity, which returns the filled
  part of that buffer and an empty one on failure. All of them read their input before they write
  their output, and write no output when they reject.
\<close>

record aead =
  lock :: "bytes \<Rightarrow> bytes \<Rightarrow> bytes \<Rightarrow> bytes \<times> bytes"
  unlock :: "bytes \<Rightarrow> bytes \<Rightarrow> bytes \<Rightarrow> bytes \<Rightarrow> bytes option"
  box :: "bytes \<Rightarrow> bytes \<Rightarrow> bytes \<Rightarrow> bytes"
  unbox :: "bytes \<Rightarrow> bytes \<Rightarrow> bytes \<Rightarrow> bytes option"
  unbox_to :: "bytes \<Rightarrow> bytes \<Rightarrow> bytes \<Rightarrow> nat \<Rightarrow> bytes"

record crypto =
  sha256 :: "bytes \<Rightarrow> bytes"
  hmac_sha512 :: "bytes \<Rightarrow> bytes \<Rightarrow> bytes"      \<comment> \<open>key, data\<close>
  ed_public :: "bytes \<Rightarrow> bytes"                 \<comment> \<open>\<open>signing_key::get_public_key\<close>\<close>
  ed_sign :: "bytes \<Rightarrow> bytes \<Rightarrow> bytes"          \<comment> \<open>\<open>signing_key::sign\<close>\<close>
  ed_check :: "bytes \<Rightarrow> bytes \<Rightarrow> bytes \<Rightarrow> bool" \<comment> \<open>\<open>public_key::check\<close>: key, signature, data\<close>
  kx_public :: "bytes \<Rightarrow> bytes"                 \<comment> \<open>\<open>key_exchange::get_public_key\<close>\<close>
  kx_mult :: "bytes \<Rightarrow> bytes \<Rightarrow> bytes"          \<comment> \<open>secret \<open>*\<close> public\<close>
  sk_to_kx :: "bytes \<Rightarrow> bytes"                  \<comment> \<open>\<open>signing_key::as_key_exchange\<close>\<close>
  pk_to_kx :: "bytes \<Rightarrow> bytes"                  \<comment> \<open>\<open>public_key::for_key_exchange\<close>\<close>
  xsalsa :: aead                               \<comment> \<open>\<open>XSalsa20_Poly1305\<close>\<close>
  xchacha :: aead                              \<comment> \<open>\<open>session::key\<close>, XChaCha20-Poly1305\<close>
  nonce_incr :: "bytes \<Rightarrow> bytes"                \<comment> \<open>\<open>session::nonce::operator++\<close>\<close>
  fillWithString :: "nat \<Rightarrow> bytes \<Rightarrow> bytes"     \<comment> \<open>\<open>byte_array<n>::fillWithString\<close>\<close>
  scuttlebutt_compatible :: bool               \<comment> \<open>the build option \<open>SHS_SCUTTLEBUTT_COMPATIBLE\<close>\<close>

section \<open>What the code relies on\<close>

definition aead_ok :: "aead \<Rightarrow> bool" where
  "aead_ok A \<longleftrightarrow>
     (\<forall>k n m mac c. lock A k n m = (mac, c) \<longrightarrow> length mac = 16 \<and> length c = length m) \<and>
     (\<forall>k n m mac c. unlock A k n mac c = Some m \<longleftrightarrow> lock A k n m = (mac, c)) \<and>
     (\<forall>k n m. length (box A k n m) = length m + 16) \<and>
     (\<forall>k n m c. unbox A k n c = Some m \<longleftrightarrow> c = box A k n m) \<and>
     (\<forall>k n m cap. length m \<le> cap \<longrightarrow> unbox_to A k n (box A k n m) cap = m) \<and>
     (\<forall>k n c cap. unbox A k n c = None \<longrightarrow> unbox_to A k n c cap = [])"

definition hash_ok :: "crypto \<Rightarrow> bool" where
  "hash_ok C \<longleftrightarrow> (\<forall>m. length (sha256 C m) = 32) \<and> (\<forall>k m. length (hmac_sha512 C k m) = 64)"

definition sign_ok :: "crypto \<Rightarrow> bool" where
  "sign_ok C \<longleftrightarrow> (\<forall>sk. length (ed_public C sk) = 32) \<and> (\<forall>sk m. length (ed_sign C sk m) = 64) \<and>
     (\<forall>sk m. ed_check C (ed_public C sk) (ed_sign C sk m) m)"

definition kx_ok :: "crypto \<Rightarrow> bool" where
  "kx_ok C \<longleftrightarrow> (\<forall>x. length (kx_public C x) = 32) \<and> (\<forall>x yp. length (kx_mult C x yp) = 32) \<and>
     (\<forall>x y. kx_mult C x (kx_public C y) = kx_mult C y (kx_public C x)) \<and>
     (\<forall>sk. pk_to_kx C (ed_public C sk) = kx_public C (sk_to_kx C sk))"

definition nonce_ok :: "crypto \<Rightarrow> bool" where
  "nonce_ok C \<longleftrightarrow> (\<forall>n. length (nonce_incr C n) = length n)"

definition crypto_ok :: "crypto \<Rightarrow> bool" where
  "crypto_ok C \<longleftrightarrow> hash_ok C \<and> sign_ok C \<and> kx_ok C \<and> nonce_ok C
     \<and> aead_ok (xsalsa C) \<and> aead_ok (xchacha C)"

lemma aead_okD:
  assumes "aead_ok A"
  shows aead_lock_len: "lock A k n m = (mac, c) \<Longrightarrow> length mac = 16 \<and> length c = length m"
    and aead_unlock_iff: "unlock A k n mac c = Some m \<longleftrightarrow> lock A k n m = (mac, c)"
    and aead_box_len: "length (box A k n m) = length m + 16"
    and aead_unbox_iff: "unbox A k n c = Some m \<longleftrightarrow> c = box A k n m"
    and aead_unbox_to_box: "length m \<le> cap \<Longrightarrow> unbox_to A k n (box A k n m) cap = m"
    and aead_unbox_to_fail: "unbox A k n c = None \<Longrightarrow> unbox_to A k n c cap = []"
  using assms by (simp_all add: aead_ok_def)

lemma crypto_okD:
  assumes "crypto_ok C"
  shows sha256_len: "length (sha256 C m) = 32"
    and hmac_len: "length (hmac_sha512 C k m) = 64"
    and ed_public_len: "length (ed_public C sk) = 32"
    and ed_sign_len: "length (ed_sign C sk m) = 64"
    and ed_check_sign: "ed_check C (ed_public C sk) (ed_sign C sk m) m"
    and kx_public_len: "length (kx_public C x) = 32"
    and kx_mult_len: "length (kx_mult C x yp) = 32"
    and kx_commute: "kx_mult C x (kx_public C y) = kx_mult C y (kx_public C x)"
    and kx_convert: "pk_to_kx C (ed_public C sk) = kx_public C (sk_to_kx C sk)"
    and nonce_incr_len: "length (nonce_incr C n) = length n"
    and xsalsa_ok: "aead_ok (xsalsa C)"
    and xchacha_ok: "aead_ok (xchacha C)"
  using assms
  by (simp_all add: crypto_ok_def hash_ok_def sign_ok_def kx_ok_def nonce_ok_def)

lemma aead_unlock_lock:
  assumes "aead_ok A"
  shows "unlock A k n (fst (lock A k n m)) (snd (lock A k n m)) = Some m"
  using assms by (simp add: aead_unlock_iff)

section \<open>An executable instance\<close>

text \<open>Not secure, but it has every property above, and wrong keys, nonces and bytes are rejected
  often enough to make the examples meaningful.\<close>

definition pad :: "nat \<Rightarrow> bytes \<Rightarrow> bytes" where
  "pad n xs = take n xs @ replicate (n - length xs) 0"

definition byte_sum :: "bytes \<Rightarrow> byte" where
  "byte_sum xs = foldr (+) xs 0"

definition toy_tag :: "bytes \<Rightarrow> bytes \<Rightarrow> bytes \<Rightarrow> bytes" where
  "toy_tag k n c = byte_sum k # byte_sum n # byte_sum c # replicate 13 7"

definition toy_lock :: "bytes \<Rightarrow> bytes \<Rightarrow> bytes \<Rightarrow> bytes \<times> bytes" where
  "toy_lock k n m = (let c = map ((+) (byte_sum k)) m in (toy_tag k n c, c))"

definition toy_unlock :: "bytes \<Rightarrow> bytes \<Rightarrow> bytes \<Rightarrow> bytes \<Rightarrow> bytes option" where
  "toy_unlock k n mac c =
     (if mac = toy_tag k n c then Some (map (\<lambda>b. b - byte_sum k) c) else None)"

definition toy_box :: "bytes \<Rightarrow> bytes \<Rightarrow> bytes \<Rightarrow> bytes" where
  "toy_box k n m = (let (mac, c) = toy_lock k n m in mac @ c)"

definition toy_unbox :: "bytes \<Rightarrow> bytes \<Rightarrow> bytes \<Rightarrow> bytes option" where
  "toy_unbox k n c = (if length c < 16 then None else toy_unlock k n (take 16 c) (drop 16 c))"

definition toy_unbox_to :: "bytes \<Rightarrow> bytes \<Rightarrow> bytes \<Rightarrow> nat \<Rightarrow> bytes" where
  "toy_unbox_to k n c cap =
     (case toy_unbox k n c of None \<Rightarrow> [] | Some m \<Rightarrow> if length m \<le> cap then m else [])"

definition toy_aead :: aead where
  "toy_aead = \<lparr>lock = toy_lock, unlock = toy_unlock, box = toy_box, unbox = toy_unbox,
     unbox_to = toy_unbox_to\<rparr>"

definition toy :: crypto where
  "toy = \<lparr>sha256 = (\<lambda>m. pad 32 [byte_sum m]),
     hmac_sha512 = (\<lambda>k m. pad 64 [byte_sum k, byte_sum m]),
     ed_public = pad 32,
     ed_sign = (\<lambda>sk m. pad 64 [byte_sum (pad 32 sk), byte_sum m]),
     ed_check = (\<lambda>pk s m. s = pad 64 [byte_sum pk, byte_sum m]),
     kx_public = pad 32,
     kx_mult = (\<lambda>x yp. map2 (+) (pad 32 x) (pad 32 yp)),
     sk_to_kx = (\<lambda>sk. sk),
     pk_to_kx = (\<lambda>pk. pk),
     xsalsa = toy_aead, xchacha = toy_aead,
     nonce_incr = (\<lambda>n. case n of [] \<Rightarrow> [] | b # bs \<Rightarrow> (b + 1) # bs),
     fillWithString = pad, scuttlebutt_compatible = True\<rparr>"

lemma length_pad [simp]: "length (pad n xs) = n"
  by (simp add: pad_def)

lemma pad_id [simp]: "length xs = n \<Longrightarrow> pad n xs = xs"
  by (simp add: pad_def)

lemma map2_add_commute: "map2 (+) xs ys = map2 (+) ys (xs :: bytes)"
  by (simp add: map2_map_map zip_commute [of xs ys] split_def add.commute)

lemma toy_unlock_iff: "toy_unlock k n mac c = Some m \<longleftrightarrow> toy_lock k n m = (mac, c)"
  by (auto simp: toy_unlock_def toy_lock_def Let_def comp_def)

lemma toy_unbox_iff: "toy_unbox k n c = Some m \<longleftrightarrow> c = toy_box k n m"
proof
  assume "toy_unbox k n c = Some m"
  then have "toy_lock k n m = (take 16 c, drop 16 c)"
    by (auto simp: toy_unbox_def toy_unlock_iff split: if_splits)
  then show "c = toy_box k n m" by (simp add: toy_box_def)
next
  assume "c = toy_box k n m"
  moreover obtain mac d where l: "toy_lock k n m = (mac, d)" by fastforce
  moreover from l have "length mac = 16" by (auto simp: toy_lock_def toy_tag_def Let_def)
  ultimately show "toy_unbox k n c = Some m"
    by (simp add: toy_unbox_def toy_box_def toy_unlock_iff)
qed

lemma toy_aead_ok: "aead_ok toy_aead"
proof -
  have "length mac = 16 \<and> length c = length m" if "toy_lock k n m = (mac, c)" for k n m mac c
    using that by (auto simp: toy_lock_def toy_tag_def Let_def)
  moreover have "length (toy_box k n m) = length m + 16" for k n m
    by (simp add: toy_box_def toy_lock_def toy_tag_def Let_def)
  moreover have "toy_unbox_to k n (toy_box k n m) cap = m" if "length m \<le> cap" for k n m cap
    using that toy_unbox_iff [of k n "toy_box k n m" m] by (simp add: toy_unbox_to_def)
  moreover have "toy_unbox_to k n c cap = []" if "toy_unbox k n c = None" for k n c cap
    using that by (simp add: toy_unbox_to_def)
  ultimately show ?thesis
    by (simp add: aead_ok_def toy_aead_def toy_unlock_iff toy_unbox_iff)
qed

lemma toy_ok: "crypto_ok toy"
proof -
  have "hash_ok toy" by (simp add: hash_ok_def toy_def)
  moreover have "sign_ok toy" by (simp add: sign_ok_def toy_def)
  moreover have "kx_ok toy"
    by (auto simp: kx_ok_def toy_def map2_add_commute)
  moreover have "nonce_ok toy"
    by (simp add: nonce_ok_def toy_def split: list.split)
  moreover have "aead_ok (xsalsa toy)" "aead_ok (xchacha toy)"
    using toy_aead_ok by (simp_all add: toy_def)
  ultimately show ?thesis by (simp add: crypto_ok_def)
qed

end
