(* ===== verification/Shs_Impl.thy ===== *)
theory Shs_Impl
  imports SHS_Crypto
begin

text \<open>
  The cryptographic core, \<open>src/shs.cc\<close> and \<open>include/shs.hh\<close>: class \<open>snej::shs::impl::handshake\<close>.
  The record \<open>impl_handshake\<close> has the class's members (each name prefixed \<open>hs_\<close>), and every member function is a
  definition of the same name. Here \<open>x\<close> means "me" and \<open>y\<close> "the peer"; upper case is a long-term
  Ed25519 key, lower case an ephemeral X25519 key, and \<open>p\<close> marks a public key.

  The lemmas show what each verification accepts, that every message a peer creates is accepted
  by the other side, and that the two sides derive matching session keys.
\<close>

section \<open>State\<close>

record impl_handshake =
  hs_K :: bytes                        \<comment> \<open>application ID\<close>
  hs_X :: bytes                        \<comment> \<open>my signing key\<close>
  hs_Xp :: bytes                       \<comment> \<open>my public key\<close>
  hs_x :: bytes                        \<comment> \<open>my ephemeral secret key\<close>
  hs_xp :: bytes                       \<comment> \<open>my ephemeral public key\<close>
  hs_Yp :: "bytes option"              \<comment> \<open>peer's public key\<close>
  hs_yp :: "bytes option"              \<comment> \<open>peer's ephemeral public key\<close>
  hs_ab :: "bytes option"              \<comment> \<open>\<open>_x * _yp\<close>\<close>
  hs_hashab :: "bytes option"          \<comment> \<open>SHA256 of the above\<close>
  hs_aB :: "bytes option"
  hs_Ab :: "bytes option"
  hs_serverAckKey :: "bytes option"
  hs_H :: "bytes option"               \<comment> \<open>\<open>sign[A](K | Bp | hash(ab)) | Ap\<close>\<close>

record Session =
  encryptionKey :: bytes
  encryptionNonce :: bytes
  decryptionKey :: bytes
  decryptionNonce :: bytes
  peerPublicKey :: bytes

section \<open>Algorithms\<close>

definition hash :: "crypto \<Rightarrow> bytes \<Rightarrow> bytes" where
  "hash C m = sha256 C m"

definition hmac :: "crypto \<Rightarrow> bytes \<Rightarrow> bytes \<Rightarrow> bytes" where
  "hmac C key m = range_of 0 32 (hmac_sha512 C key m)"

definition hashToNonce :: "bytes \<Rightarrow> bytes" where
  "hashToNonce h = range_of 0 24 h"

definition makeBoxKey :: "crypto \<Rightarrow> bytes \<Rightarrow> bytes" where
  "makeBoxKey C keyMaterial = hash C keyMaterial"

text \<open>The cipher of the two boxes, chosen when the library is built.\<close>

definition box_key :: "crypto \<Rightarrow> aead" where
  "box_key C = (if scuttlebutt_compatible C then xsalsa C else xchacha C)"

definition zero_nonce :: bytes where
  "zero_nonce = replicate 24 0"

definition box0 :: "crypto \<Rightarrow> bytes \<Rightarrow> bytes \<Rightarrow> bytes" where
  "box0 C key plaintext = box (box_key C) key zero_nonce plaintext"

definition unbox0 :: "crypto \<Rightarrow> bytes \<Rightarrow> bytes \<Rightarrow> bytes option" where
  "unbox0 C key ciphertext = unbox (box_key C) key zero_nonce ciphertext"

text \<open>The two overloads of \<open>operator*\<close> for Ed25519 keys.\<close>

definition mult_signing :: "crypto \<Rightarrow> bytes \<Rightarrow> bytes \<Rightarrow> bytes" where
  "mult_signing C k pk = kx_mult C (sk_to_kx C k) pk"

definition mult_public :: "crypto \<Rightarrow> bytes \<Rightarrow> bytes \<Rightarrow> bytes" where
  "mult_public C k pk = kx_mult C k (pk_to_kx C pk)"

section \<open>Common code\<close>

text \<open>The constructor; its randomised ephemeral key is the argument \<open>x\<close>.\<close>

definition new_handshake :: "crypto \<Rightarrow> bytes \<Rightarrow> bytes \<Rightarrow> bytes \<Rightarrow> bytes \<Rightarrow> impl_handshake" where
  "new_handshake C appID signingKey publicKey x =
     \<lparr>hs_K = appID, hs_X = signingKey, hs_Xp = publicKey, hs_x = x, hs_xp = kx_public C x,
      hs_Yp = None, hs_yp = None, hs_ab = None, hs_hashab = None, hs_aB = None, hs_Ab = None,
      hs_serverAckKey = None, hs_H = None\<rparr>"

definition setEphemeralKeys :: "crypto \<Rightarrow> bytes \<Rightarrow> impl_handshake \<Rightarrow> impl_handshake" where
  "setEphemeralKeys C kx h = h\<lparr>hs_x := kx, hs_xp := kx_public C kx\<rparr>"

definition createChallenge :: "crypto \<Rightarrow> impl_handshake \<Rightarrow> bytes" where
  "createChallenge C h = hmac C (hs_K h) (hs_xp h) @ hs_xp h"

definition verifyChallenge :: "crypto \<Rightarrow> bytes \<Rightarrow> impl_handshake \<Rightarrow> bool \<times> impl_handshake" where
  "verifyChallenge C challenge h =
     (let challengeHmac = range_of 0 32 challenge;
          challengePubKey = range_of 32 32 challenge
      in if challengeHmac \<noteq> hmac C (hs_K h) challengePubKey then (False, h)
         else let ab = kx_mult C (hs_x h) challengePubKey
              in (True, h\<lparr>hs_yp := Some challengePubKey, hs_ab := Some ab,
                          hs_hashab := Some (hash C ab)\<rparr>))"

text \<open>The names that client and server have for these two.\<close>

definition createClientChallenge :: "crypto \<Rightarrow> impl_handshake \<Rightarrow> bytes" where
  [simp]: "createClientChallenge C h = createChallenge C h"

definition verifyServerChallenge :: "crypto \<Rightarrow> bytes \<Rightarrow> impl_handshake \<Rightarrow> bool \<times> impl_handshake" where
  [simp]: "verifyServerChallenge C c h = verifyChallenge C c h"

definition verifyClientChallenge :: "crypto \<Rightarrow> bytes \<Rightarrow> impl_handshake \<Rightarrow> bool \<times> impl_handshake" where
  [simp]: "verifyClientChallenge C c h = verifyChallenge C c h"

definition createServerChallenge :: "crypto \<Rightarrow> impl_handshake \<Rightarrow> bytes" where
  [simp]: "createServerChallenge C h = createChallenge C h"

definition getOutcome :: "crypto \<Rightarrow> impl_handshake \<Rightarrow> cpp_exn + Session" where
  "getOutcome C h =
     (case opt_value (hs_serverAckKey h) of Inl e \<Rightarrow> Inl e | Inr ack \<Rightarrow>
      case opt_value (hs_Yp h) of Inl e \<Rightarrow> Inl e | Inr Yp \<Rightarrow>
      case opt_value (hs_yp h) of Inl e \<Rightarrow> Inl e | Inr yp \<Rightarrow>
        let boxKeyHash = hash C ack
        in Inr \<lparr>encryptionKey = hash C (boxKeyHash @ Yp),
                encryptionNonce = hashToNonce (hmac C (hs_K h) yp),
                decryptionKey = hash C (boxKeyHash @ hs_Xp h),
                decryptionNonce = hashToNonce (hmac C (hs_K h) (hs_xp h)),
                peerPublicKey = Yp\<rparr>)"

definition clientAuthKey :: "crypto \<Rightarrow> impl_handshake \<Rightarrow> cpp_exn + bytes" where
  "clientAuthKey C h =
     (case opt_deref (hs_ab h) of Inl e \<Rightarrow> Inl e | Inr ab \<Rightarrow>
      case opt_deref (hs_aB h) of Inl e \<Rightarrow> Inl e | Inr aB \<Rightarrow>
        Inr (makeBoxKey C (hs_K h @ ab @ aB)))"

definition serverAckKey :: "crypto \<Rightarrow> impl_handshake \<Rightarrow> (bytes, impl_handshake) outcome" where
  "serverAckKey C h =
     with_val (opt_value (hs_ab h)) h (\<lambda>ab.
     with_val (opt_value (hs_aB h)) h (\<lambda>aB.
     with_val (opt_value (hs_Ab h)) h (\<lambda>Ab.
       let key = makeBoxKey C (hs_K h @ ab @ aB @ Ab)
       in (Inr key, h\<lparr>hs_serverAckKey := Some key\<rparr>))))"

definition getPeerPublicKey :: "impl_handshake \<Rightarrow> cpp_exn + bytes" where
  "getPeerPublicKey h = opt_value (hs_Yp h)"

section \<open>Client\<close>

definition setServerPublicKey :: "bytes \<Rightarrow> impl_handshake \<Rightarrow> impl_handshake" where
  "setServerPublicKey pk h = h\<lparr>hs_Yp := Some pk\<rparr>"

definition createClientAuth :: "crypto \<Rightarrow> impl_handshake \<Rightarrow> (bytes, impl_handshake) outcome" where
  "createClientAuth C h =
     with_val (opt_value (hs_Yp h)) h (\<lambda>Bp.
     with_val (opt_value (hs_yp h)) h (\<lambda>bp.
     with_val (opt_value (hs_hashab h)) h (\<lambda>hashab.
       let H = ed_sign C (hs_X h) (hs_K h @ Bp @ hashab) @ hs_Xp h;
           h' = h\<lparr>hs_H := Some H, hs_Ab := Some (mult_signing C (hs_X h) bp),
                  hs_aB := Some (mult_public C (hs_x h) Bp)\<rparr>
       in with_val (clientAuthKey C h') h' (\<lambda>key. (Inr (box0 C key H), h')))))"

definition verifyServerAck :: "crypto \<Rightarrow> bytes \<Rightarrow> impl_handshake \<Rightarrow> (bool, impl_handshake) outcome"
  where
  "verifyServerAck C ack h =
     with_val (opt_value (hs_Yp h)) h (\<lambda>Bp.
     with_val (opt_value (hs_yp h)) h (\<lambda>bp.
     ebind (serverAckKey C h) (\<lambda>key h'.
       case unbox0 C key ack of
         Some sig \<Rightarrow>
           with_val (opt_value (hs_H h')) h' (\<lambda>H.
           with_val (opt_value (hs_hashab h')) h' (\<lambda>hashab.
             (Inr (ed_check C Bp sig (hs_K h' @ H @ hashab)), h')))
       | None \<Rightarrow> (Inr False, h')) (\<lambda>h'. h')))"

section \<open>Server\<close>

definition verifyClientAuth :: "crypto \<Rightarrow> bytes \<Rightarrow> impl_handshake \<Rightarrow> (bool, impl_handshake) outcome"
  where
  "verifyClientAuth C auth h =
     with_val (opt_value (hs_yp h)) h (\<lambda>ap.
       let h1 = h\<lparr>hs_aB := Some (mult_signing C (hs_X h) ap)\<rparr>
       in with_val (clientAuthKey C h1) h1 (\<lambda>key.
            let h2 = h1\<lparr>hs_H := unbox0 C key auth\<rparr>
            in case hs_H h2 of
                 None \<Rightarrow> (Inr False, h2)
               | Some H \<Rightarrow>
                   let sig = range_of 0 64 H;
                       Ap = range_of 64 32 H;
                       h3 = h2\<lparr>hs_Yp := Some Ap, hs_Ab := Some (mult_public C (hs_x h) Ap)\<rparr>
                   in with_val (opt_value (hs_hashab h3)) h3 (\<lambda>hashab.
                        (Inr (ed_check C Ap sig (hs_K h3 @ hs_Xp h3 @ hashab)), h3))))"

definition createServerAck :: "crypto \<Rightarrow> impl_handshake \<Rightarrow> (bytes, impl_handshake) outcome" where
  "createServerAck C h =
     with_val (opt_value (hs_yp h)) h (\<lambda>ap.
     ebind (serverAckKey C h) (\<lambda>key h'.
       with_val (opt_value (hs_H h')) h' (\<lambda>H.
       with_val (opt_value (hs_hashab h')) h' (\<lambda>hashab.
         (Inr (box0 C key (ed_sign C (hs_X h') (hs_K h' @ H @ hashab))), h')))) (\<lambda>h'. h'))"

section \<open>What the verifications accept\<close>

lemma hmac_length [simp]: "crypto_ok C \<Longrightarrow> length (hmac C k m) = 32"
  by (simp add: hmac_def hmac_len)

lemma hash_length [simp]: "crypto_ok C \<Longrightarrow> length (hash C m) = 32"
  by (simp add: hash_def sha256_len)

lemma box_key_ok: "crypto_ok C \<Longrightarrow> aead_ok (box_key C)"
  by (simp add: box_key_def xsalsa_ok xchacha_ok)

lemma unbox0_iff: "crypto_ok C \<Longrightarrow> unbox0 C k c = Some m \<longleftrightarrow> c = box0 C k m"
  by (simp add: unbox0_def box0_def aead_unbox_iff [OF box_key_ok])

lemma unbox0_box0 [simp]: "crypto_ok C \<Longrightarrow> unbox0 C k (box0 C k m) = Some m"
  by (simp add: unbox0_iff)

lemma box0_length [simp]: "crypto_ok C \<Longrightarrow> length (box0 C k m) = length m + 16"
  by (simp add: box0_def aead_box_len [OF box_key_ok])

text \<open>The state a successful \<open>verifyChallenge\<close> leaves, and when it is successful.\<close>

definition challenged :: "crypto \<Rightarrow> bytes \<Rightarrow> impl_handshake \<Rightarrow> impl_handshake" where
  "challenged C yp h = h\<lparr>hs_yp := Some yp, hs_ab := Some (kx_mult C (hs_x h) yp),
     hs_hashab := Some (hash C (kx_mult C (hs_x h) yp))\<rparr>"

lemma verifyChallenge_eq:
  "verifyChallenge C ch h =
     (if range_of 0 32 ch = hmac C (hs_K h) (range_of 32 32 ch)
      then (True, challenged C (range_of 32 32 ch) h) else (False, h))"
  by (simp add: verifyChallenge_def challenged_def Let_def)

lemma challenge_split:
  assumes "length ch = 64"
  shows "range_of 0 32 ch = m \<longleftrightarrow> ch = m @ range_of 32 32 ch"
proof -
  have "ch = range_of 0 32 ch @ range_of 32 32 ch"
    using assms by (simp add: range_of_def)
  then show ?thesis by (metis append_same_eq)
qed

lemma verifyChallenge_sound:
  assumes "length ch = 64"
  shows "fst (verifyChallenge C ch h) \<longleftrightarrow> (\<exists>yp. length yp = 32 \<and> ch = hmac C (hs_K h) yp @ yp)"
    (is "?L \<longleftrightarrow> ?R")
proof
  assume ?L
  then have "ch = hmac C (hs_K h) (range_of 32 32 ch) @ range_of 32 32 ch"
    by (simp add: verifyChallenge_eq challenge_split [OF assms] split: if_splits)
  moreover have "length (range_of 32 32 ch) = 32" using assms by simp
  ultimately show ?R by blast
next
  assume ?R
  then obtain yp where yp: "length yp = 32" and ch: "ch = hmac C (hs_K h) yp @ yp" by blast
  with assms have "length (hmac C (hs_K h) yp) = 32" by simp
  with yp have "range_of 0 32 ch = hmac C (hs_K h) yp" "range_of 32 32 ch = yp"
    by (simp_all add: ch range_of_def)
  then show ?L by (simp add: verifyChallenge_eq)
qed

lemma verifyChallenge_createChallenge:
  assumes "crypto_ok C" "hs_K p = hs_K h" "length (hs_xp p) = 32"
  shows "verifyChallenge C (createChallenge C p) h = (True, challenged C (hs_xp p) h)"
  using assms
  by (simp add: verifyChallenge_eq createChallenge_def range_of_prefix range_of_suffix)

text \<open>
  The server's view of a client-auth message once the challenges are exchanged: it accepts
  exactly the boxes, under the key that needs its own long-term secret, of a signature by the
  enclosed public key over the app ID, the server's key and the shared-secret hash.
\<close>

definition auth_key :: "crypto \<Rightarrow> impl_handshake \<Rightarrow> bytes \<Rightarrow> bytes \<Rightarrow> bytes" where
  "auth_key C h ab aB = makeBoxKey C (hs_K h @ ab @ aB)"

lemma verifyClientAuth_challenged:
  fixes C :: crypto
  assumes "hs_yp h = Some ap" "hs_ab h = Some ab" "hs_hashab h = Some hashab"
  defines "aB \<equiv> mult_signing C (hs_X h) ap"
  shows "verifyClientAuth C auth h =
    (case unbox0 C (auth_key C h ab aB) auth of
       None \<Rightarrow> (Inr False, h\<lparr>hs_aB := Some aB, hs_H := None\<rparr>)
     | Some H \<Rightarrow> (Inr (ed_check C (range_of 64 32 H) (range_of 0 64 H) (hs_K h @ hs_Xp h @ hashab)),
          h\<lparr>hs_aB := Some aB, hs_H := Some H, hs_Yp := Some (range_of 64 32 H),
            hs_Ab := Some (mult_public C (hs_x h) (range_of 64 32 H))\<rparr>))"
  using assms
  by (simp add: verifyClientAuth_def clientAuthKey_def auth_key_def Let_def split: option.split)

lemma serverAckKey_eq:
  assumes "hs_ab h = Some ab" "hs_aB h = Some aB" "hs_Ab h = Some Ab"
  shows "serverAckKey C h = (Inr (makeBoxKey C (hs_K h @ ab @ aB @ Ab)),
     h\<lparr>hs_serverAckKey := Some (makeBoxKey C (hs_K h @ ab @ aB @ Ab))\<rparr>)"
  using assms by (simp add: serverAckKey_def Let_def)

lemma verifyServerAck_eq:
  fixes C :: crypto
  assumes "hs_Yp h = Some Bp" "hs_yp h = Some bp" "hs_ab h = Some ab" "hs_aB h = Some aB"
    "hs_Ab h = Some Ab" "hs_H h = Some H" "hs_hashab h = Some hashab"
  defines "key \<equiv> makeBoxKey C (hs_K h @ ab @ aB @ Ab)"
  shows "verifyServerAck C ack h =
    (Inr (case unbox0 C key ack of None \<Rightarrow> False
          | Some sig \<Rightarrow> ed_check C Bp sig (hs_K h @ H @ hashab)),
     h\<lparr>hs_serverAckKey := Some key\<rparr>)"
  using assms by (simp add: verifyServerAck_def serverAckKey_eq split: option.split)

lemma createServerAck_eq:
  fixes C :: crypto
  assumes "hs_yp h = Some ap" "hs_ab h = Some ab" "hs_aB h = Some aB"
    "hs_Ab h = Some Ab" "hs_H h = Some H" "hs_hashab h = Some hashab"
  defines "key \<equiv> makeBoxKey C (hs_K h @ ab @ aB @ Ab)"
  shows "createServerAck C h =
    (Inr (box0 C key (ed_sign C (hs_X h) (hs_K h @ H @ hashab))),
     h\<lparr>hs_serverAckKey := Some key\<rparr>)"
  using assms by (simp add: createServerAck_def serverAckKey_eq)

lemma createClientAuth_eq:
  fixes C :: crypto
  assumes "hs_Yp h = Some Bp" "hs_yp h = Some bp" "hs_ab h = Some ab" "hs_hashab h = Some hashab"
  defines "H \<equiv> ed_sign C (hs_X h) (hs_K h @ Bp @ hashab) @ hs_Xp h"
    and "aB \<equiv> mult_public C (hs_x h) Bp"
  shows "createClientAuth C h =
    (Inr (box0 C (makeBoxKey C (hs_K h @ ab @ aB)) H),
     h\<lparr>hs_H := Some H, hs_Ab := Some (mult_signing C (hs_X h) bp), hs_aB := Some aB\<rparr>)"
  using assms by (simp add: createClientAuth_def clientAuthKey_def Let_def)

section \<open>An honest exchange\<close>

text \<open>
  The states of the two peers during an exchange in which every message arrives: \<open>K\<close> is the app
  ID, \<open>A\<close>, \<open>B\<close> the long-term and \<open>a\<close>, \<open>b\<close> the ephemeral secret keys of client and server.
\<close>

definition client0 :: "crypto \<Rightarrow> bytes \<Rightarrow> bytes \<Rightarrow> bytes \<Rightarrow> bytes \<Rightarrow> impl_handshake" where
  "client0 C K A a Bp = setServerPublicKey Bp (new_handshake C K A (ed_public C A) a)"

definition server0 :: "crypto \<Rightarrow> bytes \<Rightarrow> bytes \<Rightarrow> bytes \<Rightarrow> impl_handshake" where
  "server0 C K B b = new_handshake C K B (ed_public C B) b"

text \<open>The shared secrets of \<open>CheatSheet.md\<close>, and the keys both sides derive from them.\<close>

definition secret_ab :: "crypto \<Rightarrow> bytes \<Rightarrow> bytes \<Rightarrow> bytes" where
  "secret_ab C a b = kx_mult C a (kx_public C b)"

definition secret_aB :: "crypto \<Rightarrow> bytes \<Rightarrow> bytes \<Rightarrow> bytes" where
  "secret_aB C a B = kx_mult C a (kx_public C (sk_to_kx C B))"

definition secret_Ab :: "crypto \<Rightarrow> bytes \<Rightarrow> bytes \<Rightarrow> bytes" where
  "secret_Ab C A b = kx_mult C (sk_to_kx C A) (kx_public C b)"

definition shared_secret :: "crypto \<Rightarrow> bytes \<Rightarrow> bytes \<Rightarrow> bytes \<Rightarrow> bytes \<Rightarrow> bytes \<Rightarrow> bytes" where
  "shared_secret C K A a B b = K @ secret_ab C a b @ secret_aB C a B @ secret_Ab C A b"

definition client_H :: "crypto \<Rightarrow> bytes \<Rightarrow> bytes \<Rightarrow> bytes \<Rightarrow> bytes \<Rightarrow> bytes \<Rightarrow> bytes" where
  "client_H C K A a B b =
     ed_sign C A (K @ ed_public C B @ hash C (secret_ab C a b)) @ ed_public C A"

definition msg_auth :: "crypto \<Rightarrow> bytes \<Rightarrow> bytes \<Rightarrow> bytes \<Rightarrow> bytes \<Rightarrow> bytes \<Rightarrow> bytes" where
  "msg_auth C K A a B b =
     box0 C (hash C (K @ secret_ab C a b @ secret_aB C a B)) (client_H C K A a B b)"

definition msg_ack :: "crypto \<Rightarrow> bytes \<Rightarrow> bytes \<Rightarrow> bytes \<Rightarrow> bytes \<Rightarrow> bytes \<Rightarrow> bytes" where
  "msg_ack C K A a B b = box0 C (hash C (shared_secret C K A a B b))
     (ed_sign C B (K @ client_H C K A a B b @ hash C (secret_ab C a b)))"

definition client_keys :: "crypto \<Rightarrow> bytes \<Rightarrow> bytes \<Rightarrow> bytes \<Rightarrow> bytes \<Rightarrow> bytes \<Rightarrow> Session" where
  "client_keys C K A a B b =
     (let SS = shared_secret C K A a B b in
      \<lparr>encryptionKey = hash C (hash C (hash C SS) @ ed_public C B),
       encryptionNonce = take 24 (hmac C K (kx_public C b)),
       decryptionKey = hash C (hash C (hash C SS) @ ed_public C A),
       decryptionNonce = take 24 (hmac C K (kx_public C a)),
       peerPublicKey = ed_public C B\<rparr>)"

definition server_keys :: "crypto \<Rightarrow> bytes \<Rightarrow> bytes \<Rightarrow> bytes \<Rightarrow> bytes \<Rightarrow> bytes \<Rightarrow> Session" where
  "server_keys C K A a B b =
     (let SS = shared_secret C K A a B b in
      \<lparr>encryptionKey = hash C (hash C (hash C SS) @ ed_public C A),
       encryptionNonce = take 24 (hmac C K (kx_public C a)),
       decryptionKey = hash C (hash C (hash C SS) @ ed_public C B),
       decryptionNonce = take 24 (hmac C K (kx_public C b)),
       peerPublicKey = ed_public C A\<rparr>)"

definition client1 :: "crypto \<Rightarrow> bytes \<Rightarrow> bytes \<Rightarrow> bytes \<Rightarrow> bytes \<Rightarrow> bytes \<Rightarrow> impl_handshake" where
  "client1 C K A a B b = challenged C (kx_public C b) (client0 C K A a (ed_public C B))"

definition client2 :: "crypto \<Rightarrow> bytes \<Rightarrow> bytes \<Rightarrow> bytes \<Rightarrow> bytes \<Rightarrow> bytes \<Rightarrow> impl_handshake" where
  "client2 C K A a B b = (client1 C K A a B b)\<lparr>hs_H := Some (client_H C K A a B b),
     hs_Ab := Some (secret_Ab C A b), hs_aB := Some (secret_aB C a B)\<rparr>"

definition client3 :: "crypto \<Rightarrow> bytes \<Rightarrow> bytes \<Rightarrow> bytes \<Rightarrow> bytes \<Rightarrow> bytes \<Rightarrow> impl_handshake" where
  "client3 C K A a B b = (client2 C K A a B b)
     \<lparr>hs_serverAckKey := Some (hash C (shared_secret C K A a B b))\<rparr>"

definition server1 :: "crypto \<Rightarrow> bytes \<Rightarrow> bytes \<Rightarrow> bytes \<Rightarrow> bytes \<Rightarrow> impl_handshake" where
  "server1 C K a B b = challenged C (kx_public C a) (server0 C K B b)"

definition server2 :: "crypto \<Rightarrow> bytes \<Rightarrow> bytes \<Rightarrow> bytes \<Rightarrow> bytes \<Rightarrow> bytes \<Rightarrow> impl_handshake" where
  "server2 C K A a B b = (server1 C K a B b)\<lparr>hs_aB := Some (secret_aB C a B),
     hs_H := Some (client_H C K A a B b), hs_Yp := Some (ed_public C A),
     hs_Ab := Some (secret_Ab C A b)\<rparr>"

definition server3 :: "crypto \<Rightarrow> bytes \<Rightarrow> bytes \<Rightarrow> bytes \<Rightarrow> bytes \<Rightarrow> bytes \<Rightarrow> impl_handshake" where
  "server3 C K A a B b = (server2 C K A a B b)
     \<lparr>hs_serverAckKey := Some (hash C (shared_secret C K A a B b))\<rparr>"

lemmas peer_defs = client0_def client1_def client2_def client3_def server0_def server1_def
  server2_def server3_def challenged_def new_handshake_def setServerPublicKey_def

lemmas secret_defs = secret_ab_def secret_aB_def secret_Ab_def shared_secret_def client_H_def
  msg_auth_def msg_ack_def client_keys_def server_keys_def

lemma client_H_length [simp]: "crypto_ok C \<Longrightarrow> length (client_H C K A a B b) = 96"
  by (simp add: client_H_def ed_sign_len ed_public_len)

lemma msg_auth_length [simp]: "crypto_ok C \<Longrightarrow> length (msg_auth C K A a B b) = 112"
  by (simp add: msg_auth_def)

lemma msg_ack_length [simp]: "crypto_ok C \<Longrightarrow> length (msg_ack C K A a B b) = 80"
  by (simp add: msg_ack_def ed_sign_len)

lemma server_verifies_client_challenge:
  assumes "crypto_ok C"
  shows "verifyChallenge C (createChallenge C (client0 C K A a Bp)) (server0 C K B b)
     = (True, server1 C K a B b)"
  using assms
  by (simp add: verifyChallenge_createChallenge server1_def kx_public_len client0_def server0_def
      new_handshake_def setServerPublicKey_def)

lemma client_verifies_server_challenge:
  assumes "crypto_ok C"
  shows "verifyChallenge C (createChallenge C (server1 C K a B b)) (client0 C K A a (ed_public C B))
     = (True, client1 C K A a B b)"
  using assms
  by (simp add: verifyChallenge_createChallenge client1_def kx_public_len server1_def client0_def
      server0_def new_handshake_def setServerPublicKey_def challenged_def)

lemma client_creates_auth:
  assumes "crypto_ok C"
  shows "createClientAuth C (client1 C K A a B b) = (Inr (msg_auth C K A a B b), client2 C K A a B b)"
  using assms
  by (simp add: createClientAuth_eq [where Bp = "ed_public C B" and bp = "kx_public C b"
        and ab = "secret_ab C a b" and hashab = "hash C (secret_ab C a b)"]
      peer_defs secret_defs mult_signing_def mult_public_def makeBoxKey_def kx_convert)

lemma server_verifies_auth:
  assumes "crypto_ok C"
  shows "verifyClientAuth C (msg_auth C K A a B b) (server1 C K a B b) = (Inr True, server2 C K A a B b)"
proof -
  have ab: "kx_mult C b (kx_public C a) = secret_ab C a b"
    by (simp add: secret_ab_def kx_commute [OF assms, of a b])
  have aB: "mult_signing C B (kx_public C a) = secret_aB C a B"
    by (simp add: secret_aB_def mult_signing_def kx_commute [OF assms, of a])
  have Ab: "mult_public C b (ed_public C A) = secret_Ab C A b"
    by (simp add: secret_Ab_def mult_public_def kx_convert [OF assms] kx_commute [OF assms, of b])
  have H: "range_of 64 32 (client_H C K A a B b) = ed_public C A"
    "range_of 0 64 (client_H C K A a B b)
       = ed_sign C A (K @ ed_public C B @ hash C (secret_ab C a b))"
    using assms by (simp_all add: client_H_def range_of_def ed_sign_len ed_public_len)
  show ?thesis
    using assms
    by (simp add: verifyClientAuth_challenged [where ap = "kx_public C a" and ab = "secret_ab C a b"
          and hashab = "hash C (secret_ab C a b)"] server1_def server2_def server0_def
        new_handshake_def challenged_def ab aB Ab H auth_key_def makeBoxKey_def msg_auth_def
        ed_check_sign)
qed

lemma server_creates_ack:
  assumes "crypto_ok C"
  shows "createServerAck C (server2 C K A a B b) = (Inr (msg_ack C K A a B b), server3 C K A a B b)"
  using assms
  by (simp add: createServerAck_eq [where ap = "kx_public C a" and ab = "secret_ab C a b"
        and hashab = "hash C (secret_ab C a b)" and aB = "secret_aB C a B" and Ab = "secret_Ab C A b"
        and H = "client_H C K A a B b"] server3_def server2_def server1_def server0_def
      challenged_def new_handshake_def secret_ab_def kx_commute [OF assms, of a b]
      msg_ack_def shared_secret_def makeBoxKey_def)

lemma client_verifies_ack:
  assumes "crypto_ok C"
  shows "verifyServerAck C (msg_ack C K A a B b) (client2 C K A a B b)
     = (Inr True, client3 C K A a B b)"
  using assms
  by (simp add: verifyServerAck_eq [where Bp = "ed_public C B" and bp = "kx_public C b"
        and ab = "secret_ab C a b" and hashab = "hash C (secret_ab C a b)" and aB = "secret_aB C a B"
        and Ab = "secret_Ab C A b" and H = "client_H C K A a B b"] client3_def client2_def
      client1_def client0_def challenged_def new_handshake_def setServerPublicKey_def
      secret_ab_def msg_ack_def shared_secret_def makeBoxKey_def ed_check_sign)

lemma client_outcome: "getOutcome C (client3 C K A a B b) = Inr (client_keys C K A a B b)"
  by (simp add: getOutcome_def peer_defs client_keys_def hashToNonce_def range_of_def Let_def)

lemma server_outcome: "getOutcome C (server3 C K A a B b) = Inr (server_keys C K A a B b)"
  by (simp add: getOutcome_def peer_defs server_keys_def hashToNonce_def range_of_def Let_def)

definition matching_keys :: "Session \<Rightarrow> Session \<Rightarrow> bool" where
  "matching_keys s t \<longleftrightarrow> encryptionKey s = decryptionKey t \<and> encryptionNonce s = decryptionNonce t
     \<and> decryptionKey s = encryptionKey t \<and> decryptionNonce s = encryptionNonce t"

lemma honest_keys_match: "matching_keys (client_keys C K A a B b) (server_keys C K A a B b)"
  by (simp add: matching_keys_def client_keys_def server_keys_def Let_def)

end
