(* ===== verification/Handshake.thy ===== *)
theory Handshake
  imports Shs_Impl
begin

text \<open>
  The handshake state machine, \<open>src/SecretHandshake.cc\<close> with \<open>include/SecretHandshake.hh\<close> and
  \<open>include/SecretHandshakeTypes.hh\<close>. Class \<open>Handshake\<close> is the record \<open>handshake\<close>; its three pure
  virtual functions are a record \<open>vtable\<close>, of which \<open>client_vt\<close> and \<open>server_vt\<close> are the
  overriders of \<open>ClientHandshake\<close> and \<open>ServerHandshake\<close>. The base class's member functions take
  the vtable as their first argument, as a virtual call takes the object's. The log is added in
  theory \<open>Logging\<close>.

  The locale \<open>handshake_class\<close> states what the base class relies on in an overrider; the facts
  about buffering and step order are proved in it once and interpreted for both classes.
\<close>

section \<open>Data\<close>

text \<open>\<open>enum Step\<close>, ordered by its numeric values.\<close>

datatype step = Failed | ClientChallenge | ServerChallenge | ClientAuth | ServerAck | Finished

fun step_num :: "step \<Rightarrow> nat" where
  "step_num Failed = 0"
| "step_num ClientChallenge = 1"
| "step_num ServerChallenge = 2"
| "step_num ClientAuth = 3"
| "step_num ServerAck = 4"
| "step_num Finished = 5"

lemma step_num_inj: "step_num s = step_num t \<Longrightarrow> s = t"
  by (cases s; cases t) simp_all

instantiation step :: linorder
begin

definition less_eq_step :: "step \<Rightarrow> step \<Rightarrow> bool" where
  "less_eq_step s t \<longleftrightarrow> step_num s \<le> step_num t"

definition less_step :: "step \<Rightarrow> step \<Rightarrow> bool" where
  "less_step s t \<longleftrightarrow> step_num s < step_num t"

instance
  by standard (auto simp: less_eq_step_def less_step_def dest: step_num_inj)

end

lemmas step_order = less_eq_step_def less_step_def

fun step_succ :: "step \<Rightarrow> step" where
  "step_succ Failed = ClientChallenge"
| "step_succ ClientChallenge = ServerChallenge"
| "step_succ ServerChallenge = ClientAuth"
| "step_succ ClientAuth = ServerAck"
| "step_succ ServerAck = Finished"
| "step_succ Finished = Finished"

datatype hs_error = NoError | ProtocolError | AuthError

record KeyPair =
  signingKey :: bytes
  publicKey :: bytes

record Context =
  appID :: bytes
  keyPair :: KeyPair

text \<open>\<open>h_clientAuth\<close> is the member that \<open>ServerHandshake\<close> adds; a client leaves it empty.\<close>

record handshake =
  h_context :: Context
  h_step :: step
  h_error :: hs_error
  h_impl :: impl_handshake
  h_inputBuffer :: bytes
  h_outputBuffer :: bytes
  h_clientAuth :: "(bytes \<Rightarrow> bool) option"

record vtable =
  byteCountNeeded :: "handshake \<Rightarrow> nat"
  receivedBytes_v :: "bytes \<Rightarrow> handshake \<Rightarrow> (bool, handshake) outcome"
  fillOutputBuffer_v :: "handshake \<Rightarrow> (unit, handshake) outcome"

section \<open>Key pairs and contexts\<close>

definition KeyPair_of_signing :: "crypto \<Rightarrow> bytes \<Rightarrow> KeyPair" where
  "KeyPair_of_signing C sk = \<lparr>signingKey = sk, publicKey = ed_public C sk\<rparr>"

text \<open>The constructor from 64 bytes copies over both members; \<open>data()\<close> reads them back.\<close>

definition KeyPair_of_bytes :: "bytes \<Rightarrow> KeyPair" where
  "KeyPair_of_bytes bs = \<lparr>signingKey = take 32 bs, publicKey = drop 32 bs\<rparr>"

definition KeyPair_data :: "KeyPair \<Rightarrow> bytes" where
  "KeyPair_data kp = signingKey kp @ publicKey kp"

definition KeyPair_eq :: "KeyPair \<Rightarrow> KeyPair \<Rightarrow> bool" where
  "KeyPair_eq kp1 kp2 \<longleftrightarrow> signingKey kp1 = signingKey kp2 \<and> publicKey kp1 = publicKey kp2"

definition appIDFromString :: "crypto \<Rightarrow> bytes \<Rightarrow> bytes" where
  "appIDFromString C str = fillWithString C 32 str"

definition Context_of_string :: "crypto \<Rightarrow> bytes \<Rightarrow> KeyPair \<Rightarrow> Context" where
  "Context_of_string C str kp = \<lparr>appID = appIDFromString C str, keyPair = kp\<rparr>"

section \<open>The base class\<close>

text \<open>The constructor; \<open>x\<close> is the ephemeral key that the crypto object draws at random.\<close>

definition new_Handshake :: "crypto \<Rightarrow> Context \<Rightarrow> bytes \<Rightarrow> handshake" where
  "new_Handshake C ctx x =
     \<lparr>h_context = ctx, h_step = ClientChallenge, h_error = NoError,
      h_impl = new_handshake C (appID ctx) (signingKey (keyPair ctx)) (publicKey (keyPair ctx)) x,
      h_inputBuffer = [], h_outputBuffer = [], h_clientAuth = None\<rparr>"

definition nextStep :: "handshake \<Rightarrow> (unit, handshake) outcome" where
  "nextStep h =
     (if Failed < h_step h \<and> h_step h < Finished
      then (Inr (), h\<lparr>h_step := step_succ (h_step h)\<rparr>)
      else (Inl AssertFailed, h))"

definition failed :: "handshake \<Rightarrow> handshake" where
  "failed h = h\<lparr>h_error := (if h_step h < ClientAuth then ProtocolError else AuthError),
     h_step := Failed\<rparr>"

definition finished :: "handshake \<Rightarrow> bool" where
  "finished h \<longleftrightarrow> h_step h = Finished"

text \<open>Returns the number of bytes wanted; the buffer to put them in is \<open>h_inputBuffer\<close>.\<close>

definition bytesToRead :: "vtable \<Rightarrow> handshake \<Rightarrow> nat \<times> handshake" where
  "bytesToRead V h =
     (let needed = byteCountNeeded V h
      in (needed, h\<lparr>h_inputBuffer := resize needed (h_inputBuffer h)\<rparr>))"

definition readCompleted :: "vtable \<Rightarrow> handshake \<Rightarrow> (bool, handshake) outcome" where
  "readCompleted V h =
     (if length (h_inputBuffer h) \<noteq> byteCountNeeded V h then (Inl LogicError, h)
      else ebind (receivedBytes_v V (h_inputBuffer h) h)
        (\<lambda>ok h1. if ok
           then ebind (nextStep h1) (\<lambda>_ h2. (Inr True, h2\<lparr>h_inputBuffer := []\<rparr>)) (\<lambda>h2. h2)
           else (Inr False, failed h1))
        (\<lambda>h1. h1))"

definition readFailed :: "handshake \<Rightarrow> handshake" where
  "readFailed h = failed h"

definition receivedBytes :: "vtable \<Rightarrow> bytes \<Rightarrow> handshake \<Rightarrow> (int, handshake) outcome" where
  "receivedBytes V src h =
     (if h_step h = Failed \<or> h_step h = Finished then (Inr (- 1), h)
      else let needed = byteCountNeeded V h
           in if needed = 0 then (Inr 0, h)
              else let count = min (length src) (size_sub needed (length (h_inputBuffer h)));
                       h1 = h\<lparr>h_inputBuffer := h_inputBuffer h @ take count src\<rparr>;
                       ret = (\<lambda>h2. if h_step h2 \<noteq> Failed then int count else - 1)
                   in if length (h_inputBuffer h1) < needed then (Inr (ret h1), h1)
                      else ebind (readCompleted V h1) (\<lambda>_ h2. (Inr (ret h2), h2)) (\<lambda>h2. h2))"

definition bytesToSend :: "vtable \<Rightarrow> handshake \<Rightarrow> (bytes, handshake) outcome" where
  "bytesToSend V h =
     (if h_step h = Failed \<or> h_step h = Finished then (Inr [], h)
      else ebind (if h_outputBuffer h = [] then fillOutputBuffer_v V h else (Inr (), h))
        (\<lambda>_ h1. (Inr (h_outputBuffer h1), h1)) (\<lambda>h1. h1))"

definition sendCompleted :: "handshake \<Rightarrow> (unit, handshake) outcome" where
  "sendCompleted h =
     (if h_outputBuffer h = [] then (Inl LogicError, h)
      else nextStep (h\<lparr>h_outputBuffer := []\<rparr>))"

text \<open>Returns the count, and the bytes that were copied to the caller's buffer.\<close>

definition copyBytesToSend :: "vtable \<Rightarrow> nat \<Rightarrow> handshake \<Rightarrow> (int \<times> bytes, handshake) outcome" where
  "copyBytesToSend V maxCount h =
     (if h_step h = Failed then (Inr (- 1, []), h)
      else ebind (if h_outputBuffer h = [] then bytesToSend V h else (Inr (h_outputBuffer h), h))
        (\<lambda>out h1.
           if out = [] then (Inr (0, []), h1)
           else let count = min (length (h_outputBuffer h1)) maxCount;
                    copied = take count (h_outputBuffer h1);
                    h2 = h1\<lparr>h_outputBuffer := drop count (h_outputBuffer h1)\<rparr>
                in if h_outputBuffer h2 = []
                   then ebind (nextStep h2) (\<lambda>_ h3. (Inr (int count, copied), h3)) (\<lambda>h3. h3)
                   else (Inr (int count, copied), h2))
        (\<lambda>h1. h1))"

definition get_session :: "crypto \<Rightarrow> handshake \<Rightarrow> cpp_exn + Session" where
  "get_session C h = (if h_step h \<noteq> Finished then Inl LogicError else getOutcome C (h_impl h))"

text \<open>\<open>spaceFor<T>(output) = value\<close>: the buffer gets \<open>sizeof(T)\<close> bytes, then the value.\<close>

definition spaceFor :: "nat \<Rightarrow> bytes \<Rightarrow> bytes" where
  "spaceFor n v = resize n v"

section \<open>Client\<close>

definition ClientHandshake :: "crypto \<Rightarrow> Context \<Rightarrow> bytes \<Rightarrow> bytes \<Rightarrow> handshake" where
  "ClientHandshake C ctx theirPublicKey x =
     (let h = new_Handshake C ctx x
      in h\<lparr>h_impl := setServerPublicKey theirPublicKey (h_impl h)\<rparr>)"

definition client_byteCountNeeded :: "handshake \<Rightarrow> nat" where
  "client_byteCountNeeded h =
     (case h_step h of ServerChallenge \<Rightarrow> 64 | ServerAck \<Rightarrow> 80 | _ \<Rightarrow> 0)"

definition client_receivedBytes :: "crypto \<Rightarrow> bytes \<Rightarrow> handshake \<Rightarrow> (bool, handshake) outcome" where
  "client_receivedBytes C bs h =
     (case h_step h of
        ServerChallenge \<Rightarrow>
          (let (ok, i) = verifyChallenge C bs (h_impl h) in (Inr ok, h\<lparr>h_impl := i\<rparr>))
      | ServerAck \<Rightarrow>
          (let (r, i) = verifyServerAck C bs (h_impl h) in (r, h\<lparr>h_impl := i\<rparr>))
      | _ \<Rightarrow> (Inr False, h))"

definition client_fillOutputBuffer :: "crypto \<Rightarrow> handshake \<Rightarrow> (unit, handshake) outcome" where
  "client_fillOutputBuffer C h =
     (case h_step h of
        ClientChallenge \<Rightarrow>
          (Inr (), h\<lparr>h_outputBuffer := spaceFor 64 (createClientChallenge C (h_impl h))\<rparr>)
      | ClientAuth \<Rightarrow>
          (let (r, i) = createClientAuth C (h_impl h); h1 = h\<lparr>h_impl := i\<rparr>
           in with_val r h1 (\<lambda>d. (Inr (), h1\<lparr>h_outputBuffer := spaceFor 112 d\<rparr>)))
      | _ \<Rightarrow> (Inr (), h))"

definition client_vt :: "crypto \<Rightarrow> vtable" where
  "client_vt C = \<lparr>byteCountNeeded = client_byteCountNeeded,
     receivedBytes_v = client_receivedBytes C, fillOutputBuffer_v = client_fillOutputBuffer C\<rparr>"

section \<open>Server\<close>

definition ServerHandshake :: "crypto \<Rightarrow> Context \<Rightarrow> bytes \<Rightarrow> handshake" where
  "ServerHandshake C ctx x = new_Handshake C ctx x"

definition setClientAuthorizer :: "(bytes \<Rightarrow> bool) option \<Rightarrow> handshake \<Rightarrow> handshake" where
  "setClientAuthorizer a h = h\<lparr>h_clientAuth := a\<rparr>"

definition server_byteCountNeeded :: "handshake \<Rightarrow> nat" where
  "server_byteCountNeeded h =
     (case h_step h of ClientChallenge \<Rightarrow> 64 | ClientAuth \<Rightarrow> 112 | _ \<Rightarrow> 0)"

definition server_receivedBytes :: "crypto \<Rightarrow> bytes \<Rightarrow> handshake \<Rightarrow> (bool, handshake) outcome" where
  "server_receivedBytes C bs h =
     (case h_step h of
        ClientChallenge \<Rightarrow>
          (let (ok, i) = verifyChallenge C bs (h_impl h) in (Inr ok, h\<lparr>h_impl := i\<rparr>))
      | ClientAuth \<Rightarrow>
          (let (r, i) = verifyClientAuth C bs (h_impl h); h1 = h\<lparr>h_impl := i\<rparr>
           in with_val r h1 (\<lambda>ok.
                if \<not> ok then (Inr False, h1)
                else case h_clientAuth h1 of
                       None \<Rightarrow> (Inr True, h1)
                     | Some f \<Rightarrow> with_val (getPeerPublicKey i) h1 (\<lambda>pk. (Inr (f pk), h1))))
      | _ \<Rightarrow> (Inr False, h))"

definition server_fillOutputBuffer :: "crypto \<Rightarrow> handshake \<Rightarrow> (unit, handshake) outcome" where
  "server_fillOutputBuffer C h =
     (case h_step h of
        ServerChallenge \<Rightarrow>
          (Inr (), h\<lparr>h_outputBuffer := spaceFor 64 (createServerChallenge C (h_impl h))\<rparr>)
      | ServerAck \<Rightarrow>
          (let (r, i) = createServerAck C (h_impl h); h1 = h\<lparr>h_impl := i\<rparr>
           in with_val r h1 (\<lambda>d. (Inr (), h1\<lparr>h_outputBuffer := spaceFor 80 d\<rparr>)))
      | _ \<Rightarrow> (Inr (), h))"

definition server_vt :: "crypto \<Rightarrow> vtable" where
  "server_vt C = \<lparr>byteCountNeeded = server_byteCountNeeded,
     receivedBytes_v = server_receivedBytes C, fillOutputBuffer_v = server_fillOutputBuffer C\<rparr>"

section \<open>What the base class relies on\<close>

text \<open>
  \<open>needs s\<close> is the number of bytes an overrider reads in step \<open>s\<close>. It reads in some steps and
  writes in the others; outside its reading steps it rejects input, outside its writing steps it
  produces none, and it never touches the members that belong to the base class.
\<close>

definition live :: "step \<Rightarrow> bool" where
  "live s \<longleftrightarrow> s \<noteq> Failed \<and> s \<noteq> Finished"

text \<open>The buffers and the error code agree with the step.\<close>

definition buffers_ok :: "vtable \<Rightarrow> handshake \<Rightarrow> bool" where
  "buffers_ok V h \<longleftrightarrow> (h_error h = NoError \<longleftrightarrow> h_step h \<noteq> Failed) \<and>
     (h_step h \<noteq> Failed \<longrightarrow> length (h_inputBuffer h) \<le> byteCountNeeded V h) \<and>
     (h_outputBuffer h \<noteq> [] \<longrightarrow> byteCountNeeded V h = 0 \<and> h_step h \<noteq> Finished)"

text \<open>Delivering a message in pieces, and collecting one in pieces.\<close>

fun receive_all :: "vtable \<Rightarrow> bytes list \<Rightarrow> handshake \<Rightarrow> (unit, handshake) outcome" where
  "receive_all V [] h = (Inr (), h)"
| "receive_all V (c # cs) h = ebind (receivedBytes V c h) (\<lambda>_ h1. receive_all V cs h1) (\<lambda>h1. h1)"

fun copy_all :: "vtable \<Rightarrow> nat list \<Rightarrow> handshake \<Rightarrow> (bytes, handshake) outcome" where
  "copy_all V [] h = (Inr [], h)"
| "copy_all V (n # ns) h =
     ebind (copyBytesToSend V n h)
       (\<lambda>(_, d) h1. ebind (copy_all V ns h1) (\<lambda>ds h2. (Inr (d @ ds), h2)) (\<lambda>h2. h2)) (\<lambda>h1. h1)"

lemma nextStep_live: "live (h_step h) \<Longrightarrow> nextStep h = (Inr (), h\<lparr>h_step := step_succ (h_step h)\<rparr>)"
  by (cases "h_step h") (simp_all add: nextStep_def live_def step_order)

lemma nextStep_dead: "\<not> live (h_step h) \<Longrightarrow> nextStep h = (Inl AssertFailed, h)"
  by (cases "h_step h") (simp_all add: nextStep_def live_def step_order)

lemma step_succ_not_Failed: "live s \<Longrightarrow> step_succ s \<noteq> Failed"
  by (cases s) (simp_all add: live_def)

lemma failed_simps [simp]:
  "h_step (failed h) = Failed" "h_error (failed h) \<noteq> NoError"
  "h_impl (failed h) = h_impl h" "h_inputBuffer (failed h) = h_inputBuffer h"
  "h_outputBuffer (failed h) = h_outputBuffer h" "h_clientAuth (failed h) = h_clientAuth h"
  "h_context (failed h) = h_context h"
  by (simp_all add: failed_def)

locale handshake_class =
  fixes V :: vtable and needs :: "step \<Rightarrow> nat"
  assumes needed: "byteCountNeeded V h = needs (h_step h)"
    and needs_idle: "needs Failed = 0" "needs Finished = 0"
    and needs_size: "needs s < size_max"
    and needs_succ: "live s \<Longrightarrow> needs s \<noteq> 0 \<Longrightarrow> needs (step_succ s) = 0"
    and recv_frame: "receivedBytes_v V bs h = (r, h') \<Longrightarrow> \<exists>i. h' = h\<lparr>h_impl := i\<rparr>"
    and recv_idle: "needs (h_step h) = 0 \<Longrightarrow> receivedBytes_v V bs h = (Inr False, h)"
    and fill_frame: "fillOutputBuffer_v V h = (q, h') \<Longrightarrow>
      \<exists>i out. h' = h\<lparr>h_impl := i, h_outputBuffer := out\<rparr>"
    and fill_idle: "\<not> live (h_step h) \<or> needs (h_step h) \<noteq> 0 \<Longrightarrow>
      fillOutputBuffer_v V h = (Inr (), h)"
    and fill_output: "fillOutputBuffer_v V h = (Inr (), h') \<Longrightarrow> live (h_step h) \<Longrightarrow>
      needs (h_step h) = 0 \<Longrightarrow> h_outputBuffer h' \<noteq> []"
    and fill_fail: "fillOutputBuffer_v V h = (Inl e, h') \<Longrightarrow> h_outputBuffer h' = h_outputBuffer h"
begin

lemma buffers_ok_iff:
  "buffers_ok V h \<longleftrightarrow> (h_error h = NoError \<longleftrightarrow> h_step h \<noteq> Failed) \<and>
     (h_step h \<noteq> Failed \<longrightarrow> length (h_inputBuffer h) \<le> needs (h_step h)) \<and>
     (h_outputBuffer h \<noteq> [] \<longrightarrow> needs (h_step h) = 0 \<and> h_step h \<noteq> Finished)"
  by (simp add: buffers_ok_def needed)

lemma needs_live: "needs s \<noteq> 0 \<Longrightarrow> live s"
  using needs_idle by (auto simp: live_def)

text \<open>Reading: the possible results of \<open>readCompleted\<close>.\<close>

lemma readCompleted_cases:
  assumes "readCompleted V h = (r, h')"
  obtains (bad_call) "length (h_inputBuffer h) \<noteq> needs (h_step h)" "r = Inl LogicError" "h' = h"
  | (throw) e i where "receivedBytes_v V (h_inputBuffer h) h = (Inl e, h\<lparr>h_impl := i\<rparr>)"
      "needs (h_step h) \<noteq> 0" "length (h_inputBuffer h) = needs (h_step h)" "r = Inl e"
      "h' = h\<lparr>h_impl := i\<rparr>"
  | (accept) i where "receivedBytes_v V (h_inputBuffer h) h = (Inr True, h\<lparr>h_impl := i\<rparr>)"
      "needs (h_step h) \<noteq> 0" "length (h_inputBuffer h) = needs (h_step h)" "r = Inr True"
      "h' = h\<lparr>h_impl := i, h_step := step_succ (h_step h), h_inputBuffer := []\<rparr>"
  | (reject) i where "receivedBytes_v V (h_inputBuffer h) h = (Inr False, h\<lparr>h_impl := i\<rparr>)"
      "length (h_inputBuffer h) = needs (h_step h)" "r = Inr False"
      "h' = failed (h\<lparr>h_impl := i\<rparr>)"
proof (cases "length (h_inputBuffer h) = needs (h_step h)")
  case False
  with assms show ?thesis by (intro bad_call) (simp_all add: readCompleted_def needed)
next
  case len: True
  obtain q g where q: "receivedBytes_v V (h_inputBuffer h) h = (q, g)" by fastforce
  then obtain i where g: "g = h\<lparr>h_impl := i\<rparr>" using recv_frame by blast
  have nz: "needs (h_step h) \<noteq> 0" if "q \<noteq> Inr False"
    using that recv_idle [of h "h_inputBuffer h"] q by auto
  show ?thesis
  proof (cases q)
    case (Inl e)
    with nz have "needs (h_step h) \<noteq> 0" by simp
    with Inl assms len q g show ?thesis
      by (intro throw [of e i]) (auto simp: readCompleted_def needed)
  next
    case (Inr ok)
    show ?thesis
    proof (cases ok)
      case True
      then have n0: "needs (h_step h) \<noteq> 0" using nz Inr by simp
      then have "live (h_step h)" by (rule needs_live)
      then have "nextStep g = (Inr (), g\<lparr>h_step := step_succ (h_step h)\<rparr>)"
        using nextStep_live [of g] g by simp
      with True Inr assms len q g n0 show ?thesis
        by (intro accept [of i]) (auto simp: readCompleted_def needed)
    next
      case False
      with Inr assms len q g show ?thesis
        by (intro reject [of i]) (auto simp: readCompleted_def needed)
    qed
  qed
qed

lemma readCompleted_ok:
  assumes "buffers_ok V h" "readCompleted V h = (r, h')"
  shows "buffers_ok V h'"
  using assms(2)
proof (cases rule: readCompleted_cases)
  case (accept i)
  then have "live (h_step h)" by (simp add: needs_live)
  with accept assms(1) show ?thesis
    using needs_succ step_succ_not_Failed by (auto simp: buffers_ok_iff live_def)
next
  case (reject i)
  with assms(1) show ?thesis by (simp add: buffers_ok_iff needs_idle)
qed (use assms(1) in \<open>auto simp: buffers_ok_iff\<close>)

text \<open>\<open>receivedBytes\<close>: bytes are collected until the message is complete.\<close>

lemma receivedBytes_partial:
  assumes "needs (h_step h) \<noteq> 0" "length (h_inputBuffer h) + length c < needs (h_step h)"
  shows "receivedBytes V c h = (Inr (int (length c)), h\<lparr>h_inputBuffer := h_inputBuffer h @ c\<rparr>)"
  using assms needs_live [OF assms(1)]
  by (auto simp: receivedBytes_def live_def needed Let_def size_sub_le min_def)

lemma receivedBytes_complete:
  assumes "needs (h_step h) \<noteq> 0" "length (h_inputBuffer h) \<le> needs (h_step h)"
    "needs (h_step h) \<le> length (h_inputBuffer h) + length c"
  defines "n \<equiv> needs (h_step h) - length (h_inputBuffer h)"
  shows "receivedBytes V c h =
    ebind (readCompleted V (h\<lparr>h_inputBuffer := h_inputBuffer h @ take n c\<rparr>))
      (\<lambda>_ h2. (Inr (if h_step h2 \<noteq> Failed then int n else - 1), h2)) (\<lambda>h2. h2)"
proof -
  have "min (length c) n = n" using assms(3) by (auto simp: n_def)
  moreover have "length (h_inputBuffer h) + n = needs (h_step h)" using assms(2) by (simp add: n_def)
  moreover have "size_sub (needs (h_step h)) (length (h_inputBuffer h)) = n"
    using assms(2) by (simp add: n_def size_sub_le)
  ultimately show ?thesis
    using assms(1) needs_live [OF assms(1)]
    by (simp add: receivedBytes_def live_def needed Let_def)
qed

lemma receivedBytes_ok:
  assumes ok: "buffers_ok V h" and r: "receivedBytes V c h = (r, h')"
  shows "buffers_ok V h'"
proof (cases "needs (h_step h) = 0")
  case True
  with ok r show ?thesis by (auto simp: receivedBytes_def needed split: if_splits)
next
  case False
  then have len: "length (h_inputBuffer h) \<le> needs (h_step h)"
    using ok needs_live [OF False] by (simp add: buffers_ok_iff live_def)
  show ?thesis
  proof (cases "length (h_inputBuffer h) + length c < needs (h_step h)")
    case True
    with False r ok show ?thesis
      by (auto simp: receivedBytes_partial buffers_ok_iff)
  next
    case full: False
    let ?n = "needs (h_step h) - length (h_inputBuffer h)"
    let ?h = "h\<lparr>h_inputBuffer := h_inputBuffer h @ take ?n c\<rparr>"
    obtain q g where q: "readCompleted V ?h = (q, g)" by fastforce
    have "buffers_ok V ?h" using ok len full by (auto simp: buffers_ok_iff)
    then have "buffers_ok V g" using q by (rule readCompleted_ok)
    moreover have "h' = g"
      using r full len False q by (cases q) (auto simp: receivedBytes_complete not_less)
    ultimately show ?thesis by simp
  qed
qed

lemma receive_all_eq:
  assumes "cs \<noteq> []" "last cs \<noteq> []" "needs (h_step h) \<noteq> 0"
    "length (h_inputBuffer h) + length (concat cs) = needs (h_step h)"
  shows "receive_all V cs h =
    ebind (readCompleted V (h\<lparr>h_inputBuffer := h_inputBuffer h @ concat cs\<rparr>))
      (\<lambda>_ h2. (Inr (), h2)) (\<lambda>h2. h2)"
  using assms
proof (induction cs arbitrary: h)
  case Nil
  then show ?case by simp
next
  case (Cons c cs)
  show ?case
  proof (cases "cs = []")
    case True
    obtain q g where "readCompleted V (h\<lparr>h_inputBuffer := h_inputBuffer h @ c\<rparr>) = (q, g)"
      by fastforce
    with True Cons.prems show ?thesis
      by (cases q) (simp_all add: receivedBytes_complete)
  next
    case False
    with Cons.prems(2) have "last cs \<in> set cs" "last cs \<noteq> []" by simp_all
    then have "concat cs \<noteq> []" by auto
    then have "0 < length (concat cs)" by blast
    with Cons.prems(4) have lt: "length (h_inputBuffer h) + length c < needs (h_step h)"
      by (simp del: length_concat length_greater_0_conv)
    have "receive_all V (c # cs) h = receive_all V cs (h\<lparr>h_inputBuffer := h_inputBuffer h @ c\<rparr>)"
      using receivedBytes_partial [OF Cons.prems(3) lt] by simp
    also have "\<dots> = ebind (readCompleted V (h\<lparr>h_inputBuffer := h_inputBuffer h @ c @ concat cs\<rparr>))
      (\<lambda>_ h2. (Inr (), h2)) (\<lambda>h2. h2)"
      using Cons.IH [of "h\<lparr>h_inputBuffer := h_inputBuffer h @ c\<rparr>"] Cons.prems False by simp
    finally show ?thesis by simp
  qed
qed

text \<open>Writing: the possible results of \<open>bytesToSend\<close>.\<close>

lemma bytesToSend_cases:
  assumes "buffers_ok V h" "bytesToSend V h = (r, h')"
  obtains (idle) "r = Inr []" "h' = h" "\<not> live (h_step h) \<or> needs (h_step h) \<noteq> 0"
  | (pending) "live (h_step h)" "needs (h_step h) = 0" "h_outputBuffer h \<noteq> []"
      "r = Inr (h_outputBuffer h)" "h' = h"
  | (fresh) "live (h_step h)" "needs (h_step h) = 0" "h_outputBuffer h = []"
      "fillOutputBuffer_v V h = (Inr (), h')" "r = Inr (h_outputBuffer h')" "h_outputBuffer h' \<noteq> []"
  | (throw) e where "live (h_step h)" "needs (h_step h) = 0" "h_outputBuffer h = []"
      "fillOutputBuffer_v V h = (Inl e, h')" "r = Inl e"
proof (cases "live (h_step h) \<and> needs (h_step h) = 0")
  case False
  then consider "\<not> live (h_step h)" | "live (h_step h)" "needs (h_step h) \<noteq> 0"
    by auto
  then have "r = Inr [] \<and> h' = h"
  proof cases
    case 1
    with assms show ?thesis by (auto simp: bytesToSend_def live_def)
  next
    case 2
    with assms(1) have "h_outputBuffer h = []" by (auto simp: buffers_ok_iff)
    with 2 assms(2) fill_idle [of h] show ?thesis by (auto simp: bytesToSend_def live_def)
  qed
  with False show ?thesis by (intro idle) auto
next
  case True
  show ?thesis
  proof (cases "h_outputBuffer h = []")
    case False
    with True assms(2) show ?thesis by (intro pending) (auto simp: bytesToSend_def live_def)
  next
    case empty: True
    obtain q g where q: "fillOutputBuffer_v V h = (q, g)" by fastforce
    show ?thesis
    proof (cases q)
      case (Inl e)
      with True empty assms(2) q show ?thesis
        by (intro throw [of e]) (auto simp: bytesToSend_def live_def)
    next
      case (Inr u)
      with True empty assms(2) q fill_output [of h g] show ?thesis
        by (intro fresh) (auto simp: bytesToSend_def live_def)
    qed
  qed
qed

lemma bytesToSend_ok:
  assumes "buffers_ok V h" "bytesToSend V h = (r, h')"
  shows "buffers_ok V h' \<and> h_step h' = h_step h"
  using assms
proof (cases rule: bytesToSend_cases)
  case fresh
  then obtain i out where "h' = h\<lparr>h_impl := i, h_outputBuffer := out\<rparr>" using fill_frame by blast
  with fresh assms(1) show ?thesis by (auto simp: buffers_ok_iff live_def)
next
  case (throw e)
  then obtain i out where "h' = h\<lparr>h_impl := i, h_outputBuffer := out\<rparr>" using fill_frame by blast
  with throw assms(1) show ?thesis by (auto simp: buffers_ok_iff live_def)
qed (use assms(1) in auto)

lemma bytesToSend_live:
  assumes "buffers_ok V h" "bytesToSend V h = (Inr out, h1)" "out \<noteq> []"
  shows "live (h_step h)" "needs (h_step h) = 0" "h_outputBuffer h1 = out" "h_step h1 = h_step h"
    "bytesToSend V h1 = (Inr out, h1)"
proof -
  have "live (h_step h) \<and> needs (h_step h) = 0 \<and> h_outputBuffer h1 = out"
    using assms(1,2) by (cases rule: bytesToSend_cases) (use assms(3) in auto)
  moreover have "h_step h1 = h_step h" using bytesToSend_ok [OF assms(1,2)] by simp
  ultimately show "live (h_step h)" "needs (h_step h) = 0" "h_outputBuffer h1 = out"
    "h_step h1 = h_step h" "bytesToSend V h1 = (Inr out, h1)"
    using assms(3) by (simp_all add: bytesToSend_def live_def)
qed

lemma sendCompleted_ok:
  assumes "buffers_ok V h" "sendCompleted h = (r, h')" "r \<noteq> Inl AssertFailed"
  shows "buffers_ok V h'"
proof (cases "h_outputBuffer h = []")
  case True
  with assms show ?thesis by (auto simp: sendCompleted_def)
next
  case False
  with assms(2,3) have l: "live (h_step h)"
    using nextStep_dead [of "h\<lparr>h_outputBuffer := []\<rparr>"] by (auto simp: sendCompleted_def)
  moreover from l False assms(2) have "h' = h\<lparr>h_outputBuffer := [], h_step := step_succ (h_step h)\<rparr>"
    using nextStep_live [of "h\<lparr>h_outputBuffer := []\<rparr>"] by (auto simp: sendCompleted_def)
  ultimately show ?thesis
    using False assms(1) step_succ_not_Failed [OF l] by (auto simp: buffers_ok_iff live_def)
qed

lemma copyBytesToSend_eq:
  assumes "buffers_ok V h" "bytesToSend V h = (Inr out, h1)" "out \<noteq> []"
  shows "copyBytesToSend V n h =
    (if n < length out then (Inr (int n, take n out), h1\<lparr>h_outputBuffer := drop n out\<rparr>)
     else (Inr (int (length out), out), snd (sendCompleted h1)))"
proof -
  note l = bytesToSend_live [OF assms]
  have eq: "(if h_outputBuffer h = [] then bytesToSend V h else (Inr (h_outputBuffer h), h))
      = (Inr out, h1)"
    using assms(1,2)
    by (cases rule: bytesToSend_cases) (use assms(2,3) in auto)
  show ?thesis
    unfolding copyBytesToSend_def eq
    using l assms(3) nextStep_live [of "h1\<lparr>h_outputBuffer := []\<rparr>"]
    by (auto simp: live_def Let_def sendCompleted_def min_def)
qed

lemma copyBytesToSend_idle:
  assumes "buffers_ok V h" "bytesToSend V h = (Inr [], h1)"
  shows "copyBytesToSend V n h = (Inr (if h_step h = Failed then - 1 else 0, []), h)"
proof -
  have "h1 = h \<and> (\<not> live (h_step h) \<or> needs (h_step h) \<noteq> 0)"
    using assms by (cases rule: bytesToSend_cases) auto
  moreover have "h_outputBuffer h = []" if "h_step h \<noteq> Failed"
    using calculation that assms(1) by (auto simp: buffers_ok_iff live_def)
  ultimately show ?thesis using assms(2) by (auto simp: copyBytesToSend_def)
qed

lemma copy_all_eq:
  assumes "buffers_ok V h" "bytesToSend V h = (Inr out, h1)" "out \<noteq> []"
    "ns \<noteq> []" "last ns \<noteq> 0" "sum_list ns = length out"
  shows "copy_all V ns h = (Inr out, snd (sendCompleted h1))"
  using assms
proof (induction ns arbitrary: h h1 out)
  case Nil
  then show ?case by simp
next
  case (Cons n ns)
  show ?case
  proof (cases "ns = []")
    case True
    with Cons.prems show ?thesis by (simp add: copyBytesToSend_eq)
  next
    case False
    with Cons.prems(5) have "last ns \<in> set ns" "last ns \<noteq> 0" by simp_all
    then have "0 < sum_list ns" by (metis gr0I sum_list_eq_0_iff)
    with Cons.prems(6) have n: "n < length out" by simp
    let ?g = "h1\<lparr>h_outputBuffer := drop n out\<rparr>"
    note l = bytesToSend_live [OF Cons.prems(1-3)]
    have ok: "buffers_ok V ?g"
      using bytesToSend_ok [OF Cons.prems(1,2)] l Cons.prems(3) by (auto simp: buffers_ok_iff)
    have "bytesToSend V ?g = (Inr (drop n out), ?g)"
      using l n by (simp add: bytesToSend_def live_def)
    then have "copy_all V ns ?g = (Inr (drop n out), snd (sendCompleted ?g))"
      using Cons.IH [OF ok, of "drop n out" ?g] Cons.prems False n by simp
    moreover have "sendCompleted ?g = sendCompleted h1"
      using l Cons.prems(3) n by (simp add: sendCompleted_def)
    ultimately show ?thesis
      using copyBytesToSend_eq [OF Cons.prems(1-3)] n by simp
  qed
qed

end

section \<open>Runs of the public interface\<close>

text \<open>
  One call of the public interface, with whatever result; \<open>fill_input\<close> is the caller storing
  received bytes in the buffer that \<open>bytesToRead\<close> returned. A failed assertion ends the program,
  so it is not a step.
\<close>

inductive api_step :: "vtable \<Rightarrow> handshake \<Rightarrow> handshake \<Rightarrow> bool" for V where
  bytesToRead: "bytesToRead V h = (n, h') \<Longrightarrow> api_step V h h'"
| fill_input: "length bs \<le> length (h_inputBuffer h) \<Longrightarrow>
    api_step V h (h\<lparr>h_inputBuffer := mem_write (h_inputBuffer h) 0 bs\<rparr>)"
| readCompleted: "readCompleted V h = (r, h') \<Longrightarrow> r \<noteq> Inl AssertFailed \<Longrightarrow> api_step V h h'"
| readFailed: "api_step V h (readFailed h)"
| receivedBytes: "receivedBytes V src h = (q, h') \<Longrightarrow> q \<noteq> Inl AssertFailed \<Longrightarrow> api_step V h h'"
| bytesToSend: "bytesToSend V h = (b, h') \<Longrightarrow> b \<noteq> Inl AssertFailed \<Longrightarrow> api_step V h h'"
| sendCompleted: "sendCompleted h = (u, h') \<Longrightarrow> u \<noteq> Inl AssertFailed \<Longrightarrow> api_step V h h'"
| copyBytesToSend: "copyBytesToSend V maxCount h = (c, h') \<Longrightarrow> c \<noteq> Inl AssertFailed \<Longrightarrow>
    api_step V h h'"

inductive api_run :: "vtable \<Rightarrow> handshake \<Rightarrow> handshake \<Rightarrow> bool" for V where
  start: "api_run V h h"
| step: "api_run V h h' \<Longrightarrow> api_step V h' h'' \<Longrightarrow> api_run V h h''"

text \<open>What one call can do to the step, and what it leaves alone.\<close>

definition step_move :: "handshake \<Rightarrow> handshake \<Rightarrow> bool" where
  "step_move h h' \<longleftrightarrow> h_context h' = h_context h \<and> h_clientAuth h' = h_clientAuth h \<and>
     (h_step h' = h_step h \<or> h_step h' = Failed \<or>
      live (h_step h) \<and> h_step h' = step_succ (h_step h))"

text \<open>
  The protocol a class runs: a property \<open>J\<close> of step, pending output and crypto state that each
  accepted message and each produced message carries to the next step. It rules out that the
  crypto object is used before the values it needs are known.
\<close>

locale handshake_protocol = handshake_class V needs for V :: vtable and needs :: "step \<Rightarrow> nat" +
  fixes auth :: "(bytes \<Rightarrow> bool) option" and J :: "step \<Rightarrow> bool \<Rightarrow> impl_handshake \<Rightarrow> bool"
  assumes J_Failed: "J Failed p i"
    and J_recv: "J (h_step h) False (h_impl h) \<Longrightarrow> h_clientAuth h = auth \<Longrightarrow>
      needs (h_step h) \<noteq> 0 \<Longrightarrow> length bs = needs (h_step h) \<Longrightarrow>
      receivedBytes_v V bs h = (r, h') \<Longrightarrow>
      (\<exists>b. r = Inr b) \<and> (r = Inr True \<longrightarrow> J (step_succ (h_step h)) False (h_impl h'))"
    and J_fill: "J (h_step h) False (h_impl h) \<Longrightarrow> live (h_step h) \<Longrightarrow> needs (h_step h) = 0 \<Longrightarrow>
      fillOutputBuffer_v V h = (q, h') \<Longrightarrow> q = Inr () \<and> J (h_step h) True (h_impl h')"
    and J_sent: "live s \<Longrightarrow> needs s = 0 \<Longrightarrow> J s True i \<Longrightarrow> J (step_succ s) False i"
begin

definition inv :: "handshake \<Rightarrow> bool" where
  "inv h \<longleftrightarrow> buffers_ok V h \<and> h_clientAuth h = auth
     \<and> J (h_step h) (h_outputBuffer h \<noteq> []) (h_impl h)"

lemma inv_buffers: "inv h \<Longrightarrow> buffers_ok V h"
  by (simp add: inv_def)

lemma inv_reading:
  assumes "inv h" "needs (h_step h) \<noteq> 0"
  shows "h_outputBuffer h = []" "J (h_step h) False (h_impl h)"
  using assms by (auto simp: inv_def buffers_ok_iff)

lemma inv_failed: "inv h \<Longrightarrow> inv (failed (h\<lparr>h_impl := i\<rparr>))"
  by (simp add: inv_def J_Failed buffers_ok_iff needs_idle)

lemma inv_readFailed: "inv h \<Longrightarrow> inv (readFailed h)"
  using inv_failed [of h "h_impl h"] by (simp add: readFailed_def)

lemma readCompleted_inv:
  assumes h: "inv h" and r: "readCompleted V h = (r, h')"
  shows "inv h' \<and> step_move h h'
    \<and> (r = Inl LogicError \<and> length (h_inputBuffer h) \<noteq> byteCountNeeded V h \<or> (\<exists>b. r = Inr b))"
  using r
proof (cases rule: readCompleted_cases)
  case (throw e i)
  then show ?thesis
    using J_recv [OF inv_reading(2) [OF h throw(2)] _ throw(2,3,1)] h by (auto simp: inv_def)
next
  case (accept i)
  note out = inv_reading [OF h accept(2)]
  have "J (step_succ (h_step h)) False i"
    using J_recv [OF out(2) _ accept(2) accept(3) accept(1)] h by (auto simp: inv_def)
  moreover have "buffers_ok V h'" using h r by (auto intro: readCompleted_ok inv_buffers)
  ultimately show ?thesis
    using accept out h needs_live [OF accept(2)] by (auto simp: inv_def step_move_def)
next
  case (reject i)
  then show ?thesis using inv_failed [OF h, of i] by (auto simp: step_move_def)
qed (use h in \<open>auto simp: step_move_def needed\<close>)

lemma inv_input:
  assumes "inv h" "h_step h \<noteq> Failed \<longrightarrow> length xs \<le> needs (h_step h)"
  shows "inv (h\<lparr>h_inputBuffer := xs\<rparr>)"
  using assms by (simp add: inv_def buffers_ok_iff)

lemma receivedBytes_inv:
  assumes h: "inv h" and r: "receivedBytes V c h = (r, h')"
  shows "inv h' \<and> step_move h h' \<and> (\<exists>n. r = Inr n)"
proof (cases "needs (h_step h) = 0")
  case True
  with h r show ?thesis by (auto simp: receivedBytes_def needed step_move_def split: if_splits)
next
  case False
  then have len: "length (h_inputBuffer h) \<le> needs (h_step h)"
    using inv_buffers [OF h] needs_live [OF False] by (simp add: buffers_ok_iff live_def)
  show ?thesis
  proof (cases "length (h_inputBuffer h) + length c < needs (h_step h)")
    case True
    then have "h' = h\<lparr>h_inputBuffer := h_inputBuffer h @ c\<rparr>" "\<exists>n. r = Inr n"
      using r False by (auto simp: receivedBytes_partial)
    then show ?thesis
      using inv_input [OF h, of "h_inputBuffer h @ c"] True by (auto simp: step_move_def)
  next
    case full: False
    let ?h = "h\<lparr>h_inputBuffer := h_inputBuffer h @ take (needs (h_step h) - length (h_inputBuffer h)) c\<rparr>"
    have len': "length (h_inputBuffer ?h) = needs (h_step h)" using full len by auto
    then have "inv ?h" by (intro inv_input [OF h]) simp
    moreover obtain q g where q: "readCompleted V ?h = (q, g)" by fastforce
    ultimately have g: "inv g \<and> step_move ?h g \<and> (q = Inl LogicError \<or> (\<exists>b. q = Inr b))"
      using readCompleted_inv by blast
    moreover have "q \<noteq> Inl LogicError"
      using q
    proof (cases rule: readCompleted_cases)
      case bad_call
      with len' show ?thesis by simp
    next
      case (throw e i)
      have "J (h_step ?h) False (h_impl ?h)" using inv_reading [OF h False] by simp
      then show ?thesis
        using J_recv [OF _ _ throw(2) _ throw(1)] len' h by (auto simp: inv_def)
    qed simp_all
    ultimately show ?thesis
      using r q len full False by (auto simp: receivedBytes_complete step_move_def not_less)
  qed
qed

lemma bytesToSend_inv:
  assumes h: "inv h" and r: "bytesToSend V h = (r, h')"
  shows "inv h' \<and> h_step h' = h_step h \<and> step_move h h' \<and> (\<exists>out. r = Inr out)"
  using inv_buffers [OF h] r
proof (cases rule: bytesToSend_cases)
  case fresh
  obtain i out where "h' = h\<lparr>h_impl := i, h_outputBuffer := out\<rparr>" using fill_frame fresh(4) by blast
  moreover have "J (h_step h) False (h_impl h)" using h fresh(3) by (simp add: inv_def)
  then have "J (h_step h) True (h_impl h')" using J_fill [OF _ fresh(1,2,4)] by simp
  moreover have "buffers_ok V h'" using bytesToSend_ok [OF inv_buffers [OF h] r] by simp
  ultimately show ?thesis using h fresh by (simp add: inv_def step_move_def)
next
  case (throw e)
  then show ?thesis using h J_fill [OF _ throw(1,2,4)] by (auto simp: inv_def)
qed (use h in \<open>auto simp: step_move_def\<close>)

lemma sendCompleted_inv:
  assumes h: "inv h" and r: "sendCompleted h = (r, h')"
  shows "r = Inr () \<or> r = Inl LogicError \<or> r = Inl AssertFailed \<and> h_step h = Failed"
    and "r \<noteq> Inl AssertFailed \<Longrightarrow> inv h' \<and> step_move h h'"
proof -
  have fin: "h_step h \<noteq> Finished" "needs (h_step h) = 0" if "h_outputBuffer h \<noteq> []"
    using inv_buffers [OF h] that by (simp_all add: buffers_ok_iff)
  have eq: "r = Inr ()" "h' = h\<lparr>h_outputBuffer := [], h_step := step_succ (h_step h)\<rparr>"
    if "h_outputBuffer h \<noteq> []" "h_step h \<noteq> Failed"
    using r that fin nextStep_live [of "h\<lparr>h_outputBuffer := []\<rparr>"]
    by (simp_all add: sendCompleted_def live_def)
  have dead: "r = Inl AssertFailed" if "h_outputBuffer h \<noteq> []" "h_step h = Failed"
    using r that nextStep_dead [of "h\<lparr>h_outputBuffer := []\<rparr>"]
    by (simp add: sendCompleted_def live_def)
  have none: "r = Inl LogicError" "h' = h" if "h_outputBuffer h = []"
    using r that by (simp_all add: sendCompleted_def)
  show "r = Inr () \<or> r = Inl LogicError \<or> r = Inl AssertFailed \<and> h_step h = Failed"
    using eq dead none by blast
  assume na: "r \<noteq> Inl AssertFailed"
  show "inv h' \<and> step_move h h'"
  proof (cases "h_outputBuffer h = []")
    case True
    with none h show ?thesis by (simp add: step_move_def)
  next
    case False
    with dead na have nf: "h_step h \<noteq> Failed" by blast
    with False fin have l: "live (h_step h)" by (simp add: live_def)
    have "J (step_succ (h_step h)) False (h_impl h)"
      using h False J_sent [OF l] fin by (simp add: inv_def)
    moreover have "buffers_ok V h'" using sendCompleted_ok [OF inv_buffers [OF h] r na] .
    ultimately show ?thesis using eq [OF False nf] h l by (simp add: inv_def step_move_def)
  qed
qed

lemma sendCompleted_result:
  assumes "inv h"
  shows "fst (sendCompleted h) = (if h_outputBuffer h = [] then Inl LogicError
    else if h_step h = Failed then Inl AssertFailed else Inr ())"
  using inv_buffers [OF assms] nextStep_live [of "h\<lparr>h_outputBuffer := []\<rparr>"]
    nextStep_dead [of "h\<lparr>h_outputBuffer := []\<rparr>"]
  by (auto simp: sendCompleted_def buffers_ok_iff live_def)

lemma copyBytesToSend_inv:
  assumes h: "inv h" and r: "copyBytesToSend V n h = (r, h')"
  shows "inv h' \<and> step_move h h' \<and> (\<exists>v. r = Inr v)"
proof -
  obtain b h1 where "bytesToSend V h = (b, h1)" by fastforce
  with bytesToSend_inv [OF h] obtain out where b: "bytesToSend V h = (Inr out, h1)"
    and h1: "inv h1" "h_step h1 = h_step h" "step_move h h1" by blast
  show ?thesis
  proof (cases "out = []")
    case True
    with b r h show ?thesis
      by (auto simp: copyBytesToSend_idle [OF inv_buffers [OF h]] step_move_def)
  next
    case False
    note l = bytesToSend_live [OF inv_buffers [OF h] b False]
    note eq = copyBytesToSend_eq [OF inv_buffers [OF h] b False, of n]
    show ?thesis
    proof (cases "n < length out")
      case True
      moreover have "inv (h1\<lparr>h_outputBuffer := drop n out\<rparr>)"
        using h1 l False True by (simp add: inv_def buffers_ok_iff)
      ultimately show ?thesis using eq r h1 by (auto simp: step_move_def)
    next
      case nlt: False
      obtain u g where u: "sendCompleted h1 = (u, g)" by fastforce
      have "u \<noteq> Inl AssertFailed"
        using sendCompleted_inv(1) [OF h1(1) u] l(1) h1(2) by (auto simp: live_def)
      then show ?thesis
        using sendCompleted_inv(2) [OF h1(1) u] eq r u nlt h1 by (auto simp: step_move_def)
    qed
  qed
qed

lemma api_step_inv:
  assumes "api_step V h h'" "inv h"
  shows "inv h' \<and> step_move h h'"
  using assms
proof (induction rule: api_step.induct)
  case (bytesToRead h n h')
  then show ?case
    using inv_input [of h "resize (byteCountNeeded V h) (h_inputBuffer h)"]
    by (auto simp: bytesToRead_def Let_def needed step_move_def)
next
  case (fill_input bs h)
  then show ?case
    using inv_input [of h "mem_write (h_inputBuffer h) 0 bs"] inv_buffers [of h]
    by (auto simp: buffers_ok_iff step_move_def)
next
  case (readFailed h)
  then show ?case using inv_readFailed by (simp add: step_move_def readFailed_def)
qed (use readCompleted_inv receivedBytes_inv bytesToSend_inv sendCompleted_inv(2)
      copyBytesToSend_inv in blast)+

lemma api_run_inv: "api_run V h h' \<Longrightarrow> inv h \<Longrightarrow> inv h'"
  by (induction rule: api_run.induct) (auto dest: api_step_inv)

end

end
