(* ===== verification/Demo.thy ===== *)
theory Demo
  imports Handshake
begin

text \<open>
  A complete handshake between two concrete peers over the executable crypto instance, one message
  per call. The properties of the handshake are instantiated at its states.
\<close>

definition demo_ctx :: "bytes \<Rightarrow> Context" where
  "demo_ctx sk = \<lparr>appID = replicate 32 5, keyPair = KeyPair_of_signing toy sk\<rparr>"

definition demo_auth :: "(bytes \<Rightarrow> bool) option" where
  "demo_auth = Some (\<lambda>pk. pk = ed_public toy [1, 2])"

definition demo_c0 :: handshake where
  "demo_c0 = ClientHandshake toy (demo_ctx [1, 2]) (ed_public toy [3]) [7]"

definition demo_s0 :: handshake where
  "demo_s0 = setClientAuthorizer demo_auth (ServerHandshake toy (demo_ctx [3]) [9])"

text \<open>One side sends a message and the other receives it.\<close>

definition turn :: "vtable \<Rightarrow> vtable \<Rightarrow> handshake \<Rightarrow> handshake \<Rightarrow> (handshake \<times> handshake) option" where
  "turn V W h k =
     (case copyBytesToSend V 200 h of
        (Inr (_, d), h') \<Rightarrow>
          (case receivedBytes W d k of (Inr _, k') \<Rightarrow> Some (h', k') | (Inl _, _) \<Rightarrow> None)
      | (Inl _, _) \<Rightarrow> None)"

fun rounds :: "nat \<Rightarrow> handshake \<Rightarrow> handshake \<Rightarrow> (handshake \<times> handshake) option" where
  "rounds 0 c s = Some (c, s)"
| "rounds (Suc n) c s =
     (case turn (client_vt toy) (server_vt toy) c s of
        None \<Rightarrow> None
      | Some (c1, s1) \<Rightarrow>
          (case turn (server_vt toy) (client_vt toy) s1 c1 of
             None \<Rightarrow> None
           | Some (s2, c2) \<Rightarrow> rounds n c2 s2))"

lemma turn_steps:
  assumes "turn V W h k = Some (h', k')"
  shows "api_step V h h'" "api_step W k k'"
  using assms api_step.copyBytesToSend [of V 200 h] api_step.receivedBytes [of W _ k]
  by (auto simp: turn_def split: prod.splits sum.splits)

lemma rounds_run:
  "rounds n c s = Some (c', s') \<Longrightarrow> api_run (client_vt toy) c0 c \<Longrightarrow> api_run (server_vt toy) s0 s
     \<Longrightarrow> api_run (client_vt toy) c0 c' \<and> api_run (server_vt toy) s0 s'"
proof (induction n arbitrary: c s)
  case (Suc n)
  then obtain c1 s1 c2 s2 where t: "turn (client_vt toy) (server_vt toy) c s = Some (c1, s1)"
    "turn (server_vt toy) (client_vt toy) s1 c1 = Some (s2, c2)" "rounds n c2 s2 = Some (c', s')"
    by (auto split: option.splits)
  note steps = turn_steps [OF t(1)] turn_steps [OF t(2)]
  show ?case
    using Suc.IH [OF t(3)] Suc.prems(2,3) steps api_run.step by metis
qed auto

lemma demo_finishes:
  "case rounds 2 demo_c0 demo_s0 of None \<Rightarrow> False | Some (c, s) \<Rightarrow> finished c \<and> finished s"
  by code_simp

definition demo_client :: handshake where
  "demo_client = (case rounds 2 demo_c0 demo_s0 of None \<Rightarrow> demo_c0 | Some (c, s) \<Rightarrow> c)"

definition demo_server :: handshake where
  "demo_server = (case rounds 2 demo_c0 demo_s0 of None \<Rightarrow> demo_s0 | Some (c, s) \<Rightarrow> s)"

lemma demo_run:
  "api_run (client_vt toy) demo_c0 demo_client" "api_run (server_vt toy) demo_s0 demo_server"
  "finished demo_client" "finished demo_server"
proof -
  obtain c s where r: "rounds 2 demo_c0 demo_s0 = Some (c, s)" "finished c" "finished s"
    using demo_finishes by (auto split: option.splits)
  have "api_run (client_vt toy) demo_c0 c \<and> api_run (server_vt toy) demo_s0 s"
    using rounds_run [OF r(1)] api_run.start by blast
  then show "api_run (client_vt toy) demo_c0 demo_client" "api_run (server_vt toy) demo_s0 demo_server"
    "finished demo_client" "finished demo_server"
    using r by (simp_all add: demo_client_def demo_server_def)
qed

end
