(* ===== verification/Handshake_Safety.thy ===== *)
theory Handshake_Safety
  imports Demo
begin

text \<open>
  \<open>ClientHandshake\<close> and \<open>ServerHandshake\<close> keep the contracts of \<open>Handshake\<close>: the interpretations
  \<open>client\<close>, \<open>server\<close> of \<open>handshake_class\<close> and \<open>client_run\<close>, \<open>server_run\<close> of
  \<open>handshake_protocol\<close>. From them follow the properties of every run of the public interface:
  no call fails inside the crypto object, the error code and the buffers agree with the step, the
  steps go forward only, and a finished handshake has authenticated the peer.
\<close>

section \<open>The overriders keep the base class's contract\<close>

definition client_needs :: "step \<Rightarrow> nat" where
  "client_needs s = (case s of ServerChallenge \<Rightarrow> 64 | ServerAck \<Rightarrow> 80 | _ \<Rightarrow> 0)"

definition server_needs :: "step \<Rightarrow> nat" where
  "server_needs s = (case s of ClientChallenge \<Rightarrow> 64 | ClientAuth \<Rightarrow> 112 | _ \<Rightarrow> 0)"

lemma spaceFor_nonempty [simp]: "0 < n \<Longrightarrow> spaceFor n v \<noteq> []"
  by (simp add: spaceFor_def resize_def)

lemma spaceFor_exact [simp]: "length v = n \<Longrightarrow> spaceFor n v = v"
  by (simp add: spaceFor_def resize_same)

lemma vt_simps [simp]:
  "byteCountNeeded (client_vt C) = client_byteCountNeeded"
  "receivedBytes_v (client_vt C) = client_receivedBytes C"
  "fillOutputBuffer_v (client_vt C) = client_fillOutputBuffer C"
  "byteCountNeeded (server_vt C) = server_byteCountNeeded"
  "receivedBytes_v (server_vt C) = server_receivedBytes C"
  "fillOutputBuffer_v (server_vt C) = server_fillOutputBuffer C"
  by (simp_all add: client_vt_def server_vt_def)

lemma client_recv_frame:
  assumes "client_receivedBytes C bs h = (r, h')"
  shows "h' = h\<lparr>h_impl := h_impl h'\<rparr>"
  using assms
  by (cases "h_step h") (auto simp: client_receivedBytes_def split: prod.splits)

lemma server_recv_frame:
  assumes "server_receivedBytes C bs h = (r, h')"
  shows "h' = h\<lparr>h_impl := h_impl h'\<rparr>"
  using assms
  by (cases "h_step h")
    (auto simp: server_receivedBytes_def with_val_def Let_def split: prod.splits sum.splits if_splits
        option.splits)

lemmas fill_defs = client_fillOutputBuffer_def server_fillOutputBuffer_def client_needs_def
  server_needs_def live_def with_val_def Let_def

lemma client_fill_frame:
  assumes "client_fillOutputBuffer C h = (q, h')"
  shows "h' = h\<lparr>h_impl := h_impl h', h_outputBuffer := h_outputBuffer h'\<rparr>"
  using assms by (cases "h_step h") (auto simp: fill_defs split: prod.splits sum.splits)

lemma server_fill_frame:
  assumes "server_fillOutputBuffer C h = (q, h')"
  shows "h' = h\<lparr>h_impl := h_impl h', h_outputBuffer := h_outputBuffer h'\<rparr>"
  using assms by (cases "h_step h") (auto simp: fill_defs split: prod.splits sum.splits)

lemma client_fill_output:
  "client_fillOutputBuffer C h = (Inr (), h') \<Longrightarrow> live (h_step h) \<Longrightarrow> client_needs (h_step h) = 0 \<Longrightarrow>
     h_outputBuffer h' \<noteq> []"
  by (cases "h_step h") (auto simp: fill_defs split: prod.splits sum.splits)

lemma server_fill_output:
  "server_fillOutputBuffer C h = (Inr (), h') \<Longrightarrow> live (h_step h) \<Longrightarrow> server_needs (h_step h) = 0 \<Longrightarrow>
     h_outputBuffer h' \<noteq> []"
  by (cases "h_step h") (auto simp: fill_defs split: prod.splits sum.splits)

lemma client_fill_fail:
  "client_fillOutputBuffer C h = (Inl e, h') \<Longrightarrow> h_outputBuffer h' = h_outputBuffer h"
  by (cases "h_step h") (auto simp: fill_defs split: prod.splits sum.splits)

lemma server_fill_fail:
  "server_fillOutputBuffer C h = (Inl e, h') \<Longrightarrow> h_outputBuffer h' = h_outputBuffer h"
  by (cases "h_step h") (auto simp: fill_defs split: prod.splits sum.splits)

interpretation client: handshake_class "client_vt C" client_needs for C
proof (unfold_locales, goal_cases)
  case (4 s)
  then show ?case by (simp add: client_needs_def size_max_def split: step.split)
next
  case (5 s)
  then show ?case by (cases s) (simp_all add: client_needs_def)
next
  case (6 bs h r h')
  then show ?case by simp (metis client_recv_frame)
next
  case (7 h bs)
  then show ?case
    by (cases "h_step h") (simp_all add: client_receivedBytes_def client_needs_def)
next
  case (8 h q h')
  then show ?case by simp (metis client_fill_frame)
next
  case (9 h)
  then show ?case
    by (cases "h_step h") (simp_all add: client_fillOutputBuffer_def client_needs_def live_def)
next
  case (10 h h')
  then show ?case by (simp add: client_fill_output)
next
  case (11 h e h')
  then show ?case by (simp add: client_fill_fail)
qed (simp_all add: client_needs_def client_byteCountNeeded_def)

interpretation server: handshake_class "server_vt C" server_needs for C
proof (unfold_locales, goal_cases)
  case (4 s)
  then show ?case by (simp add: server_needs_def size_max_def split: step.split)
next
  case (5 s)
  then show ?case by (cases s) (simp_all add: server_needs_def)
next
  case (6 bs h r h')
  then show ?case by simp (metis server_recv_frame)
next
  case (7 h bs)
  then show ?case
    by (cases "h_step h") (simp_all add: server_receivedBytes_def server_needs_def)
next
  case (8 h q h')
  then show ?case by simp (metis server_fill_frame)
next
  case (9 h)
  then show ?case
    by (cases "h_step h") (simp_all add: server_fillOutputBuffer_def server_needs_def live_def)
next
  case (10 h h')
  then show ?case by (simp add: server_fill_output)
next
  case (11 h e h')
  then show ?case by (simp add: server_fill_fail)
qed (simp_all add: server_needs_def server_byteCountNeeded_def)

section \<open>What each side knows at each step\<close>

text \<open>The identity of a crypto object never changes.\<close>

definition same_peer :: "impl_handshake \<Rightarrow> impl_handshake \<Rightarrow> bool" where
  "same_peer i0 i \<longleftrightarrow> hs_K i = hs_K i0 \<and> hs_X i = hs_X i0 \<and> hs_Xp i = hs_Xp i0
     \<and> hs_x i = hs_x i0 \<and> hs_xp i = hs_xp i0"

definition knows_ephemeral :: "crypto \<Rightarrow> impl_handshake \<Rightarrow> bool" where
  "knows_ephemeral C i \<longleftrightarrow> (\<exists>yp. hs_yp i = Some yp \<and> hs_ab i = Some (kx_mult C (hs_x i) yp)
     \<and> hs_hashab i = Some (hash C (kx_mult C (hs_x i) yp)))"

definition knows_auth :: "impl_handshake \<Rightarrow> bool" where
  "knows_auth i \<longleftrightarrow> hs_aB i \<noteq> None \<and> hs_Ab i \<noteq> None \<and> hs_H i \<noteq> None"

text \<open>The client's authentication message, as the client has made it for the server's key \<open>Bp\<close>.\<close>

definition auth_made :: "crypto \<Rightarrow> bytes \<Rightarrow> impl_handshake \<Rightarrow> bool" where
  "auth_made C Bp i \<longleftrightarrow> (\<exists>hashab. hs_hashab i = Some hashab
     \<and> hs_H i = Some (ed_sign C (hs_X i) (hs_K i @ Bp @ hashab) @ hs_Xp i))"

text \<open>The server's acknowledgement, as checked by the client.\<close>

definition ack_checked :: "crypto \<Rightarrow> bytes \<Rightarrow> impl_handshake \<Rightarrow> bool" where
  "ack_checked C Bp i \<longleftrightarrow> (\<exists>key ack sig H hashab. hs_serverAckKey i = Some key \<and> hs_H i = Some H
     \<and> hs_hashab i = Some hashab \<and> unbox0 C key ack = Some sig
     \<and> ed_check C Bp sig (hs_K i @ H @ hashab))"

text \<open>The client's authentication message, as opened and checked by the server.\<close>

definition auth_checked :: "crypto \<Rightarrow> (bytes \<Rightarrow> bool) option \<Rightarrow> impl_handshake \<Rightarrow> bool" where
  "auth_checked C auth i \<longleftrightarrow> (\<exists>ab yp msg H Ap hashab. hs_ab i = Some ab \<and> hs_yp i = Some yp
     \<and> hs_aB i = Some (mult_signing C (hs_X i) yp)
     \<and> unbox0 C (auth_key C i ab (mult_signing C (hs_X i) yp)) msg = Some H
     \<and> hs_H i = Some H \<and> hs_Yp i = Some Ap
     \<and> hs_hashab i = Some hashab \<and> Ap = range_of 64 32 H
     \<and> ed_check C Ap (range_of 0 64 H) (hs_K i @ hs_Xp i @ hashab)
     \<and> (case auth of None \<Rightarrow> True | Some f \<Rightarrow> f Ap))"

definition client_J :: "crypto \<Rightarrow> impl_handshake \<Rightarrow> bytes \<Rightarrow> step \<Rightarrow> bool \<Rightarrow> impl_handshake \<Rightarrow> bool"
  where
  "client_J C i0 Bp s p i \<longleftrightarrow> s \<noteq> Failed \<longrightarrow> same_peer i0 i \<and> hs_Yp i = Some Bp
     \<and> (ClientAuth \<le> s \<longrightarrow> knows_ephemeral C i)
     \<and> (ServerAck \<le> s \<or> s = ClientAuth \<and> p \<longrightarrow> knows_auth i \<and> auth_made C Bp i)
     \<and> (s = Finished \<longrightarrow> ack_checked C Bp i)"

definition server_J :: "crypto \<Rightarrow> impl_handshake \<Rightarrow> (bytes \<Rightarrow> bool) option \<Rightarrow> step \<Rightarrow> bool
    \<Rightarrow> impl_handshake \<Rightarrow> bool" where
  "server_J C i0 auth s p i \<longleftrightarrow> s \<noteq> Failed \<longrightarrow> same_peer i0 i
     \<and> (ServerChallenge \<le> s \<longrightarrow> knows_ephemeral C i)
     \<and> (ServerAck \<le> s \<longrightarrow> knows_auth i \<and> auth_checked C auth i)
     \<and> (s = Finished \<or> s = ServerAck \<and> p \<longrightarrow> hs_serverAckKey i \<noteq> None)"

lemma knows_ephemeral_challenged: "knows_ephemeral C (challenged C yp i)"
  by (simp add: knows_ephemeral_def challenged_def)

lemma same_peer_challenged: "same_peer i0 i \<Longrightarrow> same_peer i0 (challenged C yp i)"
  by (simp add: same_peer_def challenged_def)

lemma verifyChallenge_knows:
  assumes "verifyChallenge C bs i = (True, i')" "same_peer i0 i"
  shows "same_peer i0 i' \<and> knows_ephemeral C i' \<and> hs_Yp i' = hs_Yp i"
  using assms knows_ephemeral_challenged same_peer_challenged
  by (auto simp: verifyChallenge_eq challenged_def split: if_splits)

lemma knows_ephemeralE:
  assumes "knows_ephemeral C i"
  obtains yp ab hashab where "hs_yp i = Some yp" "hs_ab i = Some ab" "hs_hashab i = Some hashab"
  using assms by (auto simp: knows_ephemeral_def)

lemma knows_authE:
  assumes "knows_auth i"
  obtains aB Ab H where "hs_aB i = Some aB" "hs_Ab i = Some Ab" "hs_H i = Some H"
  using assms by (auto simp: knows_auth_def)

lemma createClientAuth_knows:
  assumes "knows_ephemeral C i" "hs_Yp i = Some Bp" "same_peer i0 i" "createClientAuth C i = (r, i')"
  shows "(\<exists>d. r = Inr d) \<and> same_peer i0 i' \<and> hs_Yp i' = Some Bp \<and> knows_ephemeral C i' \<and> knows_auth i'
    \<and> auth_made C Bp i'"
  using assms(1)
proof (rule knows_ephemeralE)
  fix yp ab hashab
  assume k: "hs_yp i = Some yp" "hs_ab i = Some ab" "hs_hashab i = Some hashab"
  then show ?thesis
    using assms by (auto simp: createClientAuth_eq [OF assms(2) k] same_peer_def knows_auth_def
        knows_ephemeral_def auth_made_def)
qed

lemma verifyServerAck_knows:
  assumes "knows_ephemeral C i" "knows_auth i" "hs_Yp i = Some Bp" "same_peer i0 i"
    "verifyServerAck C ack i = (r, i')" "auth_made C Bp i"
  shows "(\<exists>b. r = Inr b) \<and> (r = Inr True \<longrightarrow> same_peer i0 i' \<and> hs_Yp i' = Some Bp
    \<and> knows_ephemeral C i' \<and> knows_auth i' \<and> auth_made C Bp i' \<and> ack_checked C Bp i')"
proof -
  obtain yp ab hashab where k: "hs_yp i = Some yp" "hs_ab i = Some ab" "hs_hashab i = Some hashab"
    using assms(1) by (rule knows_ephemeralE)
  obtain aB Ab H where a: "hs_aB i = Some aB" "hs_Ab i = Some Ab" "hs_H i = Some H"
    using assms(2) by (rule knows_authE)
  note eq = verifyServerAck_eq [OF assms(3) k(1,2) a(1,2,3) k(3), of C ack]
  define key where "key = makeBoxKey C (hs_K i @ ab @ aB @ Ab)"
  have r: "r = Inr (case unbox0 C key ack of None \<Rightarrow> False
      | Some sig \<Rightarrow> ed_check C Bp sig (hs_K i @ H @ hashab))" "i' = i\<lparr>hs_serverAckKey := Some key\<rparr>"
    using eq assms(5) by (simp_all add: key_def)
  have "ack_checked C Bp i'" if "r = Inr True"
    using that r k a by (auto simp: ack_checked_def split: option.splits)
  then show ?thesis
    using r assms(1-4,6) by (simp add: same_peer_def knows_ephemeral_def knows_auth_def auth_made_def)
qed

lemma verifyClientAuth_knows:
  assumes "knows_ephemeral C i" "same_peer i0 i" "verifyClientAuth C bs i = (r, i')"
  shows "(\<exists>b. r = Inr b) \<and> (r = Inr True \<longrightarrow> same_peer i0 i' \<and> knows_ephemeral C i'
    \<and> knows_auth i' \<and> auth_checked C None i')"
proof -
  obtain yp ab hashab where k: "hs_yp i = Some yp" "hs_ab i = Some ab" "hs_hashab i = Some hashab"
    using assms(1) by (rule knows_ephemeralE)
  show ?thesis
    using verifyClientAuth_challenged [OF k, of C bs] assms k
    by (auto simp: same_peer_def knows_ephemeral_def knows_auth_def auth_checked_def auth_key_def
        split: option.splits)
qed

lemma createServerAck_knows:
  assumes "knows_ephemeral C i" "knows_auth i" "auth_checked C auth i" "same_peer i0 i"
    "createServerAck C i = (r, i')"
  shows "(\<exists>d. r = Inr d) \<and> same_peer i0 i' \<and> knows_ephemeral C i' \<and> knows_auth i'
    \<and> auth_checked C auth i' \<and> hs_serverAckKey i' \<noteq> None"
proof -
  obtain yp ab hashab where k: "hs_yp i = Some yp" "hs_ab i = Some ab" "hs_hashab i = Some hashab"
    using assms(1) by (rule knows_ephemeralE)
  obtain aB Ab H where a: "hs_aB i = Some aB" "hs_Ab i = Some Ab" "hs_H i = Some H"
    using assms(2) by (rule knows_authE)
  show ?thesis
    using createServerAck_eq [OF k(1,2) a(1,2,3) k(3), of C] assms
    by (auto simp: same_peer_def knows_ephemeral_def knows_auth_def auth_checked_def auth_key_def)
qed

lemmas J_defs = client_J_def server_J_def step_order

lemma client_J_recv:
  assumes "client_J C i0 Bp (h_step h) False (h_impl h)" "client_needs (h_step h) \<noteq> 0"
    "client_receivedBytes C bs h = (r, h')"
  shows "(\<exists>b. r = Inr b) \<and> (r = Inr True \<longrightarrow> client_J C i0 Bp (step_succ (h_step h)) False (h_impl h'))"
proof (cases "h_step h")
  case ServerChallenge
  then show ?thesis
    using assms verifyChallenge_knows [of C bs "h_impl h" _ i0]
    by (auto simp: J_defs client_receivedBytes_def split: prod.splits)
next
  case ServerAck
  then show ?thesis
    using assms verifyServerAck_knows [of C "h_impl h" Bp i0 bs]
    by (auto simp: J_defs client_receivedBytes_def split: prod.splits)
qed (use assms in \<open>simp_all add: client_needs_def\<close>)

lemma client_J_fill:
  assumes "client_J C i0 Bp (h_step h) False (h_impl h)" "live (h_step h)"
    "client_needs (h_step h) = 0" "client_fillOutputBuffer C h = (q, h')"
  shows "q = Inr () \<and> client_J C i0 Bp (h_step h) True (h_impl h')"
proof (cases "h_step h")
  case ClientChallenge
  then show ?thesis using assms by (auto simp: J_defs client_fillOutputBuffer_def)
next
  case ClientAuth
  then show ?thesis
    using assms createClientAuth_knows [of C "h_impl h" Bp i0]
    by (auto simp: J_defs client_fillOutputBuffer_def Let_def split: prod.splits)
qed (use assms in \<open>simp_all add: client_needs_def live_def\<close>)

lemma client_J_sent:
  assumes "live s" "client_needs s = 0" "client_J C i0 Bp s True i"
  shows "client_J C i0 Bp (step_succ s) False i"
  using assms by (cases s) (auto simp: J_defs live_def client_needs_def)

interpretation client_run: handshake_protocol "client_vt C" client_needs auth "client_J C i0 Bp"
  for C auth i0 Bp
proof (unfold_locales, goal_cases)
  case (2 h bs r h')
  then show ?case using client_J_recv by simp
next
  case (3 h q h')
  then show ?case using client_J_fill by simp
next
  case (4 s i)
  then show ?case by (rule client_J_sent)
qed (simp add: client_J_def)

lemma server_J_recv:
  assumes "server_J C i0 auth (h_step h) False (h_impl h)" "h_clientAuth h = auth"
    "server_needs (h_step h) \<noteq> 0" "server_receivedBytes C bs h = (r, h')"
  shows "(\<exists>b. r = Inr b) \<and> (r = Inr True \<longrightarrow> server_J C i0 auth (step_succ (h_step h)) False (h_impl h'))"
proof (cases "h_step h")
  case ClientChallenge
  then show ?thesis
    using assms verifyChallenge_knows [of C bs "h_impl h" _ i0]
    by (auto simp: J_defs server_receivedBytes_def split: prod.splits)
next
  case ClientAuth
  obtain q i where q: "verifyClientAuth C bs (h_impl h) = (q, i)" by fastforce
  then obtain b where b: "q = Inr b" and ok: "b \<Longrightarrow> same_peer i0 i \<and> knows_ephemeral C i
      \<and> knows_auth i \<and> auth_checked C None i"
    using verifyClientAuth_knows [of C "h_impl h" i0 bs] assms(1) ClientAuth
    by (auto simp: J_defs)
  have "r = Inr (b \<and> (case auth of None \<Rightarrow> True | Some f \<Rightarrow> f (the (hs_Yp i))))
      \<and> h_impl h' = i"
    using assms(2,4) ClientAuth q b ok
    by (cases b) (auto simp: server_receivedBytes_def getPeerPublicKey_def auth_checked_def
        split: option.splits)
  then show ?thesis
    using ok ClientAuth by (cases auth) (auto simp: J_defs auth_checked_def, blast)
qed (use assms in \<open>simp_all add: server_needs_def\<close>)

lemma server_J_fill:
  assumes "server_J C i0 auth (h_step h) False (h_impl h)" "live (h_step h)"
    "server_needs (h_step h) = 0" "server_fillOutputBuffer C h = (q, h')"
  shows "q = Inr () \<and> server_J C i0 auth (h_step h) True (h_impl h')"
proof (cases "h_step h")
  case ServerChallenge
  then show ?thesis using assms by (auto simp: J_defs server_fillOutputBuffer_def)
next
  case ServerAck
  then show ?thesis
    using assms createServerAck_knows [of C "h_impl h" auth i0]
    by (auto simp: J_defs server_fillOutputBuffer_def Let_def split: prod.splits)
qed (use assms in \<open>simp_all add: server_needs_def live_def\<close>)

lemma server_J_sent:
  assumes "live s" "server_needs s = 0" "server_J C i0 auth s True i"
  shows "server_J C i0 auth (step_succ s) False i"
  using assms by (cases s) (auto simp: J_defs live_def server_needs_def)

interpretation server_run: handshake_protocol "server_vt C" server_needs auth "server_J C i0 auth"
  for C auth i0
proof (unfold_locales, goal_cases)
  case (2 h bs r h')
  then show ?case using server_J_recv by simp
next
  case (3 h q h')
  then show ?case using server_J_fill by simp
next
  case (4 s i)
  then show ?case by (rule server_J_sent)
qed (simp add: server_J_def)

section \<open>Properties of every run\<close>

text \<open>A newly constructed object of either class, with its vtable. A server's authorizer, if any,
  is registered before the handshake starts.\<close>

inductive fresh :: "crypto \<Rightarrow> vtable \<Rightarrow> handshake \<Rightarrow> bool" for C where
  client: "fresh C (client_vt C) (ClientHandshake C ctx pk x)"
| server: "fresh C (server_vt C) (setClientAuthorizer auth (ServerHandshake C ctx x))"

lemma fresh_client_inv:
  "client_run.inv C None (new_handshake C (appID ctx) (signingKey (keyPair ctx))
     (publicKey (keyPair ctx)) x) pk (ClientHandshake C ctx pk x)"
  by (simp add: client_run.inv_def client.buffers_ok_iff client_J_def ClientHandshake_def
      new_Handshake_def same_peer_def new_handshake_def setServerPublicKey_def step_order)

lemma fresh_server_inv:
  "server_run.inv C auth (new_handshake C (appID ctx) (signingKey (keyPair ctx))
     (publicKey (keyPair ctx)) x) (setClientAuthorizer auth (ServerHandshake C ctx x))"
  by (simp add: server_run.inv_def server.buffers_ok_iff server_J_def ServerHandshake_def
      setClientAuthorizer_def new_Handshake_def same_peer_def new_handshake_def step_order)

lemma fresh_run_cases:
  assumes "fresh C V h0" "api_run V h0 h"
  obtains (client) i0 pk where "V = client_vt C" "client_run.inv C None i0 pk h"
  | (server) i0 auth where "V = server_vt C" "server_run.inv C auth i0 h"
  using assms(1)
proof cases
  case (client ctx pk x)
  then show ?thesis
    using client_run.api_run_inv [OF _ fresh_client_inv] assms(2) that(1) by blast
next
  case (server auth ctx x)
  then show ?thesis
    using server_run.api_run_inv [OF _ fresh_server_inv] assms(2) that(2) by blast
qed

lemma client_session:
  assumes "api_run (client_vt C) (ClientHandshake C ctx pk x) h" "finished h"
  shows "\<exists>s. get_session C h = Inr s \<and> peerPublicKey s = pk"
proof -
  have "client_run.inv C None (new_handshake C (appID ctx) (signingKey (keyPair ctx))
      (publicKey (keyPair ctx)) x) pk h"
    using client_run.api_run_inv [OF assms(1) fresh_client_inv] .
  then have "hs_Yp (h_impl h) = Some pk" "knows_ephemeral C (h_impl h)" "ack_checked C pk (h_impl h)"
    using assms(2) by (auto simp: client_run.inv_def finished_def J_defs)
  then show ?thesis using assms(2)
    by (auto simp: get_session_def finished_def getOutcome_def Let_def knows_ephemeral_def
        ack_checked_def)
qed

lemma server_session:
  assumes "api_run (server_vt C) (setClientAuthorizer auth (ServerHandshake C ctx x)) h" "finished h"
  shows "\<exists>s. get_session C h = Inr s \<and> (case auth of None \<Rightarrow> True | Some f \<Rightarrow> f (peerPublicKey s))"
proof -
  have "server_run.inv C auth (new_handshake C (appID ctx) (signingKey (keyPair ctx))
      (publicKey (keyPair ctx)) x) h"
    using server_run.api_run_inv [OF assms(1) fresh_server_inv] .
  then have "knows_ephemeral C (h_impl h)" "auth_checked C auth (h_impl h)"
    "hs_serverAckKey (h_impl h) \<noteq> None"
    using assms(2) by (auto simp: server_run.inv_def finished_def J_defs)
  then show ?thesis using assms(2)
    by (auto simp: get_session_def finished_def getOutcome_def Let_def knows_ephemeral_def
        auth_checked_def split: option.splits)
qed

text \<open>The signature of the peer that a finished object has checked, on what this run has agreed.\<close>

lemma client_signed:
  assumes "api_run (client_vt C) (ClientHandshake C ctx pk x) h" "finished h"
  shows "\<exists>sig H hashab. hs_H (h_impl h) = Some H \<and> hs_hashab (h_impl h) = Some hashab
    \<and> ed_check C pk sig (appID ctx @ H @ hashab)"
proof -
  let ?i0 = "new_handshake C (appID ctx) (signingKey (keyPair ctx)) (publicKey (keyPair ctx)) x"
  have "client_run.inv C None ?i0 pk h"
    using client_run.api_run_inv [OF assms(1) fresh_client_inv] .
  then have "ack_checked C pk (h_impl h)" "same_peer ?i0 (h_impl h)"
    using assms(2) by (auto simp: client_run.inv_def finished_def J_defs)
  then show ?thesis by (auto simp: ack_checked_def same_peer_def new_handshake_def)
qed

lemma server_signed:
  assumes "api_run (server_vt C) (setClientAuthorizer auth (ServerHandshake C ctx x)) h" "finished h"
    and "get_session C h = Inr s"
  shows "\<exists>H hashab. hs_H (h_impl h) = Some H \<and> hs_hashab (h_impl h) = Some hashab
    \<and> ed_check C (peerPublicKey s) (range_of 0 64 H) (appID ctx @ publicKey (keyPair ctx) @ hashab)"
proof -
  let ?i0 = "new_handshake C (appID ctx) (signingKey (keyPair ctx)) (publicKey (keyPair ctx)) x"
  have "server_run.inv C auth ?i0 h"
    using server_run.api_run_inv [OF assms(1) fresh_server_inv] .
  then have "auth_checked C auth (h_impl h)" "same_peer ?i0 (h_impl h)"
    using assms(2) by (auto simp: server_run.inv_def finished_def J_defs)
  then show ?thesis using assms(3)
    by (auto simp: auth_checked_def same_peer_def new_handshake_def get_session_def getOutcome_def
        Let_def opt_value_def split: if_splits option.splits)
qed

lemma fresh_session:
  assumes "fresh C V h0" "api_run V h0 h" "finished h"
  shows "\<exists>s. get_session C h = Inr s"
  using assms(1)
proof cases
  case (client ctx pk x)
  then show ?thesis using client_session [of C ctx pk x h] assms(2,3) by blast
next
  case (server auth ctx x)
  then show ?thesis using server_session [of C auth ctx x h] assms(2,3) by blast
qed

lemma fresh_calls:
  assumes "fresh C V h0" "api_run V h0 h"
  shows "fst (readCompleted V h) \<in> {Inl LogicError, Inr True, Inr False}
    \<and> (fst (readCompleted V h) = Inl LogicError \<longleftrightarrow> length (h_inputBuffer h) \<noteq> byteCountNeeded V h)
    \<and> (\<exists>n. fst (receivedBytes V src h) = Inr n)
    \<and> (\<exists>out. fst (bytesToSend V h) = Inr out)
    \<and> (\<exists>v. fst (copyBytesToSend V k h) = Inr v)
    \<and> fst (sendCompleted h) = (if h_outputBuffer h = [] then Inl LogicError
        else if h_step h = Failed then Inl AssertFailed else Inr ())"
  using assms
proof (cases rule: fresh_run_cases)
  case (client i0 pk)
  show ?thesis
    using client_run.readCompleted_inv [OF client(2), of "fst (readCompleted V h)" "snd (readCompleted V h)"]
      client_run.receivedBytes_inv [OF client(2), of src "fst (receivedBytes V src h)" "snd (receivedBytes V src h)"]
      client_run.bytesToSend_inv [OF client(2), of "fst (bytesToSend V h)" "snd (bytesToSend V h)"]
      client_run.copyBytesToSend_inv [OF client(2), of k "fst (copyBytesToSend V k h)" "snd (copyBytesToSend V k h)"]
      client_run.sendCompleted_result [OF client(2)]
    by (auto simp: client(1) readCompleted_def)
next
  case (server i0 auth)
  show ?thesis
    using server_run.readCompleted_inv [OF server(2), of "fst (readCompleted V h)" "snd (readCompleted V h)"]
      server_run.receivedBytes_inv [OF server(2), of src "fst (receivedBytes V src h)" "snd (receivedBytes V src h)"]
      server_run.bytesToSend_inv [OF server(2), of "fst (bytesToSend V h)" "snd (bytesToSend V h)"]
      server_run.copyBytesToSend_inv [OF server(2), of k "fst (copyBytesToSend V k h)" "snd (copyBytesToSend V k h)"]
      server_run.sendCompleted_result [OF server(2)]
    by (auto simp: server(1) readCompleted_def)
qed

text \<open>
  C17: What the calls of the public interface return, at any point of any run of a client or server.
  None of them, \<open>session\<close> included, runs into an empty optional or any other failure inside the
  crypto object. \<open>receivedBytes\<close>, \<open>bytesToSend\<close> and \<open>copyBytesToSend\<close> always return. \<open>readCompleted\<close> throws
  its \<open>logic_error\<close> exactly if the input buffer has not the size asked for, \<open>session\<close> exactly if the
  handshake has not finished, and \<open>sendCompleted\<close> exactly if no output is pending. The assertion in
  \<open>nextStep\<close> is tripped in one case only: \<open>sendCompleted\<close> is called although the handshake has failed,
  for output that was pending when it failed.
\<close>

theorem calls_never_misuse_crypto:
  assumes "fresh C V h0" "api_run V h0 h"
  shows "fst (readCompleted V h) \<in> {Inl LogicError, Inr True, Inr False}
    \<and> (fst (readCompleted V h) = Inl LogicError \<longleftrightarrow> length (h_inputBuffer h) \<noteq> byteCountNeeded V h)
    \<and> (\<exists>n. fst (receivedBytes V src h) = Inr n)
    \<and> (\<exists>out. fst (bytesToSend V h) = Inr out)
    \<and> (\<exists>v. fst (copyBytesToSend V k h) = Inr v)
    \<and> fst (sendCompleted h) = (if h_outputBuffer h = [] then Inl LogicError
        else if h_step h = Failed then Inl AssertFailed else Inr ())
    \<and> (if finished h then \<exists>s. get_session C h = Inr s else get_session C h = Inl LogicError)"
proof -
  have "if finished h then \<exists>s. get_session C h = Inr s else get_session C h = Inl LogicError"
    using fresh_session [OF assms] by (simp add: get_session_def finished_def)
  then show ?thesis using fresh_calls [OF assms] by blast
qed

lemma fresh_demo: "fresh toy (client_vt toy) demo_c0" "fresh toy (server_vt toy) demo_s0"
  by (simp_all add: demo_c0_def demo_s0_def fresh.client fresh.server)

theorem calls_never_misuse_crypto_witness:
  "(\<exists>n. fst (receivedBytes (server_vt toy) [1, 2, 3] demo_server) = Inr n)
    \<and> fst (sendCompleted demo_server) \<noteq> Inl AssertFailed
    \<and> (\<exists>s. get_session toy demo_server = Inr s)"
proof -
  have "h_step demo_server \<noteq> Failed" using demo_run(4) by (simp add: finished_def)
  then show ?thesis
    using calls_never_misuse_crypto [OF fresh_demo(2) demo_run(2), of "[1, 2, 3]" 0] demo_run(4) by simp
qed

text \<open>
  C18: In every state of every run the error code is set exactly when the step is \<open>Failed\<close>, the
  input buffer never holds more than the message being awaited, and output is pending only in a
  step that reads nothing and is not the last. The steps go forward one at a time: a call leaves the
  step, advances it to the next one, or fails; from \<open>Failed\<close> no call leads anywhere else, and no
  call changes the application ID, the key pair or the authorizer.
\<close>

theorem run_steps_forward:
  assumes "fresh C V h0" "api_run V h0 h"
  shows "(h_error h \<noteq> NoError \<longleftrightarrow> h_step h = Failed)
    \<and> (h_step h \<noteq> Failed \<longrightarrow> length (h_inputBuffer h) \<le> byteCountNeeded V h)
    \<and> (h_outputBuffer h \<noteq> [] \<longrightarrow> byteCountNeeded V h = 0 \<and> \<not> finished h)
    \<and> (\<forall>h'. api_step V h h' \<longrightarrow>
         (h_step h' = h_step h \<or> h_step h' = Failed
           \<or> h_step h \<noteq> Failed \<and> h_step h \<noteq> Finished \<and> h_step h' = step_succ (h_step h))
         \<and> h_context h' = h_context h \<and> h_clientAuth h' = h_clientAuth h)"
  using assms
proof (cases rule: fresh_run_cases)
  case (client i0 pk)
  then show ?thesis
    using client_run.api_step_inv client_run.inv_buffers [OF client(2)]
    by (auto simp: step_move_def live_def buffers_ok_def finished_def)
next
  case (server i0 auth)
  then show ?thesis
    using server_run.api_step_inv server_run.inv_buffers [OF server(2)]
    by (auto simp: step_move_def live_def buffers_ok_def finished_def)
qed

theorem run_steps_forward_witness:
  "h_step (readFailed demo_client) \<in> {Finished, Failed}
    \<and> h_context (readFailed demo_client) = h_context demo_client
    \<and> h_error demo_client = NoError \<and> h_outputBuffer demo_client = []"
  using run_steps_forward [OF fresh_demo(1) demo_run(1)] api_step.readFailed demo_run(3)
  by (fastforce simp: finished_def)

text \<open>
  C3: A server that finishes knows who the client is. Its state holds an authentication \<open>H\<close> that it
  opened with the key made of the app ID, the ephemeral shared secret, and the secret shared by
  its long-term key and the client's ephemeral key \<open>ap\<close>. Its session names the public key in \<open>H\<close>,
  under which the signature in \<open>H\<close>, over the app ID, the server's own public key and the hash of the
  ephemeral shared secret, was verified, and which the registered authorizer accepted.
\<close>

theorem server_finished_authenticated:
  assumes "api_run (server_vt C) (setClientAuthorizer auth (ServerHandshake C ctx x)) h"
    "finished h"
  shows "\<exists>s ap msg H. get_session C h = Inr s
    \<and> hs_H (h_impl h) = Some H
    \<and> unbox0 C (makeBoxKey C (appID ctx @ kx_mult C x ap @ mult_signing C (signingKey (keyPair ctx)) ap)) msg
        = Some H
    \<and> peerPublicKey s = range_of 64 32 H
    \<and> ed_check C (peerPublicKey s) (range_of 0 64 H)
        (appID ctx @ publicKey (keyPair ctx) @ hash C (kx_mult C x ap))
    \<and> (case auth of None \<Rightarrow> True | Some f \<Rightarrow> f (peerPublicKey s))
    \<and> encryptionNonce s = hashToNonce (hmac C (appID ctx) ap)"
proof -
  let ?i0 = "new_handshake C (appID ctx) (signingKey (keyPair ctx)) (publicKey (keyPair ctx)) x"
  have "server_run.inv C auth ?i0 h"
    using server_run.api_run_inv [OF assms(1) fresh_server_inv] .
  then have J: "server_J C ?i0 auth Finished (h_outputBuffer h \<noteq> []) (h_impl h)"
    using assms(2) by (simp add: server_run.inv_def finished_def)
  then have sp: "same_peer ?i0 (h_impl h)" and e: "knows_ephemeral C (h_impl h)"
    and a: "auth_checked C auth (h_impl h)" and k: "hs_serverAckKey (h_impl h) \<noteq> None"
    by (auto simp: J_defs)
  obtain yp where yp: "hs_yp (h_impl h) = Some yp" "hs_ab (h_impl h) = Some (kx_mult C x yp)"
    "hs_hashab (h_impl h) = Some (hash C (kx_mult C x yp))"
    using e sp by (auto simp: knows_ephemeral_def same_peer_def new_handshake_def)
  obtain H msg where H: "hs_H (h_impl h) = Some H" "hs_Yp (h_impl h) = Some (range_of 64 32 H)"
    "unbox0 C (makeBoxKey C (appID ctx @ kx_mult C x yp @ mult_signing C (signingKey (keyPair ctx)) yp)) msg = Some H"
    "ed_check C (range_of 64 32 H) (range_of 0 64 H) (appID ctx @ publicKey (keyPair ctx) @ hash C (kx_mult C x yp))"
    "case auth of None \<Rightarrow> True | Some f \<Rightarrow> f (range_of 64 32 H)"
    using a yp sp by (auto simp: auth_checked_def auth_key_def same_peer_def new_handshake_def)
  obtain s where s: "get_session C h = Inr s" "peerPublicKey s = range_of 64 32 H"
    "encryptionNonce s = hashToNonce (hmac C (appID ctx) yp)"
    using k yp H(2) assms(2) sp
    by (auto simp: get_session_def finished_def getOutcome_def Let_def same_peer_def new_handshake_def)
  with H show ?thesis by metis
qed

theorem server_finished_authenticated_witness:
  "\<exists>s. get_session toy demo_server = Inr s \<and> peerPublicKey s = ed_public toy [1, 2]"
  using server_finished_authenticated [OF demo_run(2) [unfolded demo_s0_def] demo_run(4)]
  by (auto simp: demo_auth_def)

text \<open>
  C4: A client that finishes has verified, with the public key it was constructed for, a signature
  over the app ID, its own authentication message and the hash of the ephemeral shared secret;
  its session names that key.
\<close>

theorem client_finished_authenticated:
  assumes "api_run (client_vt C) (ClientHandshake C ctx pk x) h" "finished h"
  shows "\<exists>s bp sig H. get_session C h = Inr s \<and> peerPublicKey s = pk
    \<and> hs_H (h_impl h) = Some H
    \<and> ed_check C pk sig (appID ctx @ H @ hash C (kx_mult C x bp))
    \<and> encryptionNonce s = hashToNonce (hmac C (appID ctx) bp)"
proof -
  let ?i0 = "new_handshake C (appID ctx) (signingKey (keyPair ctx)) (publicKey (keyPair ctx)) x"
  have "client_run.inv C None ?i0 pk h"
    using client_run.api_run_inv [OF assms(1) fresh_client_inv] .
  then have J: "client_J C ?i0 pk Finished (h_outputBuffer h \<noteq> []) (h_impl h)"
    using assms(2) by (simp add: client_run.inv_def finished_def)
  then have sp: "same_peer ?i0 (h_impl h)" and Yp: "hs_Yp (h_impl h) = Some pk"
    and e: "knows_ephemeral C (h_impl h)" and a: "ack_checked C pk (h_impl h)"
    by (auto simp: J_defs)
  obtain yp where yp: "hs_yp (h_impl h) = Some yp"
    "hs_hashab (h_impl h) = Some (hash C (kx_mult C x yp))"
    using e sp by (auto simp: knows_ephemeral_def same_peer_def new_handshake_def)
  obtain key sig H where H: "hs_serverAckKey (h_impl h) = Some key" "hs_H (h_impl h) = Some H"
    "ed_check C pk sig (appID ctx @ H @ hash C (kx_mult C x yp))"
    using a yp sp by (auto simp: ack_checked_def same_peer_def new_handshake_def)
  obtain s where "get_session C h = Inr s" "peerPublicKey s = pk"
    "encryptionNonce s = hashToNonce (hmac C (appID ctx) yp)"
    using H yp Yp assms(2) sp
    by (auto simp: get_session_def finished_def getOutcome_def Let_def same_peer_def new_handshake_def)
  with H show ?thesis by blast
qed

theorem client_finished_authenticated_witness:
  "\<exists>s. get_session toy demo_client = Inr s \<and> peerPublicKey s = ed_public toy [3]"
  using client_finished_authenticated [OF demo_run(1) [unfolded demo_c0_def] demo_run(3)]
  by blast

lemma fragmented_receive:
  assumes "fresh C V h0" "api_run V h0 h" "byteCountNeeded V h \<noteq> 0"
    "cs \<noteq> []" "last cs \<noteq> []"
    "length (h_inputBuffer h) + length (concat cs) = byteCountNeeded V h"
  shows "snd (receive_all V cs h) =
    snd (readCompleted V (h\<lparr>h_inputBuffer := h_inputBuffer h @ concat cs\<rparr>))"
proof -
  let ?r = "readCompleted V (h\<lparr>h_inputBuffer := h_inputBuffer h @ concat cs\<rparr>)"
  have "receive_all V cs h = ebind ?r (\<lambda>_ h2. (Inr (), h2)) (\<lambda>h2. h2)"
    using assms(1,2)
  proof (cases rule: fresh_run_cases)
    case client
    then show ?thesis using client.receive_all_eq assms(3-6) client.needed by metis
  next
    case server
    then show ?thesis using server.receive_all_eq assms(3-6) server.needed by metis
  qed
  then show ?thesis by (cases ?r; cases "fst ?r") auto
qed

lemma fragmented_send:
  assumes "fresh C V h0" "api_run V h0 h" "bytesToSend V h = (Inr out, h1)" "out \<noteq> []"
    "ns \<noteq> []" "last ns \<noteq> 0" "sum_list ns = length out"
  shows "copy_all V ns h = (Inr out, snd (sendCompleted h1))"
  using assms(1,2)
proof (cases rule: fresh_run_cases)
  case (client i0 pk)
  then show ?thesis using client.copy_all_eq assms(3-7) client_run.inv_buffers by metis
next
  case (server i0 auth)
  then show ?thesis using server.copy_all_eq assms(3-7) server_run.inv_buffers by metis
qed

text \<open>
  C16: How the transport cuts the messages does not matter, at any point of any run. Feeding
  \<open>receivedBytes\<close> the awaited message in any fragments leaves the state that filling the whole
  buffer and calling \<open>readCompleted\<close> leaves; and whatever buffer sizes are passed to
  \<open>copyBytesToSend\<close>, the pieces it copies make up exactly the bytes that \<open>bytesToSend\<close> offers, and
  the state afterwards is the one that \<open>sendCompleted\<close> leaves.
\<close>

theorem fragmentation_irrelevant:
  assumes "fresh C V h0" "api_run V h0 h"
  shows "(\<forall>cs. byteCountNeeded V h \<noteq> 0 \<and> cs \<noteq> [] \<and> last cs \<noteq> []
        \<and> length (h_inputBuffer h) + length (concat cs) = byteCountNeeded V h \<longrightarrow>
      snd (receive_all V cs h) = snd (readCompleted V (h\<lparr>h_inputBuffer := h_inputBuffer h @ concat cs\<rparr>)))
    \<and> (\<forall>ns out h1. bytesToSend V h = (Inr out, h1) \<and> out \<noteq> []
        \<and> ns \<noteq> [] \<and> last ns \<noteq> 0 \<and> sum_list ns = length out \<longrightarrow>
      copy_all V ns h = (Inr out, snd (sendCompleted h1)))"
  using fragmented_receive [OF assms] fragmented_send [OF assms] by blast

theorem fragmentation_irrelevant_witness:
  "snd (receive_all (server_vt toy) [replicate 10 1, [], replicate 54 2] demo_s0)
     = snd (readCompleted (server_vt toy)
         (demo_s0\<lparr>h_inputBuffer := replicate 10 1 @ replicate 54 2\<rparr>))
   \<and> (\<exists>out h1. bytesToSend (client_vt toy) demo_c0 = (Inr out, h1) \<and> length out = 64
     \<and> copy_all (client_vt toy) [1, 60, 3] demo_c0 = (Inr out, snd (sendCompleted h1)))"
proof
  have "byteCountNeeded (server_vt toy) demo_s0 = 64" "h_inputBuffer demo_s0 = []"
    by (simp_all add: demo_s0_def setClientAuthorizer_def ServerHandshake_def new_Handshake_def
        vt_simps server_byteCountNeeded_def)
  then show "snd (receive_all (server_vt toy) [replicate 10 1, [], replicate 54 2] demo_s0)
      = snd (readCompleted (server_vt toy)
          (demo_s0\<lparr>h_inputBuffer := replicate 10 1 @ replicate 54 2\<rparr>))"
    using fragmentation_irrelevant [OF fresh_demo(2) api_run.start, THEN conjunct1, THEN spec,
        of "[replicate 10 1, [], replicate 54 2]"]
    by simp
next
  have "case bytesToSend (client_vt toy) demo_c0 of (Inr out, h1) \<Rightarrow> length out = 64 | _ \<Rightarrow> False"
    by code_simp
  then obtain out h1 where o: "bytesToSend (client_vt toy) demo_c0 = (Inr out, h1)" "length out = 64"
    by (auto split: prod.splits sum.splits)
  then show "\<exists>out h1. bytesToSend (client_vt toy) demo_c0 = (Inr out, h1) \<and> length out = 64
      \<and> copy_all (client_vt toy) [1, 60, 3] demo_c0 = (Inr out, snd (sendCompleted h1))"
    using fragmentation_irrelevant [OF fresh_demo(1) api_run.start, THEN conjunct2, THEN spec,
        of "[1, 60, 3]"] by force
qed

end
