(* ===== verification/Handshake_Network.thy ===== *)
theory Handshake_Network
  imports Handshake_Safety
begin

text \<open>
  A client and a server that talk to each other over a reliable byte stream in each direction,
  through \<open>copyBytesToSend\<close> and \<open>receivedBytes\<close>, with the bytes cut into arbitrary pieces and the
  two sides interleaved arbitrarily. The locale \<open>scripted_peer\<close> describes a peer that follows
  the honest script of messages; both classes are instances of it. The properties: neither side
  ever fails, the exchange cannot get stuck, and at its end both sides hold matching sessions.
\<close>

section \<open>Messages before a step\<close>

fun steps_before :: "step \<Rightarrow> step list" where
  "steps_before Failed = []"
| "steps_before ClientChallenge = []"
| "steps_before ServerChallenge = [ClientChallenge]"
| "steps_before ClientAuth = [ClientChallenge, ServerChallenge]"
| "steps_before ServerAck = [ClientChallenge, ServerChallenge, ClientAuth]"
| "steps_before Finished = [ClientChallenge, ServerChallenge, ClientAuth, ServerAck]"

definition sent_before :: "(step \<Rightarrow> nat) \<Rightarrow> (step \<Rightarrow> bytes) \<Rightarrow> step \<Rightarrow> bytes" where
  "sent_before needs msg s = concat (map msg (filter (\<lambda>t. needs t = 0) (steps_before s)))"

definition rcvd_before :: "(step \<Rightarrow> nat) \<Rightarrow> (step \<Rightarrow> bytes) \<Rightarrow> step \<Rightarrow> bytes" where
  "rcvd_before needs msg s = concat (map msg (filter (\<lambda>t. needs t \<noteq> 0) (steps_before s)))"

lemma steps_before_succ: "live s \<Longrightarrow> steps_before (step_succ s) = steps_before s @ [s]"
  by (cases s) (simp_all add: live_def)

lemma sent_before_succ:
  "live s \<Longrightarrow> sent_before needs msg (step_succ s)
     = sent_before needs msg s @ (if needs s = 0 then msg s else [])"
  by (simp add: sent_before_def steps_before_succ)

lemma rcvd_before_succ:
  "live s \<Longrightarrow> rcvd_before needs msg (step_succ s)
     = rcvd_before needs msg s @ (if needs s \<noteq> 0 then msg s else [])"
  by (simp add: rcvd_before_def steps_before_succ)

lemma steps_before_prefix: "s \<noteq> Failed \<Longrightarrow> prefix (steps_before s) (steps_before Finished)"
  by (cases s) simp_all

lemma rcvd_before_final:
  assumes "s \<noteq> Failed"
  obtains rest where "rcvd_before needs msg Finished = rcvd_before needs msg s @ rest"
proof -
  obtain ts where "steps_before Finished = steps_before s @ ts"
    using steps_before_prefix [OF assms] by (auto simp: prefix_def)
  then show ?thesis
    using that [of "concat (map msg (filter (\<lambda>t. needs t \<noteq> 0) ts))"]
    by (simp add: rcvd_before_def del: steps_before.simps)
qed

section \<open>A peer that follows the script\<close>

text \<open>
  \<open>begins s\<close> is the crypto state at the start of step \<open>s\<close>, \<open>msg s\<close> the message of that step,
  and \<open>ok\<close> what the script needs of the crypto library.
\<close>

locale scripted_peer = handshake_class V needs for V :: vtable and needs :: "step \<Rightarrow> nat" +
  fixes ok :: bool and auth :: "(bytes \<Rightarrow> bool) option"
    and begins :: "step \<Rightarrow> impl_handshake" and msg :: "step \<Rightarrow> bytes"
  assumes msg_len: "ok \<Longrightarrow> needs s \<noteq> 0 \<Longrightarrow> length (msg s) = needs s"
    and accepts: "ok \<Longrightarrow> needs (h_step h) \<noteq> 0 \<Longrightarrow> h_impl h = begins (h_step h) \<Longrightarrow>
      h_clientAuth h = auth \<Longrightarrow>
      receivedBytes_v V (msg (h_step h)) h = (Inr True, h\<lparr>h_impl := begins (step_succ (h_step h))\<rparr>)"
    and produces: "ok \<Longrightarrow> live (h_step h) \<Longrightarrow> needs (h_step h) = 0 \<Longrightarrow> h_impl h = begins (h_step h) \<Longrightarrow>
      fillOutputBuffer_v V h = (Inr (), h\<lparr>h_impl := begins (step_succ (h_step h)),
        h_outputBuffer := msg (h_step h)\<rparr>)"
begin

text \<open>Where a peer is that has sent the bytes \<open>sent\<close> and consumed the bytes \<open>rcvd\<close>.\<close>

inductive peer_at :: "handshake \<Rightarrow> bytes \<Rightarrow> bytes \<Rightarrow> bool" where
  idle: "live (h_step h) \<Longrightarrow> needs (h_step h) = 0 \<Longrightarrow> h_impl h = begins (h_step h) \<Longrightarrow>
    h_inputBuffer h = [] \<Longrightarrow> h_outputBuffer h = [] \<Longrightarrow> h_error h = NoError \<Longrightarrow> h_clientAuth h = auth \<Longrightarrow>
    peer_at h (sent_before needs msg (h_step h)) (rcvd_before needs msg (h_step h))"
| sending: "live (h_step h) \<Longrightarrow> needs (h_step h) = 0 \<Longrightarrow> h_impl h = begins (step_succ (h_step h)) \<Longrightarrow>
    h_inputBuffer h = [] \<Longrightarrow> h_outputBuffer h \<noteq> [] \<Longrightarrow> p @ h_outputBuffer h = msg (h_step h) \<Longrightarrow>
    h_error h = NoError \<Longrightarrow> h_clientAuth h = auth \<Longrightarrow>
    peer_at h (sent_before needs msg (h_step h) @ p) (rcvd_before needs msg (h_step h))"
| receiving: "needs (h_step h) \<noteq> 0 \<Longrightarrow> h_impl h = begins (h_step h) \<Longrightarrow> h_outputBuffer h = [] \<Longrightarrow>
    length (h_inputBuffer h) < needs (h_step h) \<Longrightarrow> h_error h = NoError \<Longrightarrow> h_clientAuth h = auth \<Longrightarrow>
    peer_at h (sent_before needs msg (h_step h))
      (rcvd_before needs msg (h_step h) @ h_inputBuffer h)"
| finish: "h_step h = Finished \<Longrightarrow> h_impl h = begins Finished \<Longrightarrow> h_inputBuffer h = [] \<Longrightarrow>
    h_outputBuffer h = [] \<Longrightarrow> h_error h = NoError \<Longrightarrow> h_clientAuth h = auth \<Longrightarrow>
    peer_at h (sent_before needs msg Finished) (rcvd_before needs msg Finished)"

lemma peer_at_buffers: "peer_at h s r \<Longrightarrow> buffers_ok V h"
  by (induction rule: peer_at.induct) (auto simp: buffers_ok_iff live_def needs_idle dest!: needs_live)

lemma peer_at_not_failed: "peer_at h s r \<Longrightarrow> h_error h = NoError \<and> h_step h \<noteq> Failed"
  by (induction rule: peer_at.induct) (auto simp: live_def needs_idle)

text \<open>Arriving at a step with empty buffers.\<close>

lemma peer_at_arrive:
  assumes "h_step h \<noteq> Failed" "h_impl h = begins (h_step h)" "h_inputBuffer h = []"
    "h_outputBuffer h = []" "h_error h = NoError" "h_clientAuth h = auth"
  shows "peer_at h (sent_before needs msg (h_step h)) (rcvd_before needs msg (h_step h))"
proof (cases "needs (h_step h) = 0")
  case True
  show ?thesis
  proof (cases "h_step h = Finished")
    case True
    with assms show ?thesis using peer_at.finish [of h] by simp
  next
    case False
    with assms True show ?thesis using peer_at.idle [of h] by (simp add: live_def)
  qed
next
  case False
  with assms show ?thesis using peer_at.receiving [of h] by simp
qed

lemma peer_at_sendCompleted:
  assumes "ok" "live (h_step h)" "needs (h_step h) = 0" "h_impl h = begins (step_succ (h_step h))"
    "h_inputBuffer h = []" "h_outputBuffer h \<noteq> []" "h_error h = NoError" "h_clientAuth h = auth"
  shows "peer_at (snd (sendCompleted h)) (sent_before needs msg (h_step h) @ msg (h_step h))
    (rcvd_before needs msg (h_step h))"
proof -
  let ?g = "h\<lparr>h_outputBuffer := [], h_step := step_succ (h_step h)\<rparr>"
  have "snd (sendCompleted h) = ?g"
    using assms nextStep_live [of "h\<lparr>h_outputBuffer := []\<rparr>"] by (simp add: sendCompleted_def)
  moreover have "peer_at ?g (sent_before needs msg (step_succ (h_step h)))
      (rcvd_before needs msg (step_succ (h_step h)))"
    using peer_at_arrive [of ?g] assms step_succ_not_Failed [OF assms(2)] by simp
  ultimately show ?thesis
    using assms(2,3) by (simp add: sent_before_succ rcvd_before_succ)
qed

lemma peer_at_copy:
  assumes "ok" "live (h_step h)" "needs (h_step h) = 0" "bytesToSend V h = (Inr out, g)"
    "h_step g = h_step h" "h_impl g = begins (step_succ (h_step h))" "h_inputBuffer g = []"
    "out \<noteq> []" "p @ out = msg (h_step h)" "h_outputBuffer g = out" "h_error g = NoError"
    "h_clientAuth g = auth" "buffers_ok V h"
  shows "\<exists>k d h'. copyBytesToSend V n h = (Inr (k, d), h') \<and>
    peer_at h' (sent_before needs msg (h_step h) @ p @ d) (rcvd_before needs msg (h_step h))"
proof (cases "n < length out")
  case True
  let ?g = "g\<lparr>h_outputBuffer := drop n out\<rparr>"
  have "peer_at ?g (sent_before needs msg (h_step ?g) @ (p @ take n out))
      (rcvd_before needs msg (h_step ?g))"
    using assms True by (intro peer_at.sending) auto
  then show ?thesis
    using copyBytesToSend_eq [OF assms(13,4,8), of n] True assms(5) by auto
next
  case False
  then show ?thesis
    using copyBytesToSend_eq [OF assms(13,4,8), of n] peer_at_sendCompleted [of g] assms by auto
qed

lemma peer_at_send:
  assumes "ok" "peer_at h s r"
  shows "\<exists>k d h'. copyBytesToSend V n h = (Inr (k, d), h') \<and> peer_at h' (s @ d) r"
  using assms(2)
proof cases
  case idle
  let ?g = "h\<lparr>h_impl := begins (step_succ (h_step h)), h_outputBuffer := msg (h_step h)\<rparr>"
  have f: "fillOutputBuffer_v V h = (Inr (), ?g)"
    using produces [OF assms(1)] idle by blast
  then have "msg (h_step h) \<noteq> []" using fill_output [OF f] idle by simp
  moreover have "bytesToSend V h = (Inr (msg (h_step h)), ?g)"
    using f idle by (simp add: bytesToSend_def live_def)
  ultimately show ?thesis
    using peer_at_copy [of h "msg (h_step h)" ?g "[]" n] idle assms peer_at_buffers by auto
next
  case (sending p)
  then have "bytesToSend V h = (Inr (h_outputBuffer h), h)"
    by (simp add: bytesToSend_def live_def)
  then show ?thesis
    using peer_at_copy [of h "h_outputBuffer h" h p n] sending assms peer_at_buffers by auto
next
  case receiving
  then have "bytesToSend V h = (Inr [], h)"
    using needs_live [OF receiving(3)] fill_idle [of h] by (simp add: bytesToSend_def live_def)
  then show ?thesis
    using copyBytesToSend_idle [OF peer_at_buffers [OF assms(2)]] assms(2) by auto
next
  case finish
  then have "bytesToSend V h = (Inr [], h)" by (simp add: bytesToSend_def)
  then show ?thesis
    using copyBytesToSend_idle [OF peer_at_buffers [OF assms(2)]] assms(2) by auto
qed

lemma peer_at_accept:
  assumes "ok" "needs (h_step h) \<noteq> 0" "h_impl h = begins (h_step h)" "h_outputBuffer h = []"
    "h_inputBuffer h = msg (h_step h)" "h_error h = NoError" "h_clientAuth h = auth"
  shows "\<exists>h'. readCompleted V h = (Inr True, h') \<and>
    peer_at h' (sent_before needs msg (h_step h)) (rcvd_before needs msg (h_step h) @ msg (h_step h))"
proof -
  let ?g = "h\<lparr>h_impl := begins (step_succ (h_step h)), h_step := step_succ (h_step h),
     h_inputBuffer := []\<rparr>"
  note l = needs_live [OF assms(2)]
  have "readCompleted V h = (Inr True, ?g)"
    using accepts [OF assms(1,2,3,7)] assms msg_len [OF assms(1,2)]
      nextStep_live [of "h\<lparr>h_impl := begins (step_succ (h_step h))\<rparr>"] l
    by (simp add: readCompleted_def needed)
  moreover have "peer_at ?g (sent_before needs msg (step_succ (h_step h)))
      (rcvd_before needs msg (step_succ (h_step h)))"
    using peer_at_arrive [of ?g] assms step_succ_not_Failed [OF l] by simp
  ultimately show ?thesis
    using assms(2) l by (simp add: sent_before_succ rcvd_before_succ)
qed

lemma peer_at_complete:
  assumes "ok" "needs (h_step h) \<noteq> 0" "h_impl h = begins (h_step h)" "h_outputBuffer h = []"
    "length (h_inputBuffer h) < needs (h_step h)" "h_error h = NoError" "h_clientAuth h = auth"
    and full: "needs (h_step h) \<le> length (h_inputBuffer h) + length xs"
    and pre: "prefix (rcvd_before needs msg (h_step h) @ h_inputBuffer h @ xs)
      (rcvd_before needs msg Finished)"
  shows "\<exists>h'. receivedBytes V xs h = (Inr (int (needs (h_step h) - length (h_inputBuffer h))), h')
    \<and> peer_at h' (sent_before needs msg (h_step h)) (rcvd_before needs msg (h_step h) @ h_inputBuffer h
        @ take (needs (h_step h) - length (h_inputBuffer h)) xs)"
proof -
  note l = needs_live [OF assms(2)]
  let ?n = "needs (h_step h) - length (h_inputBuffer h)"
  let ?g = "h\<lparr>h_inputBuffer := h_inputBuffer h @ take ?n xs\<rparr>"
  obtain rest where "rcvd_before needs msg Finished
      = rcvd_before needs msg (step_succ (h_step h)) @ rest"
    by (rule rcvd_before_final [OF step_succ_not_Failed [OF l]])
  then have "rcvd_before needs msg Finished = rcvd_before needs msg (h_step h) @ msg (h_step h) @ rest"
    using assms(2) l by (simp add: rcvd_before_succ)
  with pre have "prefix (h_inputBuffer h @ xs) (msg (h_step h) @ rest)" by simp
  then have m: "h_inputBuffer h @ take ?n xs = msg (h_step h)"
    using take_of_prefix [of "h_inputBuffer h @ xs" "msg (h_step h)" rest] full assms(5)
      msg_len [OF assms(1,2)] by simp
  obtain g where g: "readCompleted V ?g = (Inr True, g)"
    "peer_at g (sent_before needs msg (h_step h)) (rcvd_before needs msg (h_step h) @ msg (h_step h))"
    using peer_at_accept [of ?g] assms(1-4,6,7) m by auto
  then have "receivedBytes V xs h = (Inr (int ?n), g)"
    using receivedBytes_complete [OF assms(2), of xs] assms(4,5,6) full
      peer_at_not_failed [OF g(2)] by simp
  then show ?thesis using g(2) m by auto
qed

lemma peer_at_receive:
  assumes "ok" "peer_at h s r" "prefix (r @ xs) (rcvd_before needs msg Finished)"
  shows "\<exists>k h'. receivedBytes V xs h = (Inr k, h') \<and> k \<le> int (length xs)
    \<and> peer_at h' s (r @ take (nat k) xs)"
  using assms(2)
proof cases
  case idle
  then show ?thesis
    using assms(2) by (auto simp: receivedBytes_def needed live_def)
next
  case (sending p)
  then show ?thesis
    using assms(2) by (auto simp: receivedBytes_def needed live_def)
next
  case finish
  then show ?thesis
    using assms(2) by (auto simp: receivedBytes_def)
next
  case receiving
  show ?thesis
  proof (cases "length (h_inputBuffer h) + length xs < needs (h_step h)")
    case True
    let ?g = "h\<lparr>h_inputBuffer := h_inputBuffer h @ xs\<rparr>"
    have "peer_at ?g (sent_before needs msg (h_step ?g))
        (rcvd_before needs msg (h_step ?g) @ h_inputBuffer ?g)"
      using receiving True by (intro peer_at.receiving) auto
    then show ?thesis
      using receivedBytes_partial [OF receiving(3) True] receiving by auto
  next
    case full: False
    let ?n = "needs (h_step h) - length (h_inputBuffer h)"
    obtain g where "receivedBytes V xs h = (Inr (int ?n), g)"
      "peer_at g s (r @ take ?n xs)"
      using peer_at_complete [of h xs] assms(1,3) receiving full by auto
    moreover have "int ?n \<le> int (length xs)" using full by simp
    ultimately show ?thesis by (metis nat_int)
  qed
qed

text \<open>Progress: a peer that is to send sends something, one that awaits bytes takes some.\<close>

lemma peer_at_sent_prefix:
  assumes "peer_at h s r"
  shows "prefix s (sent_before needs msg Finished)"
proof -
  have le: "prefix (sent_before needs msg t) (sent_before needs msg Finished)" if "t \<noteq> Failed" for t
    using steps_before_prefix [OF that]
    by (auto simp: sent_before_def prefix_def simp del: steps_before.simps)
  show ?thesis
    using assms
  proof cases
    case (sending p)
    then have "prefix s (sent_before needs msg (step_succ (h_step h)))"
      by (simp add: sent_before_succ flip: sending(8))
    moreover have "prefix \<dots> (sent_before needs msg Finished)"
      using le step_succ_not_Failed sending by blast
    ultimately show ?thesis by (rule prefix_order.trans)
  next
    case receiving
    then show ?thesis using le needs_live [OF receiving(3)] by (simp add: live_def)
  qed (use le in \<open>simp_all add: live_def\<close>)
qed

lemma peer_at_send_some:
  assumes "ok" "peer_at h s r" "live (h_step h)" "needs (h_step h) = 0"
  shows "\<exists>n k d h'. copyBytesToSend V n h = (Inr (k, d), h') \<and> d \<noteq> [] \<and> peer_at h' (s @ d) r"
proof -
  note b = peer_at_buffers [OF assms(2)]
  obtain out g where out: "bytesToSend V h = (Inr out, g)" "out \<noteq> []"
    using assms(2)
  proof cases
    case idle
    note f = produces [OF assms(1) idle(3,4,5)]
    then show ?thesis
      using that [of "msg (h_step h)"] fill_output [OF f] idle by (simp add: bytesToSend_def live_def)
  next
    case (sending p)
    then show ?thesis using that [of "h_outputBuffer h" h] by (simp add: bytesToSend_def live_def)
  qed (use assms(3,4) in \<open>simp_all add: live_def\<close>)
  have "copyBytesToSend V (length out) h = (Inr (int (length out), out), snd (sendCompleted g))"
    using copyBytesToSend_eq [OF b out] by simp
  with peer_at_send [OF assms(1,2), of "length out"] out(2) show ?thesis by fastforce
qed

lemma peer_at_receive_some:
  assumes "ok" "peer_at h s r" "needs (h_step h) \<noteq> 0" "xs \<noteq> []"
    "prefix (r @ xs) (rcvd_before needs msg Finished)"
  shows "\<exists>k h'. receivedBytes V xs h = (Inr k, h') \<and> 0 < k \<and> k \<le> int (length xs)
    \<and> peer_at h' s (r @ take (nat k) xs)"
proof -
  obtain k h' where k: "receivedBytes V xs h = (Inr k, h')" "k \<le> int (length xs)"
    "peer_at h' s (r @ take (nat k) xs)"
    using peer_at_receive [OF assms(1,2,5)] by blast
  have len: "length (h_inputBuffer h) < needs (h_step h)"
    using assms(2) by cases (use assms(3) needs_idle in auto)
  have "0 < k"
  proof (cases "length (h_inputBuffer h) + length xs < needs (h_step h)")
    case True
    then show ?thesis using receivedBytes_partial [OF assms(3) True] k(1) assms(4) by simp
  next
    case False
    then show ?thesis
      using receivedBytes_complete [OF assms(3), of xs] len k(1) peer_at_not_failed [OF k(3)]
      by (auto simp: ebind_def split: prod.splits sum.splits if_splits)
  qed
  with k show ?thesis by blast
qed

end

section \<open>The script of an honest exchange\<close>

definition script :: "crypto \<Rightarrow> bytes \<Rightarrow> bytes \<Rightarrow> bytes \<Rightarrow> bytes \<Rightarrow> bytes \<Rightarrow> step \<Rightarrow> bytes" where
  "script C K A a B b s = (case s of
      ClientChallenge \<Rightarrow> createChallenge C (client0 C K A a (ed_public C B))
    | ServerChallenge \<Rightarrow> createChallenge C (server1 C K a B b)
    | ClientAuth \<Rightarrow> msg_auth C K A a B b
    | ServerAck \<Rightarrow> msg_ack C K A a B b
    | _ \<Rightarrow> [])"

definition client_begins :: "crypto \<Rightarrow> bytes \<Rightarrow> bytes \<Rightarrow> bytes \<Rightarrow> bytes \<Rightarrow> bytes \<Rightarrow> step \<Rightarrow> impl_handshake" where
  "client_begins C K A a B b s = (case s of
      ClientAuth \<Rightarrow> client1 C K A a B b
    | ServerAck \<Rightarrow> client2 C K A a B b
    | Finished \<Rightarrow> client3 C K A a B b
    | _ \<Rightarrow> client0 C K A a (ed_public C B))"

definition server_begins :: "crypto \<Rightarrow> bytes \<Rightarrow> bytes \<Rightarrow> bytes \<Rightarrow> bytes \<Rightarrow> bytes \<Rightarrow> step \<Rightarrow> impl_handshake" where
  "server_begins C K A a B b s = (case s of
      ServerChallenge \<Rightarrow> server1 C K a B b
    | ClientAuth \<Rightarrow> server1 C K a B b
    | ServerAck \<Rightarrow> server2 C K A a B b
    | Finished \<Rightarrow> server3 C K A a B b
    | _ \<Rightarrow> server0 C K B b)"

definition authorizes :: "(bytes \<Rightarrow> bool) option \<Rightarrow> bytes \<Rightarrow> bool" where
  "authorizes auth pk \<longleftrightarrow> (case auth of None \<Rightarrow> True | Some f \<Rightarrow> f pk)"

lemma createChallenge_length [simp]:
  "crypto_ok C \<Longrightarrow> length (createChallenge C (client0 C K A a Bp)) = 64"
  "crypto_ok C \<Longrightarrow> length (createChallenge C (server1 C K a B b)) = 64"
  by (simp_all add: createChallenge_def peer_defs kx_public_len)

lemma script_length:
  "crypto_ok C \<Longrightarrow> length (script C K A a B b s)
     = (case s of ClientChallenge \<Rightarrow> 64 | ServerChallenge \<Rightarrow> 64 | ClientAuth \<Rightarrow> 112 | ServerAck \<Rightarrow> 80
        | _ \<Rightarrow> 0)"
  by (cases s) (simp_all add: script_def)

lemma client_accepts:
  assumes "crypto_ok C" "client_needs (h_step h) \<noteq> 0" "h_impl h = client_begins C K A a B b (h_step h)"
  shows "client_receivedBytes C (script C K A a B b (h_step h)) h
    = (Inr True, h\<lparr>h_impl := client_begins C K A a B b (step_succ (h_step h))\<rparr>)"
  using assms client_verifies_server_challenge client_verifies_ack
  by (cases "h_step h")
    (simp_all add: client_receivedBytes_def client_begins_def script_def client_needs_def)

lemma client_produces:
  assumes "crypto_ok C" "live (h_step h)" "client_needs (h_step h) = 0"
    "h_impl h = client_begins C K A a B b (h_step h)"
  shows "client_fillOutputBuffer C h = (Inr (), h\<lparr>h_impl := client_begins C K A a B b (step_succ (h_step h)),
     h_outputBuffer := script C K A a B b (h_step h)\<rparr>)"
  using assms client_creates_auth
  by (cases "h_step h")
    (simp_all add: client_fillOutputBuffer_def client_begins_def script_def client_needs_def live_def)

lemma server_accepts:
  assumes "crypto_ok C" "authorizes auth (ed_public C A)" "server_needs (h_step h) \<noteq> 0"
    "h_impl h = server_begins C K A a B b (h_step h)" "h_clientAuth h = auth"
  shows "server_receivedBytes C (script C K A a B b (h_step h)) h
    = (Inr True, h\<lparr>h_impl := server_begins C K A a B b (step_succ (h_step h))\<rparr>)"
  using assms server_verifies_client_challenge server_verifies_auth
  by (cases "h_step h")
    (auto simp: server_receivedBytes_def server_begins_def script_def server_needs_def
      authorizes_def getPeerPublicKey_def server2_def Let_def split: option.split)

lemma server_produces:
  assumes "crypto_ok C" "live (h_step h)" "server_needs (h_step h) = 0"
    "h_impl h = server_begins C K A a B b (h_step h)"
  shows "server_fillOutputBuffer C h = (Inr (), h\<lparr>h_impl := server_begins C K A a B b (step_succ (h_step h)),
     h_outputBuffer := script C K A a B b (h_step h)\<rparr>)"
  using assms server_creates_ack
  by (cases "h_step h")
    (simp_all add: server_fillOutputBuffer_def server_begins_def script_def server_needs_def live_def)

interpretation honest_client: scripted_peer "client_vt C" client_needs "crypto_ok C" None
    "client_begins C K A a B b" "script C K A a B b" for C K A a B b
proof (unfold_locales, goal_cases)
  case (1 s)
  then show ?case by (cases s) (simp_all add: script_length client_needs_def)
next
  case (2 h)
  then show ?case by (simp add: client_accepts)
next
  case (3 h)
  then show ?case by (simp add: client_produces)
qed

interpretation honest_server: scripted_peer "server_vt C" server_needs
    "crypto_ok C \<and> authorizes auth (ed_public C A)" auth
    "server_begins C K A a B b" "script C K A a B b" for C auth K A a B b
proof (unfold_locales, goal_cases)
  case (1 s)
  then show ?case by (cases s) (simp_all add: script_length server_needs_def)
next
  case (2 h)
  then show ?case using server_accepts [of C auth A h K a B b] by simp
next
  case (3 h)
  then show ?case by (simp add: server_produces)
qed

section \<open>Two peers and the bytes in flight\<close>

record network =
  n_client :: handshake
  n_server :: handshake
  n_c2s :: bytes
  n_s2c :: bytes

text \<open>
  A peer copies out some bytes, which enter the stream; or it is handed any number of the bytes
  at the head of the stream, of which those it consumes leave it.
\<close>

inductive net_step :: "crypto \<Rightarrow> network \<Rightarrow> network \<Rightarrow> bool" for C where
  client_sends: "copyBytesToSend (client_vt C) n (n_client N) = (Inr (k, d), h) \<Longrightarrow>
    net_step C N (N\<lparr>n_client := h, n_c2s := n_c2s N @ d\<rparr>)"
| server_sends: "copyBytesToSend (server_vt C) n (n_server N) = (Inr (k, d), h) \<Longrightarrow>
    net_step C N (N\<lparr>n_server := h, n_s2c := n_s2c N @ d\<rparr>)"
| client_receives: "receivedBytes (client_vt C) (take n (n_s2c N)) (n_client N) = (Inr k, h) \<Longrightarrow>
    net_step C N (N\<lparr>n_client := h, n_s2c := drop (nat k) (n_s2c N)\<rparr>)"
| server_receives: "receivedBytes (server_vt C) (take n (n_c2s N)) (n_server N) = (Inr k, h) \<Longrightarrow>
    net_step C N (N\<lparr>n_server := h, n_c2s := drop (nat k) (n_c2s N)\<rparr>)"

inductive net_run :: "crypto \<Rightarrow> network \<Rightarrow> network \<Rightarrow> bool" for C where
  net_start: "net_run C N N"
| net_next: "net_run C N N' \<Longrightarrow> net_step C N' N'' \<Longrightarrow> net_run C N N''"

definition honest_net :: "crypto \<Rightarrow> bytes \<Rightarrow> bytes \<Rightarrow> bytes \<Rightarrow> bytes \<Rightarrow> bytes \<Rightarrow> (bytes \<Rightarrow> bool) option
    \<Rightarrow> network" where
  "honest_net C K A a B b auth =
     \<lparr>n_client = ClientHandshake C \<lparr>appID = K, keyPair = KeyPair_of_signing C A\<rparr> (ed_public C B) a,
      n_server = setClientAuthorizer auth
        (ServerHandshake C \<lparr>appID = K, keyPair = KeyPair_of_signing C B\<rparr> b),
      n_c2s = [], n_s2c = []\<rparr>"

definition c_final :: "crypto \<Rightarrow> bytes \<Rightarrow> bytes \<Rightarrow> bytes \<Rightarrow> bytes \<Rightarrow> bytes \<Rightarrow> bytes" where
  "c_final C K A a B b = sent_before client_needs (script C K A a B b) Finished"

definition s_final :: "crypto \<Rightarrow> bytes \<Rightarrow> bytes \<Rightarrow> bytes \<Rightarrow> bytes \<Rightarrow> bytes \<Rightarrow> bytes" where
  "s_final C K A a B b = sent_before server_needs (script C K A a B b) Finished"

lemma final_received:
  "rcvd_before server_needs (script C K A a B b) Finished = c_final C K A a B b"
  "rcvd_before client_needs (script C K A a B b) Finished = s_final C K A a B b"
  by (simp_all add: rcvd_before_def sent_before_def c_final_def s_final_def client_needs_def
      server_needs_def)

text \<open>Both peers follow the script, and every stream holds what was sent but not yet consumed.\<close>

definition net_inv :: "crypto \<Rightarrow> bytes \<Rightarrow> bytes \<Rightarrow> bytes \<Rightarrow> bytes \<Rightarrow> bytes \<Rightarrow> (bytes \<Rightarrow> bool) option
    \<Rightarrow> network \<Rightarrow> bytes \<Rightarrow> bytes \<Rightarrow> bytes \<Rightarrow> bytes \<Rightarrow> bool" where
  "net_inv C K A a B b auth N sc rc ss rs \<longleftrightarrow>
     honest_client.peer_at C K A a B b (n_client N) sc rc
     \<and> honest_server.peer_at auth C K A a B b (n_server N) ss rs
     \<and> sc = rs @ n_c2s N \<and> ss = rc @ n_s2c N"

lemma net_inv_streams:
  assumes "net_inv C K A a B b auth N sc rc ss rs"
  shows "prefix (rs @ take n (n_c2s N)) (rcvd_before server_needs (script C K A a B b) Finished)"
    "prefix (rc @ take n (n_s2c N)) (rcvd_before client_needs (script C K A a B b) Finished)"
proof -
  have "prefix sc (c_final C K A a B b)" "prefix ss (s_final C K A a B b)"
    using assms honest_client.peer_at_sent_prefix honest_server.peer_at_sent_prefix
    by (auto simp: net_inv_def c_final_def s_final_def)
  moreover have "prefix (rs @ take n (n_c2s N)) sc" "prefix (rc @ take n (n_s2c N)) ss"
    using assms by (simp_all add: net_inv_def take_is_prefix)
  ultimately show "prefix (rs @ take n (n_c2s N)) (rcvd_before server_needs (script C K A a B b) Finished)"
    "prefix (rc @ take n (n_s2c N)) (rcvd_before client_needs (script C K A a B b) Finished)"
    by (auto simp: final_received intro: prefix_order.trans)
qed

lemma take_take_drop:
  assumes "k \<le> int (length (take n xs))"
  shows "take (nat k) (take n xs) @ drop (nat k) xs = xs"
  using assms by (simp add: min_def split: if_splits)

lemma net_step_inv:
  assumes ok: "crypto_ok C" "authorizes auth (ed_public C A)" and step: "net_step C N N'"
    and inv: "net_inv C K A a B b auth N sc rc ss rs"
  shows "\<exists>sc rc ss rs. net_inv C K A a B b auth N' sc rc ss rs"
proof -
  note c = inv [unfolded net_inv_def, THEN conjunct1]
    and s = inv [unfolded net_inv_def, THEN conjunct2, THEN conjunct1]
  have ok': "crypto_ok C \<and> authorizes auth (ed_public C A)" using ok by blast
  show ?thesis
    using step
  proof cases
    case (client_sends n k d h)
    then have "honest_client.peer_at C K A a B b h (sc @ d) rc"
      using honest_client.peer_at_send [OF ok(1) c, of n] by auto
    with client_sends inv have "net_inv C K A a B b auth N' (sc @ d) rc ss rs"
      by (auto simp: net_inv_def)
    then show ?thesis by blast
  next
    case (server_sends n k d h)
    then have "honest_server.peer_at auth C K A a B b h (ss @ d) rs"
      using honest_server.peer_at_send [OF ok' s, of n] by auto
    with server_sends inv have "net_inv C K A a B b auth N' sc rc (ss @ d) rs"
      by (auto simp: net_inv_def)
    then show ?thesis by blast
  next
    case (client_receives n k h)
    then have k: "k \<le> int (length (take n (n_s2c N)))"
      "honest_client.peer_at C K A a B b h sc (rc @ take (nat k) (take n (n_s2c N)))"
      using honest_client.peer_at_receive [OF ok(1) c net_inv_streams(2) [OF inv, of n]] by auto
    with client_receives inv take_take_drop [OF k(1)]
    have "net_inv C K A a B b auth N' sc (rc @ take (nat k) (take n (n_s2c N))) ss rs"
      by (auto simp: net_inv_def)
    then show ?thesis by blast
  next
    case (server_receives n k h)
    then have k: "k \<le> int (length (take n (n_c2s N)))"
      "honest_server.peer_at auth C K A a B b h ss (rs @ take (nat k) (take n (n_c2s N)))"
      using honest_server.peer_at_receive [OF ok' s net_inv_streams(1) [OF inv, of n]] by auto
    with server_receives inv take_take_drop [OF k(1)]
    have "net_inv C K A a B b auth N' sc rc ss (rs @ take (nat k) (take n (n_c2s N)))"
      by (auto simp: net_inv_def)
    then show ?thesis by blast
  qed
qed

lemma honest_net_inv: "net_inv C K A a B b auth (honest_net C K A a B b auth) [] [] [] []"
  using honest_client.peer_at_arrive [of "n_client (honest_net C K A a B b auth)" C K A a B b]
    honest_server.peer_at_arrive [of "n_server (honest_net C K A a B b auth)" C K A a B b auth]
  by (simp add: net_inv_def honest_net_def ClientHandshake_def ServerHandshake_def
      new_Handshake_def setClientAuthorizer_def client_begins_def server_begins_def client0_def
      server0_def KeyPair_of_signing_def sent_before_def rcvd_before_def)

lemma net_run_inv:
  assumes "net_run C N N'" "crypto_ok C" "authorizes auth (ed_public C A)"
    "net_inv C K A a B b auth N sc rc ss rs"
  shows "\<exists>sc rc ss rs. net_inv C K A a B b auth N' sc rc ss rs"
  using assms by (induction rule: net_run.induct) (blast dest: net_step_inv)+

section \<open>Progress\<close>

lemma client_waiting_lengths:
  assumes "crypto_ok C" "honest_client.peer_at C K A a B b h s r" "client_needs (h_step h) \<noteq> 0"
  shows "length s = 64 \<and> length r < 64 \<or> length s = 176 \<and> length r < 144"
  using assms(2)
proof cases
  case receiving
  then show ?thesis
    using assms(1,3)
    by (cases "h_step h") (auto simp: client_needs_def sent_before_def rcvd_before_def script_length)
qed (use assms(3) in \<open>auto simp: client_needs_def\<close>)

lemma server_waiting_lengths:
  assumes "crypto_ok C" "honest_server.peer_at auth C K A a B b h s r" "server_needs (h_step h) \<noteq> 0"
  shows "length s = 0 \<and> length r < 64 \<or> length s = 64 \<and> length r < 176"
  using assms(2)
proof cases
  case receiving
  then show ?thesis
    using assms(1,3)
    by (cases "h_step h") (auto simp: server_needs_def sent_before_def rcvd_before_def script_length)
qed (use assms(3) in \<open>auto simp: server_needs_def\<close>)

lemma final_lengths:
  assumes "crypto_ok C"
  shows "length (c_final C K A a B b) = 176" "length (s_final C K A a B b) = 144"
  using assms
  by (simp_all add: c_final_def s_final_def sent_before_def client_needs_def server_needs_def
      script_length)

lemma finished_lengths:
  assumes "crypto_ok C"
  shows "honest_client.peer_at C K A a B b h s r \<Longrightarrow> finished h \<Longrightarrow>
      length s = 176 \<and> length r = 144 \<and> h_impl h = client3 C K A a B b"
    and "honest_server.peer_at auth C K A a B b h' s' r' \<Longrightarrow> finished h' \<Longrightarrow>
      length s' = 144 \<and> length r' = 176 \<and> h_impl h' = server3 C K A a B b"
proof -
  assume "honest_client.peer_at C K A a B b h s r" "finished h"
  then show "length s = 176 \<and> length r = 144 \<and> h_impl h = client3 C K A a B b"
    by (cases rule: honest_client.peer_at.cases)
      (auto simp: finished_def live_def client_needs_def client_begins_def final_received
        final_lengths [OF assms] simp flip: c_final_def)
next
  assume "honest_server.peer_at auth C K A a B b h' s' r'" "finished h'"
  then show "length s' = 144 \<and> length r' = 176 \<and> h_impl h' = server3 C K A a B b"
    by (cases rule: honest_server.peer_at.cases)
      (auto simp: finished_def live_def server_needs_def server_begins_def final_received
        final_lengths [OF assms] simp flip: s_final_def)
qed

text \<open>What is left to do: bytes not yet sent count twice, bytes in flight once.\<close>

definition net_left :: "network \<Rightarrow> bytes \<Rightarrow> bytes \<Rightarrow> nat" where
  "net_left N sc ss = 2 * (176 - length sc) + 2 * (144 - length ss)
     + length (n_c2s N) + length (n_s2c N)"

lemma net_can_move:
  assumes ok: "crypto_ok C" "authorizes auth (ed_public C A)"
    and inv: "net_inv C K A a B b auth N sc rc ss rs"
    and unfinished: "\<not> (finished (n_client N) \<and> finished (n_server N))"
  shows "live (h_step (n_client N)) \<and> client_needs (h_step (n_client N)) = 0
    \<or> live (h_step (n_server N)) \<and> server_needs (h_step (n_server N)) = 0
    \<or> client_needs (h_step (n_client N)) \<noteq> 0 \<and> n_s2c N \<noteq> []
    \<or> server_needs (h_step (n_server N)) \<noteq> 0 \<and> n_c2s N \<noteq> []"
proof (rule ccontr)
  note c = inv [unfolded net_inv_def, THEN conjunct1]
    and s = inv [unfolded net_inv_def, THEN conjunct2, THEN conjunct1]
  have nf: "h_step (n_client N) \<noteq> Failed" "h_step (n_server N) \<noteq> Failed"
    using honest_client.peer_at_not_failed [OF c] honest_server.peer_at_not_failed [OF s] by auto
  assume stuck: "\<not> ?thesis"
  then have "finished (n_client N) \<or> client_needs (h_step (n_client N)) \<noteq> 0 \<and> ss = rc"
    "finished (n_server N) \<or> server_needs (h_step (n_server N)) \<noteq> 0 \<and> sc = rs"
    using nf inv by (auto simp: live_def finished_def net_inv_def)
  with unfinished show False
    using finished_lengths(1) [OF ok(1) c] finished_lengths(2) [OF ok(1) s]
      client_waiting_lengths [OF ok(1) c] server_waiting_lengths [OF ok(1) s] inv
    by (auto simp: net_inv_def)
qed

text \<open>A step after which less is left to do.\<close>

definition net_progress :: "crypto \<Rightarrow> bytes \<Rightarrow> bytes \<Rightarrow> bytes \<Rightarrow> bytes \<Rightarrow> bytes \<Rightarrow> (bytes \<Rightarrow> bool) option
    \<Rightarrow> network \<Rightarrow> bytes \<Rightarrow> bytes \<Rightarrow> bool" where
  "net_progress C K A a B b auth N sc ss \<longleftrightarrow> (\<exists>N' sc' rc' ss' rs'. net_step C N N'
     \<and> net_inv C K A a B b auth N' sc' rc' ss' rs' \<and> net_left N' sc' ss' < net_left N sc ss)"

lemma client_send_progress:
  assumes ok: "crypto_ok C" and inv: "net_inv C K A a B b auth N sc rc ss rs"
    and cs: "live (h_step (n_client N))" "client_needs (h_step (n_client N)) = 0"
  shows "net_progress C K A a B b auth N sc ss"
proof -
  obtain n k d h where d: "copyBytesToSend (client_vt C) n (n_client N) = (Inr (k, d), h)" "d \<noteq> []"
    "honest_client.peer_at C K A a B b h (sc @ d) rc"
    using honest_client.peer_at_send_some [OF ok inv [unfolded net_inv_def, THEN conjunct1] cs] by blast
  let ?N = "N\<lparr>n_client := h, n_c2s := n_c2s N @ d\<rparr>"
  have "length (sc @ d) \<le> 176"
    using honest_client.peer_at_sent_prefix [OF d(3), THEN prefix_length_le] final_lengths [OF ok]
    by (simp add: c_final_def)
  then have "net_left ?N (sc @ d) ss < net_left N sc ss" using d(2) by (cases d) (auto simp: net_left_def)
  moreover have "net_inv C K A a B b auth ?N (sc @ d) rc ss rs" using inv d by (auto simp: net_inv_def)
  ultimately show ?thesis using net_step.client_sends [OF d(1)] unfolding net_progress_def by blast
qed

lemma server_send_progress:
  assumes ok: "crypto_ok C" "authorizes auth (ed_public C A)"
    and inv: "net_inv C K A a B b auth N sc rc ss rs"
    and cs: "live (h_step (n_server N))" "server_needs (h_step (n_server N)) = 0"
  shows "net_progress C K A a B b auth N sc ss"
proof -
  obtain n k d h where d: "copyBytesToSend (server_vt C) n (n_server N) = (Inr (k, d), h)" "d \<noteq> []"
    "honest_server.peer_at auth C K A a B b h (ss @ d) rs"
    using honest_server.peer_at_send_some [OF conjI [OF ok]
        inv [unfolded net_inv_def, THEN conjunct2, THEN conjunct1] cs] by blast
  let ?N = "N\<lparr>n_server := h, n_s2c := n_s2c N @ d\<rparr>"
  have "length (ss @ d) \<le> 144"
    using honest_server.peer_at_sent_prefix [OF d(3), THEN prefix_length_le] final_lengths [OF ok(1)]
    by (simp add: s_final_def)
  then have "net_left ?N sc (ss @ d) < net_left N sc ss" using d(2) by (cases d) (auto simp: net_left_def)
  moreover have "net_inv C K A a B b auth ?N sc rc (ss @ d) rs" using inv d by (auto simp: net_inv_def)
  ultimately show ?thesis using net_step.server_sends [OF d(1)] unfolding net_progress_def by blast
qed

lemma client_receive_progress:
  assumes ok: "crypto_ok C" and inv: "net_inv C K A a B b auth N sc rc ss rs"
    and cr: "client_needs (h_step (n_client N)) \<noteq> 0" "n_s2c N \<noteq> []"
  shows "net_progress C K A a B b auth N sc ss"
proof -
  have "prefix (rc @ n_s2c N) (rcvd_before client_needs (script C K A a B b) Finished)"
    using net_inv_streams(2) [OF inv, of "length (n_s2c N)"] by simp
  then obtain k h where k: "receivedBytes (client_vt C) (take (length (n_s2c N)) (n_s2c N)) (n_client N)
      = (Inr k, h)" "0 < k" "k \<le> int (length (n_s2c N))"
    "honest_client.peer_at C K A a B b h sc (rc @ take (nat k) (n_s2c N))"
    using honest_client.peer_at_receive_some [OF ok inv [unfolded net_inv_def, THEN conjunct1] cr] by auto
  let ?N = "N\<lparr>n_client := h, n_s2c := drop (nat k) (n_s2c N)\<rparr>"
  have "net_inv C K A a B b auth ?N sc (rc @ take (nat k) (n_s2c N)) ss rs"
    using inv k by (auto simp: net_inv_def)
  moreover have "net_left ?N sc ss < net_left N sc ss" using k(2) cr(2) by (auto simp: net_left_def)
  ultimately show ?thesis using net_step.client_receives [OF k(1)] unfolding net_progress_def by blast
qed

lemma server_receive_progress:
  assumes ok: "crypto_ok C" "authorizes auth (ed_public C A)"
    and inv: "net_inv C K A a B b auth N sc rc ss rs"
    and sr: "server_needs (h_step (n_server N)) \<noteq> 0" "n_c2s N \<noteq> []"
  shows "net_progress C K A a B b auth N sc ss"
proof -
  have "prefix (rs @ n_c2s N) (rcvd_before server_needs (script C K A a B b) Finished)"
    using net_inv_streams(1) [OF inv, of "length (n_c2s N)"] by simp
  then obtain k h where k: "receivedBytes (server_vt C) (take (length (n_c2s N)) (n_c2s N)) (n_server N)
      = (Inr k, h)" "0 < k" "k \<le> int (length (n_c2s N))"
    "honest_server.peer_at auth C K A a B b h ss (rs @ take (nat k) (n_c2s N))"
    using honest_server.peer_at_receive_some [OF conjI [OF ok]
        inv [unfolded net_inv_def, THEN conjunct2, THEN conjunct1] sr] by auto
  let ?N = "N\<lparr>n_server := h, n_c2s := drop (nat k) (n_c2s N)\<rparr>"
  have "net_inv C K A a B b auth ?N sc rc ss (rs @ take (nat k) (n_c2s N))"
    using inv k by (auto simp: net_inv_def)
  moreover have "net_left ?N sc ss < net_left N sc ss" using k(2) sr(2) by (auto simp: net_left_def)
  ultimately show ?thesis using net_step.server_receives [OF k(1)] unfolding net_progress_def by blast
qed

lemma net_moves:
  assumes "crypto_ok C" "authorizes auth (ed_public C A)"
    and "net_inv C K A a B b auth N sc rc ss rs"
    and "\<not> (finished (n_client N) \<and> finished (n_server N))"
  shows "net_progress C K A a B b auth N sc ss"
  using net_can_move [OF assms] client_send_progress [OF assms(1,3)] server_send_progress [OF assms(1-3)]
    client_receive_progress [OF assms(1,3)] server_receive_progress [OF assms(1-3)] by blast

lemma net_run_trans: "net_run C N' N'' \<Longrightarrow> net_run C N N' \<Longrightarrow> net_run C N N''"
  by (induction rule: net_run.induct) (auto intro: net_run.intros)

lemma net_inv_completes:
  assumes "crypto_ok C" "authorizes auth (ed_public C A)"
  shows "net_inv C K A a B b auth N sc rc ss rs \<Longrightarrow>
    \<exists>N'. net_run C N N' \<and> finished (n_client N') \<and> finished (n_server N')"
proof (induction "net_left N sc ss" arbitrary: N sc rc ss rs rule: less_induct)
  case less
  show ?case
  proof (cases "finished (n_client N) \<and> finished (n_server N)")
    case True
    then show ?thesis using net_run.net_start by blast
  next
    case False
    obtain N1 sc1 rc1 ss1 rs1 where N1: "net_step C N N1"
      "net_inv C K A a B b auth N1 sc1 rc1 ss1 rs1" "net_left N1 sc1 ss1 < net_left N sc ss"
      using net_moves [OF assms less.prems False] unfolding net_progress_def by blast
    obtain N' where "net_run C N1 N'" "finished (n_client N')" "finished (n_server N')"
      using less.hyps [OF N1(3,2)] by blast
    then show ?thesis
      using net_run_trans [OF _ net_run.net_next [OF net_run.net_start N1(1)]] by blast
  qed
qed

section \<open>Properties\<close>

lemma honest_run_sessions:
  assumes "crypto_ok C" "authorizes auth (ed_public C A)"
    "net_run C (honest_net C K A a B b auth) N"
  shows "h_error (n_client N) = NoError \<and> h_error (n_server N) = NoError
    \<and> (finished (n_client N) \<and> finished (n_server N) \<longrightarrow>
        get_session C (n_client N) = Inr (client_keys C K A a B b)
        \<and> get_session C (n_server N) = Inr (server_keys C K A a B b)
        \<and> matching_keys (client_keys C K A a B b) (server_keys C K A a B b))"
proof -
  obtain sc rc ss rs where inv: "net_inv C K A a B b auth N sc rc ss rs"
    using net_run_inv [OF assms(3,1,2) honest_net_inv] by blast
  note c = inv [unfolded net_inv_def, THEN conjunct1]
    and s = inv [unfolded net_inv_def, THEN conjunct2, THEN conjunct1]
  show ?thesis
    using honest_client.peer_at_not_failed [OF c] honest_server.peer_at_not_failed [OF s]
      finished_lengths(1) [OF assms(1) c] finished_lengths(2) [OF assms(1) s]
    by (auto simp: get_session_def finished_def client_outcome server_outcome honest_keys_match)
qed

text \<open>
  C2: When a client and a server with the same app ID run the handshake against each other, the
  client knowing the server's key and the server's authorizer accepting the client, then however
  the messages are cut into pieces and the two sides interleaved, neither side ever fails, and
  once both have finished their sessions match: each side's encryption key and nonce are the
  other's decryption key and nonce, as derived in \<open>CheatSheet.md\<close>, and each knows the other's
  public key.
\<close>

theorem honest_handshake_agrees:
  assumes "crypto_ok C" "authorizes auth (ed_public C A)"
    "net_run C (honest_net C K A a B b auth) N"
  shows "h_error (n_client N) = NoError \<and> h_error (n_server N) = NoError
    \<and> (finished (n_client N) \<and> finished (n_server N) \<longrightarrow>
        get_session C (n_client N) = Inr (client_keys C K A a B b)
        \<and> get_session C (n_server N) = Inr (server_keys C K A a B b)
        \<and> matching_keys (client_keys C K A a B b) (server_keys C K A a B b))"
  using assms by (rule honest_run_sessions)

theorem honest_handshake_agrees_witness:
  "\<exists>N. net_run toy (honest_net toy (replicate 32 5) [1, 2] [7] [3] [9] demo_auth) N
     \<and> get_session toy (n_client N) = Inr (client_keys toy (replicate 32 5) [1, 2] [7] [3] [9])
     \<and> get_session toy (n_server N) = Inr (server_keys toy (replicate 32 5) [1, 2] [7] [3] [9])"
proof -
  let ?N = "honest_net toy (replicate 32 5) [1, 2] [7] [3] [9] demo_auth"
  have a: "authorizes demo_auth (ed_public toy [1, 2])" by (simp add: authorizes_def demo_auth_def)
  obtain N where N: "net_run toy ?N N" "finished (n_client N)" "finished (n_server N)"
    using net_inv_completes [OF toy_ok a honest_net_inv] by blast
  then show ?thesis using honest_handshake_agrees [OF toy_ok a N(1)] by blast
qed

text \<open>
  C11: The exchange never gets stuck: from every state that the two sides can reach, however the
  bytes were delivered so far, they can go on until both have finished.
\<close>

theorem honest_handshake_completes:
  assumes "crypto_ok C" "authorizes auth (ed_public C A)"
    "net_run C (honest_net C K A a B b auth) N"
  shows "\<exists>N'. net_run C N N' \<and> finished (n_client N') \<and> finished (n_server N')"
  using net_run_inv [OF assms(3,1,2) honest_net_inv] net_inv_completes [OF assms(1,2)] by blast

theorem honest_handshake_completes_witness:
  "\<exists>N. net_run toy (honest_net toy (replicate 32 5) [1, 2] [7] [3] [9] demo_auth) N
     \<and> finished (n_client N) \<and> finished (n_server N)"
  using honest_handshake_completes [OF toy_ok _ net_run.net_start]
  by (simp add: authorizes_def demo_auth_def)

end
