(* ===== verification/Handshake_Calls.thy ===== *)
theory Handshake_Calls
  imports Handshake_Safety
begin

text \<open>
  The calls of the public interface of \<open>Handshake\<close> once more, each with two notes beside it: the
  contents of the input buffer that it may take for a message, and whether it is one that may fill
  the output buffer. What a call can do to the crypto object is then one of five things, for either
  class; the theories on sizes and on agreement go through them.
\<close>

inductive call :: "vtable \<Rightarrow> handshake \<Rightarrow> bytes list \<Rightarrow> bool \<Rightarrow> handshake \<Rightarrow> bool" for V where
  bytesToRead: "bytesToRead V h = (n, h') \<Longrightarrow> call V h [] False h'"
| fill_input: "length bs \<le> length (h_inputBuffer h) \<Longrightarrow>
    call V h [] False (h\<lparr>h_inputBuffer := mem_write (h_inputBuffer h) 0 bs\<rparr>)"
| readCompleted: "readCompleted V h = (r, h') \<Longrightarrow> r \<noteq> Inl AssertFailed \<Longrightarrow>
    call V h [h_inputBuffer h] False h'"
| readFailed: "call V h [] False (readFailed h)"
| receivedBytes: "receivedBytes V src h = (q, h') \<Longrightarrow> q \<noteq> Inl AssertFailed \<Longrightarrow>
    call V h [h_inputBuffer h @ take (byteCountNeeded V h - length (h_inputBuffer h)) src] False h'"
| bytesToSend: "bytesToSend V h = (b, h') \<Longrightarrow> b \<noteq> Inl AssertFailed \<Longrightarrow> call V h [] True h'"
| sendCompleted: "sendCompleted h = (u, h') \<Longrightarrow> u \<noteq> Inl AssertFailed \<Longrightarrow> call V h [] False h'"
| copyBytesToSend: "copyBytesToSend V maxCount h = (c, h') \<Longrightarrow> c \<noteq> Inl AssertFailed \<Longrightarrow>
    call V h [] True h'"

text \<open>Without the notes these are the calls of \<open>api_step\<close>.\<close>

lemma call_api_step: "call V h msgs fills h' \<Longrightarrow> api_step V h h'"
  by (induction rule: call.induct) (auto intro: api_step.intros)

lemma api_step_call: "api_step V h h' \<Longrightarrow> \<exists>msgs fills. call V h msgs fills h'"
  by (induction rule: api_step.induct) (blast intro: call.intros)+

section \<open>What a call does to the crypto object\<close>

context handshake_protocol
begin

lemma readCompleted_effect:
  assumes "inv h" "readCompleted V h = (r, h')"
  obtains (fails) "needs (h_step h) = 0" "h_impl h' = h_impl h" "h_step h' = Failed"
  | (refused) "length (h_inputBuffer h) \<noteq> needs (h_step h)" "h' = h"
  | (received) ok i where "needs (h_step h) \<noteq> 0" "length (h_inputBuffer h) = needs (h_step h)"
      "receivedBytes_v V (h_inputBuffer h) h = (Inr ok, h\<lparr>h_impl := i\<rparr>)"
      "h_impl h' = i" "h_step h' = (if ok then step_succ (h_step h) else Failed)"
  using assms(2)
proof (cases rule: readCompleted_cases)
  case (throw e i)
  then show ?thesis
    using J_recv [OF inv_reading(2) [OF assms(1) throw(2)] _ throw(2,3,1)] assms(1) by (auto simp: inv_def)
next
  case (accept i)
  then show ?thesis by (intro received) auto
next
  case (reject i)
  show ?thesis
  proof (cases "needs (h_step h) = 0")
    case True
    then have "h\<lparr>h_impl := i\<rparr> = h" using recv_idle [OF True] reject(1) by simp
    then show ?thesis using reject(4) True by (intro fails) (metis failed_simps)+
  next
    case False
    then show ?thesis using reject by (intro received) auto
  qed
qed (rule refused)

lemma receivedBytes_effect:
  assumes "inv h" "receivedBytes V src h = (q, h')"
  obtains (collects) "h_impl h' = h_impl h" "h_step h' = h_step h" "h_outputBuffer h' = h_outputBuffer h"
  | (received) bs ok i where "bs = h_inputBuffer h @ take (byteCountNeeded V h - length (h_inputBuffer h)) src"
      "needs (h_step h) \<noteq> 0" "length bs = needs (h_step h)"
      "receivedBytes_v V bs (h\<lparr>h_inputBuffer := bs\<rparr>) = (Inr ok, h\<lparr>h_inputBuffer := bs, h_impl := i\<rparr>)"
      "h_impl h' = i" "h_step h' = (if ok then step_succ (h_step h) else Failed)"
proof (cases "needs (h_step h) = 0")
  case True
  with assms(2) show ?thesis
    by (intro collects) (auto simp: receivedBytes_def needed split: if_splits)
next
  case False
  then have len: "length (h_inputBuffer h) \<le> needs (h_step h)"
    using inv_buffers [OF assms(1)] needs_live [OF False] by (simp add: buffers_ok_iff live_def)
  show ?thesis
  proof (cases "length (h_inputBuffer h) + length src < needs (h_step h)")
    case True
    with False assms(2) show ?thesis by (intro collects) (auto simp: receivedBytes_partial)
  next
    case full: False
    define bs where "bs = h_inputBuffer h @ take (byteCountNeeded V h - length (h_inputBuffer h)) src"
    let ?h = "h\<lparr>h_inputBuffer := bs\<rparr>"
    have bs: "length bs = needs (h_step h)" using full len by (simp add: bs_def needed)
    then have inv: "inv ?h" by (intro inv_input [OF assms(1)]) simp
    obtain r g where r: "readCompleted V ?h = (r, g)" by fastforce
    have h': "h' = g" using assms(2) r full len False
      by (cases r) (auto simp: receivedBytes_complete bs_def needed)
    from inv r show ?thesis
    proof (cases rule: readCompleted_effect)
      case (received ok i)
      then show ?thesis using that(2) [OF bs_def False bs] h' by simp
    qed (use bs False in simp_all)
  qed
qed

lemma bytesToSend_effect:
  assumes "inv h" "bytesToSend V h = (r, h')"
  obtains (idle) "h' = h" "\<not> live (h_step h) \<or> needs (h_step h) \<noteq> 0 \<or> h_outputBuffer h \<noteq> []"
  | (filled) "live (h_step h)" "needs (h_step h) = 0" "h_outputBuffer h = []"
      "fillOutputBuffer_v V h = (Inr (), h')" "h_step h' = h_step h" "h_outputBuffer h' \<noteq> []"
  using inv_buffers [OF assms(1)] assms(2)
proof (cases rule: bytesToSend_cases)
  case fresh
  then show ?thesis using filled fill_frame [OF fresh(4)] by auto
next
  case (throw e)
  then show ?thesis using assms(1) J_fill [OF _ throw(1,2,4)] by (auto simp: inv_def)
qed (use idle in auto)

lemma sendCompleted_effect:
  assumes "inv h" "sendCompleted h = (r, h')" "r \<noteq> Inl AssertFailed"
  obtains (idle) "h' = h"
  | (sent) "live (h_step h)" "needs (h_step h) = 0" "h_outputBuffer h \<noteq> []" "h_impl h' = h_impl h"
      "h_step h' = step_succ (h_step h)"
proof (cases "h_outputBuffer h = []")
  case True
  then show ?thesis using assms(2) by (intro idle) (auto simp: sendCompleted_def)
next
  case False
  have nf: "h_step h \<noteq> Failed"
    using sendCompleted_result [OF assms(1)] assms(2,3) False by auto
  then have l: "live (h_step h)" "needs (h_step h) = 0"
    using inv_buffers [OF assms(1)] False by (auto simp: buffers_ok_iff live_def)
  then show ?thesis
    using assms(2) False nextStep_live [of "h\<lparr>h_outputBuffer := []\<rparr>"]
    by (intro sent) (auto simp: sendCompleted_def)
qed

lemma copyBytesToSend_effect:
  assumes "inv h" "copyBytesToSend V n h = (r, h')"
  obtains (idle) "h_impl h' = h_impl h" "h_step h' = h_step h" "h_outputBuffer h' = [] \<longleftrightarrow> h_outputBuffer h = []"
      "\<not> live (h_step h) \<or> needs (h_step h) \<noteq> 0 \<or> h_outputBuffer h \<noteq> []"
  | (sent) "live (h_step h)" "needs (h_step h) = 0" "h_outputBuffer h \<noteq> []" "h_impl h' = h_impl h"
      "h_step h' = step_succ (h_step h)"
  | (filled) g where "live (h_step h)" "needs (h_step h) = 0" "h_outputBuffer h = []"
      "fillOutputBuffer_v V h = (Inr (), g)" "h_impl h' = h_impl g"
      "h_step h' = h_step h \<and> h_outputBuffer h' \<noteq> [] \<or> h_step h' = step_succ (h_step h)"
proof -
  obtain b h1 where "bytesToSend V h = (b, h1)" by fastforce
  with bytesToSend_inv [OF assms(1)] obtain out where b: "bytesToSend V h = (Inr out, h1)"
    and h1: "inv h1" "h_step h1 = h_step h" by blast
  show ?thesis
  proof (cases "out = []")
    case True
    then have "h' = h" using b assms(2) copyBytesToSend_idle [OF inv_buffers [OF assms(1)]] by auto
    moreover have "\<not> live (h_step h) \<or> needs (h_step h) \<noteq> 0 \<or> h_outputBuffer h \<noteq> []"
      using inv_buffers [OF assms(1)] b by (cases rule: bytesToSend_cases) (use True in auto)
    ultimately show ?thesis by (intro idle) simp_all
  next
    case False
    note l = bytesToSend_live [OF inv_buffers [OF assms(1)] b False]
    have h': "h_impl h' = h_impl h1" "h_step h' = h_step h \<and> h_outputBuffer h' \<noteq> [] \<or> h_step h' = step_succ (h_step h)"
      using copyBytesToSend_eq [OF inv_buffers [OF assms(1)] b False, of n] assms(2) l False
        nextStep_live [of "h1\<lparr>h_outputBuffer := []\<rparr>"]
      by (auto simp: sendCompleted_def split: if_splits)
    from assms(1) b show ?thesis
    proof (cases rule: bytesToSend_effect)
      case idle
      then show ?thesis using that(1,2) h' l False by auto
    next
      case filled
      then show ?thesis using that(3) h' by blast
    qed
  qed
qed

text \<open>The five effects of a call.\<close>

lemma call_cases:
  assumes "inv h" "call V h msgs fills h'"
  obtains (same) "h_impl h' = h_impl h" "h_step h' = h_step h" "h_outputBuffer h' = [] \<longleftrightarrow> h_outputBuffer h = []"
      "fills \<Longrightarrow> \<not> live (h_step h) \<or> needs (h_step h) \<noteq> 0 \<or> h_outputBuffer h \<noteq> []"
  | (fails) "\<not> fills" "h_impl h' = h_impl h" "h_step h' = Failed"
  | (sent) "live (h_step h)" "needs (h_step h) = 0" "h_outputBuffer h \<noteq> []" "h_impl h' = h_impl h"
      "h_step h' = step_succ (h_step h)"
  | (received) bs ok i where "bs \<in> set msgs" "needs (h_step h) \<noteq> 0" "length bs = needs (h_step h)"
      "receivedBytes_v V bs (h\<lparr>h_inputBuffer := bs\<rparr>) = (Inr ok, h\<lparr>h_inputBuffer := bs, h_impl := i\<rparr>)"
      "h_impl h' = i" "h_step h' = (if ok then step_succ (h_step h) else Failed)"
  | (filled) g where "fills" "live (h_step h)" "needs (h_step h) = 0" "h_outputBuffer h = []"
      "fillOutputBuffer_v V h = (Inr (), g)" "h_impl h' = h_impl g"
      "h_step h' = h_step h \<and> h_outputBuffer h' \<noteq> [] \<or> h_step h' = step_succ (h_step h)"
  using assms(2)
proof cases
  case (bytesToRead n)
  then show ?thesis by (intro same) (auto simp: bytesToRead_def Let_def)
next
  case (readCompleted r)
  from assms(1) readCompleted(3) show ?thesis
  proof (cases rule: readCompleted_effect)
    case (received ok i)
    then show ?thesis using that(4) [of "h_inputBuffer h"] readCompleted(1) by simp
  qed (use that(1,2) readCompleted(2) in auto)
next
  case (receivedBytes src q)
  from assms(1) receivedBytes(3) show ?thesis
  proof (cases rule: receivedBytes_effect)
    case (received bs ok i)
    then show ?thesis using that(4) receivedBytes(1) by simp
  qed (use that(1) receivedBytes(2) in auto)
next
  case (bytesToSend b)
  from assms(1) bytesToSend(3) show ?thesis
    by (cases rule: bytesToSend_effect) (use that(1,5) bytesToSend(2) in auto)
next
  case (sendCompleted u)
  from assms(1) sendCompleted(3,4) show ?thesis
    by (cases rule: sendCompleted_effect) (use that(1,3) sendCompleted(2) in auto)
next
  case (copyBytesToSend n c)
  from assms(1) copyBytesToSend(3) show ?thesis
    by (cases rule: copyBytesToSend_effect) (use that(1,3,5) copyBytesToSend(2) in auto)
qed (use that(1,2) in \<open>auto simp: readFailed_def\<close>)

end

end
