(* ===== verification/Handshake_Types.thy ===== *)
theory Handshake_Types
  imports Handshake_Calls
begin

text \<open>
  The sizes of keys, nonces and messages. The code has them in its types, as \<open>byte_array<n>\<close>; the
  model has byte lists, and this theory shows that every operation of \<open>impl::handshake\<close>, and with it
  every run of the handshake, keeps them at the sizes that \<open>shs.hh\<close> and \<open>SecretHandshakeTypes.hh\<close>
  declare, failed runs included. The locale \<open>impl_invariant\<close> carries a property of the crypto object
  that both of its uses keep through every run; it is interpreted for the sizes in both classes.
\<close>

section \<open>Declared sizes\<close>

abbreviation sized :: "nat \<Rightarrow> bytes option \<Rightarrow> bool" where
  "sized n v \<equiv> pred_option (\<lambda>bs. length bs = n) v"

definition impl_typed :: "impl_handshake \<Rightarrow> bool" where
  "impl_typed i \<longleftrightarrow> length (hs_K i) = 32 \<and> length (hs_X i) = 32 \<and> length (hs_Xp i) = 32
     \<and> length (hs_x i) = 32 \<and> length (hs_xp i) = 32 \<and> sized 32 (hs_Yp i) \<and> sized 32 (hs_yp i)
     \<and> sized 32 (hs_ab i) \<and> sized 32 (hs_hashab i) \<and> sized 32 (hs_aB i) \<and> sized 32 (hs_Ab i)
     \<and> sized 32 (hs_serverAckKey i) \<and> sized 96 (hs_H i)"

definition session_typed :: "Session \<Rightarrow> bool" where
  "session_typed s \<longleftrightarrow> length (encryptionKey s) = 32 \<and> length (encryptionNonce s) = 24
     \<and> length (decryptionKey s) = 32 \<and> length (decryptionNonce s) = 24 \<and> length (peerPublicKey s) = 32"

definition context_typed :: "Context \<Rightarrow> bool" where
  "context_typed ctx \<longleftrightarrow> length (appID ctx) = 32 \<and> length (signingKey (keyPair ctx)) = 32
     \<and> length (publicKey (keyPair ctx)) = 32"

section \<open>The operations of impl::handshake\<close>

text \<open>Results of the hash functions and of the key exchange.\<close>

lemma mult_lengths [simp]:
  assumes "crypto_ok C"
  shows "length (kx_mult C a b) = 32" "length (mult_signing C k pk) = 32" "length (mult_public C k pk) = 32"
    "length (makeBoxKey C m) = 32"
  using assms by (simp_all add: mult_signing_def mult_public_def kx_mult_len makeBoxKey_def)

lemma unbox0_length: "crypto_ok C \<Longrightarrow> unbox0 C k c = Some m \<Longrightarrow> length c = length m + 16"
  by (simp add: unbox0_iff)

lemma new_handshake_typed:
  assumes "crypto_ok C" "context_typed ctx" "length x = 32"
  shows "impl_typed (new_handshake C (appID ctx) (signingKey (keyPair ctx)) (publicKey (keyPair ctx)) x)"
  using assms by (simp add: impl_typed_def new_handshake_def context_typed_def kx_public_len)

lemma setServerPublicKey_typed: "impl_typed i \<Longrightarrow> length pk = 32 \<Longrightarrow> impl_typed (setServerPublicKey pk i)"
  by (simp add: impl_typed_def setServerPublicKey_def)

lemma createChallenge_typed: "crypto_ok C \<Longrightarrow> impl_typed i \<Longrightarrow> length (createChallenge C i) = 64"
  by (simp add: createChallenge_def impl_typed_def)

lemma verifyChallenge_typed:
  assumes "crypto_ok C" "impl_typed i" "length bs = 64" "verifyChallenge C bs i = (b, i')"
  shows "impl_typed i'"
  using assms by (auto simp: verifyChallenge_def Let_def impl_typed_def split: if_splits)

lemma createClientAuth_typed:
  assumes "crypto_ok C" "impl_typed i" "createClientAuth C i = (r, i')"
  shows "impl_typed i' \<and> (\<forall>d. r = Inr d \<longrightarrow> length d = 112)"
  using assms
  by (auto simp: createClientAuth_def clientAuthKey_def Let_def impl_typed_def ed_sign_len with_val_def
      opt_value_def opt_deref_def split: option.splits sum.splits)

lemma serverAckKey_typed:
  assumes "crypto_ok C" "impl_typed i" "serverAckKey C i = (r, i')"
  shows "impl_typed i'"
  using assms
  by (auto simp: serverAckKey_def Let_def impl_typed_def with_val_def opt_value_def
      split: option.splits sum.splits)

lemma verifyServerAck_typed:
  assumes "crypto_ok C" "impl_typed i" "verifyServerAck C ack i = (r, i')"
  shows "impl_typed i'"
  using assms(3) serverAckKey_typed [OF assms(1,2)] assms(2)
  by (auto simp: verifyServerAck_def ebind_def with_val_def split: sum.splits prod.splits option.splits)

lemma verifyClientAuth_typed:
  assumes "crypto_ok C" "impl_typed i" "length bs = 112" "verifyClientAuth C bs i = (r, i')"
  shows "impl_typed i'"
  using assms unbox0_length [OF assms(1), of _ bs]
  by (fastforce simp: verifyClientAuth_def clientAuthKey_def Let_def impl_typed_def with_val_def
      opt_value_def opt_deref_def split: option.splits sum.splits)

lemma createServerAck_typed:
  assumes "crypto_ok C" "impl_typed i" "createServerAck C i = (r, i')"
  shows "impl_typed i' \<and> (\<forall>d. r = Inr d \<longrightarrow> length d = 80)"
  using assms(3) serverAckKey_typed [OF assms(1,2)] assms(1,2)
  by (auto simp: createServerAck_def ebind_def with_val_def ed_sign_len split: sum.splits prod.splits)

lemma getOutcome_typed:
  assumes "crypto_ok C" "impl_typed i" "getOutcome C i = Inr s"
  shows "session_typed s"
  using assms
  by (auto simp: getOutcome_def Let_def impl_typed_def session_typed_def hashToNonce_def opt_value_def
      split: option.splits)

section \<open>Runs\<close>

locale impl_invariant = handshake_protocol V needs auth J
  for V :: vtable and needs :: "step \<Rightarrow> nat" and auth :: "(bytes \<Rightarrow> bool) option"
    and J :: "step \<Rightarrow> bool \<Rightarrow> impl_handshake \<Rightarrow> bool" +
  fixes I :: "impl_handshake \<Rightarrow> bool"
  assumes recv_I: "I (h_impl h) \<Longrightarrow> needs (h_step h) \<noteq> 0 \<Longrightarrow> length bs = needs (h_step h) \<Longrightarrow>
      receivedBytes_v V bs h = (r, h') \<Longrightarrow> I (h_impl h')"
    and fill_I: "I (h_impl h) \<Longrightarrow> live (h_step h) \<Longrightarrow> needs (h_step h) = 0 \<Longrightarrow>
      fillOutputBuffer_v V h = (q, h') \<Longrightarrow> I (h_impl h')"
begin

lemma api_step_keeps:
  assumes "api_step V h h'" "inv h" "I (h_impl h)"
  shows "I (h_impl h')"
proof -
  obtain msgs fills where "call V h msgs fills h'" using api_step_call [OF assms(1)] by blast
  with assms(2) show ?thesis
  proof (cases rule: call_cases)
    case (received bs ok i)
    then show ?thesis using recv_I [of "h\<lparr>h_inputBuffer := bs\<rparr>" bs] assms(3) by fastforce
  next
    case (filled g)
    then show ?thesis using fill_I [OF assms(3)] by simp
  qed (use assms(3) in simp_all)
qed

lemma api_run_keeps: "api_run V h h' \<Longrightarrow> inv h \<Longrightarrow> I (h_impl h) \<Longrightarrow> I (h_impl h')"
  by (induction rule: api_run.induct) (auto dest: api_run_inv api_step_keeps)

end

lemma client_recv_typed:
  assumes "crypto_ok C" "impl_typed (h_impl h)" "length bs = client_needs (h_step h)" "client_needs (h_step h) \<noteq> 0"
    "client_receivedBytes C bs h = (r, h')"
  shows "impl_typed (h_impl h')"
proof (cases "h_step h")
  case ServerChallenge
  obtain b i where v: "verifyChallenge C bs (h_impl h) = (b, i)" by fastforce
  show ?thesis
    using verifyChallenge_typed [OF assms(1,2) _ v] v assms(3,5) ServerChallenge
    by (auto simp: client_needs_def client_receivedBytes_def)
next
  case ServerAck
  obtain b i where v: "verifyServerAck C bs (h_impl h) = (b, i)" by fastforce
  show ?thesis
    using verifyServerAck_typed [OF assms(1,2) v] v assms(5) ServerAck
    by (auto simp: client_receivedBytes_def)
qed (use assms(4) in \<open>simp_all add: client_needs_def\<close>)

lemma server_recv_typed:
  assumes "crypto_ok C" "impl_typed (h_impl h)" "length bs = server_needs (h_step h)" "server_needs (h_step h) \<noteq> 0"
    "server_receivedBytes C bs h = (r, h')"
  shows "impl_typed (h_impl h')"
proof (cases "h_step h")
  case ClientChallenge
  obtain b i where v: "verifyChallenge C bs (h_impl h) = (b, i)" by fastforce
  show ?thesis
    using verifyChallenge_typed [OF assms(1,2) _ v] v assms(3,5) ClientChallenge
    by (auto simp: server_needs_def server_receivedBytes_def)
next
  case ClientAuth
  obtain b i where v: "verifyClientAuth C bs (h_impl h) = (b, i)" by fastforce
  have "h_impl h' = i"
    using assms(5) v ClientAuth
    by (auto simp: server_receivedBytes_def with_val_def Let_def split: sum.splits if_splits option.splits)
  then show ?thesis
    using verifyClientAuth_typed [OF assms(1,2) _ v] assms(3) ClientAuth by (simp add: server_needs_def)
qed (use assms(4) in \<open>simp_all add: server_needs_def\<close>)

text \<open>The message that a class has just put into its output buffer: it is the one created, neither cut
  nor padded, and the other class waits in the same step for just as many bytes.\<close>

definition whole_message :: "crypto \<Rightarrow> impl_handshake \<Rightarrow> bytes \<Rightarrow> bool" where
  "whole_message C i out \<longleftrightarrow> out = createChallenge C i
     \<or> Inr out = fst (createClientAuth C i) \<or> Inr out = fst (createServerAck C i)"

lemma client_fill_typed:
  assumes "crypto_ok C" "impl_typed (h_impl h)" "live (h_step h)" "client_needs (h_step h) = 0"
    "client_fillOutputBuffer C h = (q, h')"
  shows "impl_typed (h_impl h') \<and> (q = Inr () \<longrightarrow> length (h_outputBuffer h') = server_needs (h_step h)
    \<and> whole_message C (h_impl h) (h_outputBuffer h'))"
proof (cases "h_step h")
  case ClientChallenge
  then show ?thesis using assms(2,5) createChallenge_typed [OF assms(1,2)]
    by (auto simp: client_fillOutputBuffer_def server_needs_def whole_message_def)
next
  case ClientAuth
  obtain b i where v: "createClientAuth C (h_impl h) = (b, i)" by fastforce
  show ?thesis using createClientAuth_typed [OF assms(1,2) v] v assms(5) ClientAuth
    by (cases b) (auto simp: client_fillOutputBuffer_def server_needs_def whole_message_def)
qed (use assms(3,4) in \<open>simp_all add: client_needs_def live_def\<close>)

lemma server_fill_typed:
  assumes "crypto_ok C" "impl_typed (h_impl h)" "live (h_step h)" "server_needs (h_step h) = 0"
    "server_fillOutputBuffer C h = (q, h')"
  shows "impl_typed (h_impl h') \<and> (q = Inr () \<longrightarrow> length (h_outputBuffer h') = client_needs (h_step h)
    \<and> whole_message C (h_impl h) (h_outputBuffer h'))"
proof (cases "h_step h")
  case ServerChallenge
  then show ?thesis using assms(2,5) createChallenge_typed [OF assms(1,2)]
    by (auto simp: server_fillOutputBuffer_def client_needs_def whole_message_def)
next
  case ServerAck
  obtain b i where v: "createServerAck C (h_impl h) = (b, i)" by fastforce
  show ?thesis using createServerAck_typed [OF assms(1,2) v] v assms(5) ServerAck
    by (cases b) (auto simp: server_fillOutputBuffer_def client_needs_def whole_message_def)
qed (use assms(3,4) in \<open>simp_all add: server_needs_def live_def\<close>)

interpretation client_sizes: impl_invariant "client_vt C" client_needs auth "client_J C i0 Bp"
  "\<lambda>i. crypto_ok C \<longrightarrow> impl_typed i" for C auth i0 Bp
proof (unfold_locales, goal_cases)
  case (1 h bs r h')
  then show ?case using client_recv_typed [of C h bs r h'] by simp
next
  case (2 h q h')
  then show ?case using client_fill_typed [of C h q h'] by simp
qed

interpretation server_sizes: impl_invariant "server_vt C" server_needs auth "server_J C i0 auth"
  "\<lambda>i. crypto_ok C \<longrightarrow> impl_typed i" for C auth i0
proof (unfold_locales, goal_cases)
  case (1 h bs r h')
  then show ?case using server_recv_typed [of C h bs r h'] by simp
next
  case (2 h q h')
  then show ?case using server_fill_typed [of C h q h'] by simp
qed

text \<open>A new object made from a context of the declared sizes has them.\<close>

lemma ClientHandshake_typed:
  "crypto_ok C \<Longrightarrow> context_typed ctx \<Longrightarrow> length pk = 32 \<Longrightarrow> length x = 32 \<Longrightarrow>
     impl_typed (h_impl (ClientHandshake C ctx pk x))"
  by (simp add: ClientHandshake_def new_Handshake_def Let_def new_handshake_typed setServerPublicKey_typed)

lemma ServerHandshake_typed:
  "crypto_ok C \<Longrightarrow> context_typed ctx \<Longrightarrow> length x = 32 \<Longrightarrow>
     impl_typed (h_impl (setClientAuthorizer auth (ServerHandshake C ctx x)))"
  by (simp add: ServerHandshake_def setClientAuthorizer_def new_Handshake_def new_handshake_typed)

lemma run_typed:
  assumes "crypto_ok C" "fresh C V h0" "impl_typed (h_impl h0)" "api_run V h0 h"
  shows "impl_typed (h_impl h)"
  using assms(2)
proof cases
  case (client ctx pk x)
  then show ?thesis using client_sizes.api_run_keeps [OF _ fresh_client_inv] assms by blast
next
  case (server auth ctx x)
  then show ?thesis using server_sizes.api_run_keeps [OF _ fresh_server_inv] assms by blast
qed

lemma run_message:
  assumes "crypto_ok C" "fresh C V h0" "impl_typed (h_impl h0)" "api_run V h0 h"
    "bytesToSend V h = (Inr out, h1)" "h_outputBuffer h = []" "out \<noteq> []"
  shows "byteCountNeeded V h = 0 \<and> whole_message C (h_impl h) out
    \<and> (length out = byteCountNeeded (client_vt C) h \<or> length out = byteCountNeeded (server_vt C) h)"
  using assms(2,4)
proof (cases rule: fresh_run_cases)
  case (client i0 pk)
  from client(2) assms(5) [unfolded client(1)] show ?thesis
  proof (cases rule: client_run.bytesToSend_effect)
    case filled
    have "out = h_outputBuffer h1" using client.bytesToSend_live(3)
        [OF client_run.inv_buffers [OF client(2)] assms(5) [unfolded client(1)] assms(7)] by simp
    then show ?thesis
      using client_fill_typed [OF assms(1) run_typed [OF assms(1-4)] filled(1,2)] filled(2,4) client(1)
      by (simp add: client.needed [unfolded vt_simps] server.needed [unfolded vt_simps])
  qed (use assms(5-7) client(1) client.bytesToSend_live(3) client_run.inv_buffers [OF client(2)] in metis)
next
  case (server i0 auth)
  from server(2) assms(5) [unfolded server(1)] show ?thesis
  proof (cases rule: server_run.bytesToSend_effect)
    case filled
    have "out = h_outputBuffer h1" using server.bytesToSend_live(3)
        [OF server_run.inv_buffers [OF server(2)] assms(5) [unfolded server(1)] assms(7)] by simp
    then show ?thesis
      using server_fill_typed [OF assms(1) run_typed [OF assms(1-4)] filled(1,2)] filled(2,4) server(1)
      by (simp add: client.needed [unfolded vt_simps] server.needed [unfolded vt_simps])
  qed (use assms(5-7) server(1) server.bytesToSend_live(3) server_run.inv_buffers [OF server(2)] in metis)
qed

lemma run_session_typed:
  assumes "crypto_ok C" "fresh C V h0" "impl_typed (h_impl h0)" "api_run V h0 h" "finished h"
  shows "\<exists>s. get_session C h = Inr s \<and> session_typed s"
proof -
  obtain s where s: "get_session C h = Inr s" using fresh_session [OF assms(2,4,5)] by blast
  then have "getOutcome C (h_impl h) = Inr s" using assms(5) by (auto simp: get_session_def finished_def)
  then show ?thesis using getOutcome_typed [OF assms(1) run_typed [OF assms(1-4)]] s by blast
qed

section \<open>Property\<close>

text \<open>
  C20: the two classes fit together in size. If a handshake starts with keys of the declared sizes,
  then in every state that any sequence of calls reaches, failed or not and whatever the peer has
  sent, all keys, secrets and hashes have their sizes. A message that it puts into its output buffer
  is the whole message that the crypto object made, neither cut nor padded to the space reserved for
  it, and has exactly the size for which the other class waits in that step. The session of a finished
  one has keys of 32, nonces of 24 and a peer key of 32 bytes.
\<close>

theorem handshake_well_typed:
  assumes "crypto_ok C" "fresh C V h0" "impl_typed (h_impl h0)" "api_run V h0 h"
  shows "impl_typed (h_impl h)
    \<and> (\<forall>out h1. bytesToSend V h = (Inr out, h1) \<and> h_outputBuffer h = [] \<and> out \<noteq> [] \<longrightarrow>
         byteCountNeeded V h = 0 \<and> whole_message C (h_impl h) out
         \<and> (length out = byteCountNeeded (client_vt C) h \<or> length out = byteCountNeeded (server_vt C) h))
    \<and> (finished h \<longrightarrow> (\<exists>s. get_session C h = Inr s \<and> session_typed s))"
  using run_typed [OF assms] run_message [OF assms] run_session_typed [OF assms] by blast

definition sized_ctx :: "byte \<Rightarrow> Context" where
  "sized_ctx b = \<lparr>appID = replicate 32 5, keyPair = KeyPair_of_signing toy (replicate 32 b)\<rparr>"

lemma sized_ctx_typed: "context_typed (sized_ctx b)"
  using ed_public_len [OF toy_ok] by (simp add: sized_ctx_def context_typed_def KeyPair_of_signing_def)

lemma sized_ctx_keys: "publicKey (keyPair (sized_ctx b)) = replicate 32 b" "appID (sized_ctx b) = replicate 32 5"
  by (simp_all add: sized_ctx_def KeyPair_of_signing_def toy_def)

text \<open>Two peers with keys of the declared sizes run the handshake to its end.\<close>

definition sized_client :: handshake where
  "sized_client = ClientHandshake toy (sized_ctx 1) (replicate 32 3) (replicate 32 7)"

definition sized_server :: handshake where
  "sized_server = setClientAuthorizer None (ServerHandshake toy (sized_ctx 3) (replicate 32 9))"

definition sized_states :: "(handshake \<times> handshake \<times> handshake \<times> handshake \<times> handshake \<times> handshake) option" where
  "sized_states =
     (case rounds 1 sized_client sized_server of
        None \<Rightarrow> None
      | Some (c1, s1) \<Rightarrow>
          (case turn (client_vt toy) (server_vt toy) c1 s1 of
             None \<Rightarrow> None
           | Some (c2, s2) \<Rightarrow>
               (case turn (server_vt toy) (client_vt toy) s2 c2 of
                  None \<Rightarrow> None
                | Some (s3, c3) \<Rightarrow> Some (c1, s1, c2, s2, c3, s3))))"

lemma sized_evaluates:
  "case sized_states of None \<Rightarrow> False | Some (c1, s1, c2, s2, c3, s3) \<Rightarrow>
     h_step c1 = ClientAuth \<and> h_outputBuffer c1 = [] \<and> h_step s2 = ServerAck \<and> h_outputBuffer s2 = []
     \<and> finished c3 \<and> finished s3
     \<and> hs_H (h_impl c3) \<noteq> None \<and> hs_H (h_impl s2) = hs_H (h_impl c3)
     \<and> hs_hashab (h_impl c3) \<noteq> None \<and> hs_hashab (h_impl s2) = hs_hashab (h_impl c3)
     \<and> hs_hashab (h_impl c1) = hs_hashab (h_impl c3) \<and> hs_hashab (h_impl s3) = hs_hashab (h_impl c3)
     \<and> hs_K (h_impl c1) = replicate 32 5 \<and> hs_Yp (h_impl c1) = Some (replicate 32 3) \<and> hs_K (h_impl s2) = replicate 32 5
     \<and> (case get_session toy s3 of Inl _ \<Rightarrow> False | Inr s \<Rightarrow> peerPublicKey s = replicate 32 1)"
  by code_simp

lemma sized_turns:
  obtains c1 s1 c2 s2 c3 s3 H hashab s where
    "rounds 1 sized_client sized_server = Some (c1, s1)"
    "turn (client_vt toy) (server_vt toy) c1 s1 = Some (c2, s2)"
    "turn (server_vt toy) (client_vt toy) s2 c2 = Some (s3, c3)"
    "h_step c1 = ClientAuth" "h_outputBuffer c1 = []" "hs_K (h_impl c1) = replicate 32 5"
    "hs_Yp (h_impl c1) = Some (replicate 32 3)" "hs_hashab (h_impl c1) = Some hashab"
    "h_step s2 = ServerAck" "h_outputBuffer s2 = []" "hs_K (h_impl s2) = replicate 32 5"
    "hs_H (h_impl s2) = Some H" "hs_hashab (h_impl s2) = Some hashab"
    "finished c3" "hs_H (h_impl c3) = Some H" "hs_hashab (h_impl c3) = Some hashab"
    "finished s3" "hs_hashab (h_impl s3) = Some hashab"
    "get_session toy s3 = Inr s" "peerPublicKey s = replicate 32 1"
proof -
  obtain c1 s1 c2 s2 c3 s3 where r: "rounds 1 sized_client sized_server = Some (c1, s1)"
    "turn (client_vt toy) (server_vt toy) c1 s1 = Some (c2, s2)"
    "turn (server_vt toy) (client_vt toy) s2 c2 = Some (s3, c3)"
    "sized_states = Some (c1, s1, c2, s2, c3, s3)"
    using sized_evaluates by (auto simp: sized_states_def split: option.splits)
  note e = sized_evaluates [unfolded r(4) option.case prod.case]
  then obtain s where "get_session toy s3 = Inr s" "peerPublicKey s = replicate 32 1"
    by (cases "get_session toy s3") auto
  moreover obtain H hashab where "hs_H (h_impl c3) = Some H" "hs_hashab (h_impl c3) = Some hashab"
    using e by blast
  ultimately show ?thesis using that r(1-3) e by auto
qed

lemma sized_client_finishes: "\<exists>c. api_run (client_vt toy) sized_client c \<and> finished c"
proof -
  obtain c1 s1 c2 s2 c3 s3 where t: "rounds 1 sized_client sized_server = Some (c1, s1)"
    "turn (client_vt toy) (server_vt toy) c1 s1 = Some (c2, s2)"
    "turn (server_vt toy) (client_vt toy) s2 c2 = Some (s3, c3)" "finished c3"
    by (rule sized_turns)
  have "api_run (client_vt toy) sized_client c1" using rounds_run [OF t(1)] api_run.start by blast
  then show ?thesis using api_run.step turn_steps(1) [OF t(2)] turn_steps(2) [OF t(3)] t(4) by metis
qed

theorem handshake_well_typed_witness:
  "\<exists>c k. api_run (client_vt toy) sized_client c \<and> finished c \<and> get_session toy c = Inr k \<and> session_typed k
     \<and> impl_typed (h_impl c)"
proof -
  obtain c where run: "api_run (client_vt toy) sized_client c" and fin: "finished c"
    using sized_client_finishes by blast
  have "impl_typed (h_impl sized_client)"
    unfolding sized_client_def by (rule ClientHandshake_typed [OF toy_ok sized_ctx_typed]) simp_all
  from handshake_well_typed [OF toy_ok _ this run] fin run show ?thesis
    by (auto simp: sized_client_def fresh.client)
qed

end
