(* ===== verification/Handshake_Agreement.thy ===== *)
theory Handshake_Agreement
  imports Handshake_Types
begin

text \<open>
  Authentication as agreement between the runs of a world. Any number of clients and servers exist,
  and calls are made on them in any order; what they receive is arbitrary, as an attacker who
  controls the network would have it. The world keeps a record of the messages that were signed,
  with the signer's key, and of the input that each object was given. If a signature that a finished
  object received and accepted was not forged, that is, if it is in that record, then there is an
  object of the other role in this world, with the key in question, that agrees on the application
  ID, on both identities and on the hash of the ephemeral secret. A key that is used for both roles
  does no harm: the messages signed by the two roles have different lengths.
\<close>

section \<open>The world\<close>

text \<open>A client is made for a server's public key, a server may have an authorizer.\<close>

datatype role = AsClient bytes | AsServer "(bytes \<Rightarrow> bool) option"

record party =
  pa_role :: role
  pa_context :: Context
  pa_object :: handshake
  pa_received :: "bytes list"

record world =
  parties :: "party list"
  signatures :: "(bytes \<times> bytes) list"

fun role_vt :: "crypto \<Rightarrow> role \<Rightarrow> vtable" where
  "role_vt C (AsClient _) = client_vt C"
| "role_vt C (AsServer _) = server_vt C"

fun new_object :: "crypto \<Rightarrow> role \<Rightarrow> Context \<Rightarrow> bytes \<Rightarrow> handshake" where
  "new_object C (AsClient pk) ctx x = ClientHandshake C ctx pk x"
| "new_object C (AsServer auth) ctx x = setClientAuthorizer auth (ServerHandshake C ctx x)"

text \<open>The public key of the key that a party signs with.\<close>

definition signer :: "crypto \<Rightarrow> party \<Rightarrow> bytes" where
  "signer C p = ed_public C (signingKey (keyPair (pa_context p)))"

text \<open>What an object signs when it fills its output buffer in the state \<open>h\<close>: a client in \<open>createClientAuth\<close>,
  a server in \<open>createServerAck\<close>, and nothing in all other states.\<close>

definition signs :: "role \<Rightarrow> handshake \<Rightarrow> bytes list" where
  "signs r h =
     (if h_outputBuffer h \<noteq> [] then []
      else case r of
        AsClient _ \<Rightarrow>
          (if h_step h \<noteq> ClientAuth then []
           else case hs_Yp (h_impl h) of None \<Rightarrow> [] | Some Bp \<Rightarrow>
                case hs_hashab (h_impl h) of None \<Rightarrow> [] | Some hashab \<Rightarrow> [hs_K (h_impl h) @ Bp @ hashab])
      | AsServer _ \<Rightarrow>
          (if h_step h \<noteq> ServerAck then []
           else case hs_H (h_impl h) of None \<Rightarrow> [] | Some H \<Rightarrow>
                case hs_hashab (h_impl h) of None \<Rightarrow> [] | Some hashab \<Rightarrow> [hs_K (h_impl h) @ H @ hashab]))"

inductive world_run :: "crypto \<Rightarrow> world \<Rightarrow> bool" for C where
  start: "world_run C \<lparr>parties = [], signatures = []\<rparr>"
| join: "world_run C w \<Longrightarrow> context_typed ctx \<Longrightarrow> length x = 32 \<Longrightarrow> (\<And>pk. r = AsClient pk \<Longrightarrow> length pk = 32) \<Longrightarrow>
    world_run C (w\<lparr>parties := parties w @ [\<lparr>pa_role = r, pa_context = ctx,
      pa_object = new_object C r ctx x, pa_received = []\<rparr>]\<rparr>)"
| calls: "world_run C w \<Longrightarrow> n < length (parties w) \<Longrightarrow> parties w ! n = p \<Longrightarrow>
    call (role_vt C (pa_role p)) (pa_object p) msgs fills h' \<Longrightarrow>
    world_run C (w\<lparr>parties := (parties w)[n := p\<lparr>pa_object := h', pa_received := pa_received p @ msgs\<rparr>],
      signatures := signatures w @ (if fills then map (Pair (signer C p)) (signs (pa_role p) (pa_object p)) else [])\<rparr>)"

text \<open>
  Unforgeability, of one message: if a text that opens an input of \<open>p\<close> begins with a signature that
  checks for the message \<open>m\<close> under \<open>pk\<close>, then \<open>m\<close> has been signed with that key in this world.
\<close>

definition unforged :: "crypto \<Rightarrow> world \<Rightarrow> party \<Rightarrow> bytes \<Rightarrow> bytes \<Rightarrow> bool" where
  "unforged C w p pk m \<longleftrightarrow> (\<forall>msg \<in> set (pa_received p). \<forall>key text. unbox0 C key msg = Some text \<longrightarrow>
     ed_check C pk (range_of 0 64 text) m \<longrightarrow> (pk, m) \<in> set (signatures w))"

section \<open>The record of signatures is right\<close>

text \<open>
  The output of the library depends on the signing function only at the messages that \<open>signs\<close> names:
  with another function that agrees on them every call does the same.
\<close>

lemma sign_free:
  "createChallenge (C\<lparr>ed_sign := f\<rparr>) = createChallenge C" "hmac (C\<lparr>ed_sign := f\<rparr>) = hmac C"
  "hash (C\<lparr>ed_sign := f\<rparr>) = hash C" "makeBoxKey (C\<lparr>ed_sign := f\<rparr>) = makeBoxKey C"
  "box0 (C\<lparr>ed_sign := f\<rparr>) = box0 C" "unbox0 (C\<lparr>ed_sign := f\<rparr>) = unbox0 C"
  "kx_mult (C\<lparr>ed_sign := f\<rparr>) = kx_mult C" "ed_check (C\<lparr>ed_sign := f\<rparr>) = ed_check C"
  "mult_signing (C\<lparr>ed_sign := f\<rparr>) = mult_signing C" "mult_public (C\<lparr>ed_sign := f\<rparr>) = mult_public C"
  by (simp_all add: fun_eq_iff createChallenge_def hmac_def hash_def makeBoxKey_def box0_def unbox0_def box_key_def
      mult_signing_def mult_public_def)

lemma keys_sign_free:
  "clientAuthKey (C\<lparr>ed_sign := f\<rparr>) = clientAuthKey C" "serverAckKey (C\<lparr>ed_sign := f\<rparr>) = serverAckKey C"
  unfolding clientAuthKey_def serverAckKey_def sign_free by (rule refl)+

lemma checks_sign_free:
  "verifyChallenge (C\<lparr>ed_sign := f\<rparr>) = verifyChallenge C"
  "verifyServerAck (C\<lparr>ed_sign := f\<rparr>) = verifyServerAck C"
  "verifyClientAuth (C\<lparr>ed_sign := f\<rparr>) = verifyClientAuth C"
  unfolding verifyChallenge_def verifyServerAck_def verifyClientAuth_def sign_free keys_sign_free by (rule refl)+

lemma receiving_never_signs:
  "receivedBytes_v (role_vt (C\<lparr>ed_sign := f\<rparr>) r) = receivedBytes_v (role_vt C r)"
proof -
  have "client_receivedBytes (C\<lparr>ed_sign := f\<rparr>) bs h = client_receivedBytes C bs h"
    "server_receivedBytes (C\<lparr>ed_sign := f\<rparr>) bs h = server_receivedBytes C bs h" for bs h
    unfolding client_receivedBytes_def server_receivedBytes_def checks_sign_free by (rule refl)+
  then show ?thesis by (cases r) (simp_all add: fun_eq_iff)
qed

lemma sending_signs:
  assumes "\<And>m. m \<in> set (signs r h) \<Longrightarrow> f (hs_X (h_impl h)) m = ed_sign C (hs_X (h_impl h)) m"
    and "h_outputBuffer h = []"
  shows "fillOutputBuffer_v (role_vt (C\<lparr>ed_sign := f\<rparr>) r) h = fillOutputBuffer_v (role_vt C r) h"
proof -
  have "createClientAuth (C\<lparr>ed_sign := f\<rparr>) (h_impl h) = createClientAuth C (h_impl h)"
    if "r = AsClient pk" "h_step h = ClientAuth" for pk
    using that assms unfolding createClientAuth_def sign_free keys_sign_free
    by (cases "hs_Yp (h_impl h)"; cases "hs_hashab (h_impl h)"; cases "hs_yp (h_impl h)")
      (auto simp: signs_def Let_def)
  moreover have "createServerAck (C\<lparr>ed_sign := f\<rparr>) (h_impl h) = createServerAck C (h_impl h)"
    if "r = AsServer auth" "h_step h = ServerAck" for auth
    using that assms unfolding createServerAck_def sign_free keys_sign_free
    by (cases "hs_H (h_impl h)"; cases "hs_hashab (h_impl h)"; cases "hs_yp (h_impl h)")
      (auto simp: signs_def serverAckKey_def Let_def with_val_def ebind_def split: sum.splits)
  ultimately show ?thesis
    by (cases r; cases "h_step h")
      (simp_all add: client_fillOutputBuffer_def server_fillOutputBuffer_def sign_free)
qed

section \<open>What is known of a party\<close>

abbreviation initial_impl :: "crypto \<Rightarrow> Context \<Rightarrow> bytes \<Rightarrow> impl_handshake" where
  "initial_impl C ctx x \<equiv>
     new_handshake C (appID ctx) (signingKey (keyPair ctx)) (publicKey (keyPair ctx)) x"

text \<open>A party's object has come from its constructor by calls.\<close>

definition party_run :: "crypto \<Rightarrow> party \<Rightarrow> bool" where
  "party_run C p \<longleftrightarrow> (\<exists>x. length x = 32 \<and> context_typed (pa_context p)
     \<and> (\<forall>pk. pa_role p = AsClient pk \<longrightarrow> length pk = 32)
     \<and> api_run (role_vt C (pa_role p)) (new_object C (pa_role p) (pa_context p) x) (pa_object p))"

lemma party_typed:
  assumes "crypto_ok C" "party_run C p"
  shows "impl_typed (h_impl (pa_object p))"
proof -
  obtain x where x: "length x = 32" "context_typed (pa_context p)"
    "\<forall>pk. pa_role p = AsClient pk \<longrightarrow> length pk = 32"
    "api_run (role_vt C (pa_role p)) (new_object C (pa_role p) (pa_context p) x) (pa_object p)"
    using assms(2) unfolding party_run_def by blast
  have "fresh C (role_vt C (pa_role p)) (new_object C (pa_role p) (pa_context p) x)"
    "impl_typed (h_impl (new_object C (pa_role p) (pa_context p) x))"
    using x ClientHandshake_typed [OF assms(1) x(2)] ServerHandshake_typed [OF assms(1) x(2)]
    by (cases "pa_role p"; simp add: fresh.client fresh.server)+
  then show ?thesis using run_typed [OF assms(1)] x(4) by blast
qed

lemma client_party_inv:
  assumes "party_run C p" "pa_role p = AsClient pk"
  obtains i0 where "client_run.inv C None i0 pk (pa_object p)" "hs_K i0 = appID (pa_context p)"
    "hs_X i0 = signingKey (keyPair (pa_context p))" "hs_Xp i0 = publicKey (keyPair (pa_context p))"
proof -
  obtain x where "api_run (client_vt C) (ClientHandshake C (pa_context p) pk x) (pa_object p)"
    using assms by (auto simp: party_run_def)
  from that [OF client_run.api_run_inv [OF this fresh_client_inv]] show ?thesis
    by (simp add: new_handshake_def)
qed

lemma server_party_inv:
  assumes "party_run C p" "pa_role p = AsServer auth"
  obtains i0 where "server_run.inv C auth i0 (pa_object p)" "hs_K i0 = appID (pa_context p)"
    "hs_X i0 = signingKey (keyPair (pa_context p))" "hs_Xp i0 = publicKey (keyPair (pa_context p))"
proof -
  obtain x where "api_run (server_vt C) (setClientAuthorizer auth (ServerHandshake C (pa_context p) x)) (pa_object p)"
    using assms by (auto simp: party_run_def)
  from that [OF server_run.api_run_inv [OF this fresh_server_inv]] show ?thesis
    by (simp add: new_handshake_def)
qed

text \<open>A finished client, and a server that is past its check, got what they have accepted as input.\<close>

definition ack_accepted :: "crypto \<Rightarrow> bytes \<Rightarrow> bytes list \<Rightarrow> bytes \<Rightarrow> impl_handshake \<Rightarrow> bool" where
  "ack_accepted C K msgs Bp i \<longleftrightarrow> (\<exists>msg \<in> set msgs. \<exists>key sig H hashab. length msg = 80 \<and> unbox0 C key msg = Some sig
     \<and> hs_H i = Some H \<and> hs_hashab i = Some hashab \<and> ed_check C Bp sig (K @ H @ hashab))"

definition auth_accepted :: "crypto \<Rightarrow> bytes \<Rightarrow> bytes list \<Rightarrow> bytes \<Rightarrow> impl_handshake \<Rightarrow> bool" where
  "auth_accepted C K msgs Bp i \<longleftrightarrow> (\<exists>msg \<in> set msgs. \<exists>key H hashab. unbox0 C key msg = Some H
     \<and> hs_H i = Some H \<and> hs_hashab i = Some hashab
     \<and> ed_check C (range_of 64 32 H) (range_of 0 64 H) (K @ Bp @ hashab))"

definition accepted :: "crypto \<Rightarrow> party \<Rightarrow> bool" where
  "accepted C p = (let h = pa_object p; ctx = pa_context p in
     case pa_role p of
       AsClient Bp \<Rightarrow> h_step h = Finished \<longrightarrow> ack_accepted C (appID ctx) (pa_received p) Bp (h_impl h)
     | AsServer auth \<Rightarrow> h_step h = ServerAck \<or> h_step h = Finished \<longrightarrow>
         auth_accepted C (appID ctx) (pa_received p) (publicKey (keyPair ctx)) (h_impl h))"

lemma ack_accepted_kept:
  assumes "ack_accepted C K msgs Bp i" "set msgs \<subseteq> set msgs'" "hs_H i' = hs_H i" "hs_hashab i' = hs_hashab i"
  shows "ack_accepted C K msgs' Bp i'"
  using assms(1,2) unfolding ack_accepted_def assms(3,4) by blast

lemma auth_accepted_kept:
  assumes "auth_accepted C K msgs Bp i" "set msgs \<subseteq> set msgs'" "hs_H i' = hs_H i" "hs_hashab i' = hs_hashab i"
  shows "auth_accepted C K msgs' Bp i'"
  using assms(1,2) unfolding auth_accepted_def assms(3,4) by blast

lemma accepted_more:
  "ack_accepted C K msgs Bp i \<Longrightarrow> ack_accepted C K (msgs @ ms) Bp i"
  "auth_accepted C K msgs Bp i \<Longrightarrow> auth_accepted C K (msgs @ ms) Bp i"
  by (auto elim: ack_accepted_kept auth_accepted_kept)

text \<open>The message \<open>m\<close> has been signed by the party: what it was made of is still in its object, which will
  not change any more in this respect.\<close>

definition settled :: "role \<Rightarrow> handshake \<Rightarrow> bool" where
  "settled r h = (case r of
       AsClient _ \<Rightarrow> h_step h \<in> {ServerAck, Finished, Failed} \<or> h_step h = ClientAuth \<and> h_outputBuffer h \<noteq> []
     | AsServer _ \<Rightarrow> h_step h \<in> {Finished, Failed} \<or> h_step h = ServerAck \<and> h_outputBuffer h \<noteq> [])"

definition has_signed :: "crypto \<Rightarrow> party \<Rightarrow> bytes \<Rightarrow> bool" where
  "has_signed C p m \<longleftrightarrow> (let h = pa_object p; ctx = pa_context p in settled (pa_role p) h \<and>
     (case pa_role p of
       AsClient Bp \<Rightarrow> \<exists>hashab. hs_hashab (h_impl h) = Some hashab \<and> m = appID ctx @ Bp @ hashab
         \<and> hs_H (h_impl h) = Some (ed_sign C (signingKey (keyPair ctx)) m @ publicKey (keyPair ctx))
     | AsServer auth \<Rightarrow> \<exists>H hashab. hs_H (h_impl h) = Some H \<and> hs_hashab (h_impl h) = Some hashab
         \<and> m = appID ctx @ H @ hashab \<and> hs_Yp (h_impl h) = Some (range_of 64 32 H)
         \<and> (case auth of None \<Rightarrow> True | Some f \<Rightarrow> f (range_of 64 32 H))))"

section \<open>What a call does to that\<close>

lemma ack_check_frame:
  assumes "verifyServerAck C ack i = (r, i')"
  shows "hs_H i' = hs_H i \<and> hs_hashab i' = hs_hashab i"
  using assms by (auto simp: verifyServerAck_def serverAckKey_def with_val_def opt_value_def ebind_def Let_def
      split: option.splits sum.splits prod.splits)

text \<open>The message that a client accepts in its last step, and a server before its last.\<close>

lemma ack_check_accepts:
  assumes "knows_ephemeral C i" "knows_auth i" "hs_Yp i = Some Bp" "verifyServerAck C ack i = (Inr True, i')"
    "length ack = 80"
  shows "ack_accepted C (hs_K i) (msgs @ [ack]) Bp i'"
proof -
  obtain yp ab hashab where k: "hs_yp i = Some yp" "hs_ab i = Some ab" "hs_hashab i = Some hashab"
    using assms(1) by (rule knows_ephemeralE)
  obtain aB Ab H where a: "hs_aB i = Some aB" "hs_Ab i = Some Ab" "hs_H i = Some H"
    using assms(2) by (rule knows_authE)
  show ?thesis
    using verifyServerAck_eq [OF assms(3) k(1,2) a(1,2,3) k(3), of C ack] assms(4,5) k a
    by (auto simp: ack_accepted_def split: option.splits)
qed

lemma auth_check_accepts:
  assumes "knows_ephemeral C i" "verifyClientAuth C msg i = (Inr True, i')"
  shows "auth_accepted C (hs_K i) (msgs @ [msg]) (hs_Xp i) i'"
proof -
  obtain yp ab hashab where k: "hs_yp i = Some yp" "hs_ab i = Some ab" "hs_hashab i = Some hashab"
    using assms(1) by (rule knows_ephemeralE)
  show ?thesis
    using verifyClientAuth_challenged [OF k, of C msg] assms(2) k
    by (auto simp: auth_accepted_def split: option.splits)
qed

abbreviation called :: "party \<Rightarrow> bytes list \<Rightarrow> handshake \<Rightarrow> party" where
  "called p msgs h' \<equiv> p\<lparr>pa_object := h', pa_received := pa_received p @ msgs\<rparr>"

lemma party_run_call:
  assumes "party_run C p" "call (role_vt C (pa_role p)) (pa_object p) msgs fills h'"
  shows "party_run C (called p msgs h')"
  using assms api_run.step [OF _ call_api_step [OF assms(2)]] by (auto simp: party_run_def)

lemma client_accepted_call:
  assumes "party_run C p" "pa_role p = AsClient Bp" "call (client_vt C) (pa_object p) msgs fills h'" "accepted C p"
  shows "accepted C (called p msgs h')"
proof -
  obtain i0 where inv: "client_run.inv C None i0 Bp (pa_object p)" "hs_K i0 = appID (pa_context p)"
    using client_party_inv [OF assms(1,2)] by metis
  from inv(1) assms(3) show ?thesis
  proof (cases rule: client_run.call_cases)
    case same
    then show ?thesis using assms(2,4) accepted_more(1) by (simp add: accepted_def Let_def)
  next
    case (received bs ok i)
    show ?thesis
    proof (cases "h_step (pa_object p) = ServerAck \<and> ok")
      case True
      have v: "verifyServerAck C bs (h_impl (pa_object p)) = (Inr True, i)"
        using received(4) True
        by (auto simp: client_receivedBytes_def split: prod.splits dest!: arg_cong [where f = h_impl])
      have "client_J C i0 Bp ServerAck False (h_impl (pa_object p))"
        using client_run.inv_reading(2) [OF inv(1) received(2)] True by simp
      then have k: "knows_ephemeral C (h_impl (pa_object p))" "knows_auth (h_impl (pa_object p))"
        "hs_Yp (h_impl (pa_object p)) = Some Bp" "hs_K (h_impl (pa_object p)) = appID (pa_context p)"
        using inv(2) by (auto simp: J_defs same_peer_def)
      have "ack_accepted C (appID (pa_context p)) [bs] Bp i"
        using ack_check_accepts [OF k(1-3) v, of "[]"] received(3) True k(4) by (simp add: client_needs_def)
      from ack_accepted_kept [OF this _ refl refl, of "pa_received p @ msgs"] show ?thesis
        using received(1,5) assms(2) by (simp add: accepted_def Let_def)
    next
      case False
      then show ?thesis using received(2,6) assms(2)
        by (cases "h_step (pa_object p)") (auto simp: accepted_def client_needs_def Let_def)
    qed
  next
    case sent
    then show ?thesis using assms(2)
      by (cases "h_step (pa_object p)") (simp_all add: accepted_def client_needs_def live_def Let_def)
  next
    case (filled g)
    then show ?thesis using assms(2)
      by (cases "h_step (pa_object p)") (auto simp: accepted_def client_needs_def live_def Let_def)
  qed (use assms(2) in \<open>simp add: accepted_def Let_def\<close>)
qed

lemma ack_made_frame:
  assumes "createServerAck C i = (r, i')"
  shows "hs_H i' = hs_H i" "hs_hashab i' = hs_hashab i" "hs_Yp i' = hs_Yp i"
  using assms by (auto simp: createServerAck_def serverAckKey_def with_val_def opt_value_def ebind_def Let_def
      split: option.splits sum.splits)

lemma server_fill_ack:
  assumes "server_fillOutputBuffer C h = (q, g)" "h_step h = ServerAck"
  shows "\<exists>r. createServerAck C (h_impl h) = (r, h_impl g)"
  using assms by (auto simp: server_fillOutputBuffer_def with_val_def Let_def split: prod.splits sum.splits)

lemma server_recv_auth:
  assumes "server_receivedBytes C bs h = (Inr True, g)" "h_step h = ClientAuth"
  shows "verifyClientAuth C bs (h_impl h) = (Inr True, h_impl g)"
  using assms
  by (auto simp: server_receivedBytes_def with_val_def Let_def split: prod.splits sum.splits if_splits option.splits)

lemma server_auth_received:
  assumes "server_run.inv C auth i0 h" "hs_K i0 = K" "hs_Xp i0 = Xp" "h_step h = ClientAuth"
    and "verifyClientAuth C bs (h_impl h) = (Inr True, i)"
  shows "auth_accepted C K [bs] Xp i"
proof -
  have "server_needs (h_step h) \<noteq> 0" using assms(4) by (simp add: server_needs_def)
  then have "server_J C i0 auth ClientAuth False (h_impl h)"
    using server_run.inv_reading(2) [OF assms(1)] assms(4) by simp
  then have k: "knows_ephemeral C (h_impl h)" "hs_K (h_impl h) = K" "hs_Xp (h_impl h) = Xp"
    using assms(2,3) by (auto simp: J_defs same_peer_def)
  then show ?thesis using auth_check_accepts [OF k(1) assms(5), of "[]"] by simp
qed

lemma server_accepted_call:
  assumes "party_run C p" "pa_role p = AsServer auth" "call (server_vt C) (pa_object p) msgs fills h'" "accepted C p"
  shows "accepted C (called p msgs h')"
proof -
  obtain i0 where inv: "server_run.inv C auth i0 (pa_object p)" "hs_K i0 = appID (pa_context p)"
    "hs_Xp i0 = publicKey (keyPair (pa_context p))"
    using server_party_inv [OF assms(1,2)] by metis
  from inv(1) assms(3) show ?thesis
  proof (cases rule: server_run.call_cases)
    case same
    then show ?thesis using assms(2,4) accepted_more(2) by (simp add: accepted_def Let_def)
  next
    case sent
    then show ?thesis using assms(2,4) accepted_more(2)
      by (cases "h_step (pa_object p)") (simp_all add: accepted_def server_needs_def live_def Let_def)
  next
    case (received bs ok i)
    show ?thesis
    proof (cases "h_step (pa_object p) = ClientAuth \<and> ok")
      case True
      have v: "verifyClientAuth C bs (h_impl (pa_object p)) = (Inr True, i)"
        using server_recv_auth [of C bs "(pa_object p)\<lparr>h_inputBuffer := bs\<rparr>"] received(4) True by simp
      from auth_accepted_kept [OF server_auth_received [OF inv conjunct1 [OF True] v] _ refl refl, of "pa_received p @ msgs"] show ?thesis
        using received(1,5) assms(2) by (simp add: accepted_def Let_def)
    next
      case False
      then show ?thesis using received(2,6) assms(2)
        by (cases "h_step (pa_object p)") (auto simp: accepted_def server_needs_def Let_def)
    qed
  next
    case (filled g)
    show ?thesis
    proof (cases "h_step (pa_object p) = ServerAck")
      case True
      then obtain r where "createServerAck C (h_impl (pa_object p)) = (r, h_impl h')"
        using server_fill_ack filled(5,6) by fastforce
      from ack_made_frame(1,2) [OF this] show ?thesis
        using auth_accepted_kept [of C _ "pa_received p"] assms(2,4) True by (simp add: accepted_def Let_def)
    next
      case False
      then show ?thesis using filled(2,3,7) assms(2)
        by (cases "h_step (pa_object p)") (auto simp: accepted_def server_needs_def live_def Let_def)
    qed
  qed (use assms(2) in \<open>simp add: accepted_def Let_def\<close>)
qed

text \<open>Once a party has signed, no call changes what it has signed.\<close>

lemma client_signed_call:
  assumes "party_run C p" "pa_role p = AsClient Bp" "call (client_vt C) (pa_object p) msgs fills h'" "has_signed C p m"
  shows "has_signed C (called p msgs h') m"
proof -
  obtain i0 where inv: "client_run.inv C None i0 Bp (pa_object p)"
    using client_party_inv [OF assms(1,2)] by metis
  have settled: "settled (AsClient Bp) (pa_object p)" using assms(2,4) by (simp add: has_signed_def Let_def)
  from inv assms(3) show ?thesis
  proof (cases rule: client_run.call_cases)
    case (received bs ok i)
    then have step: "h_step (pa_object p) = ServerAck"
      using settled by (auto simp: settled_def client_needs_def)
    obtain r where "verifyServerAck C bs (h_impl (pa_object p)) = (r, i)"
      using received(4) step
      by (auto simp: client_receivedBytes_def split: prod.splits dest!: arg_cong [where f = h_impl])
    then have "hs_H (h_impl h') = hs_H (h_impl (pa_object p))"
      "hs_hashab (h_impl h') = hs_hashab (h_impl (pa_object p))"
      using ack_check_frame received(5) by auto
    then show ?thesis using assms(2,4) received(6) step by (auto simp: has_signed_def settled_def Let_def)
  next
    case (filled g)
    then show ?thesis using settled by (auto simp: settled_def client_needs_def live_def)
  next
    case sent
    then show ?thesis using assms(2,4) settled by (auto simp: has_signed_def settled_def live_def client_needs_def Let_def)
  qed (use assms(2,4) in \<open>auto simp: has_signed_def settled_def Let_def\<close>)
qed

lemma server_signed_call:
  assumes "party_run C p" "pa_role p = AsServer auth" "call (server_vt C) (pa_object p) msgs fills h'" "has_signed C p m"
  shows "has_signed C (called p msgs h') m"
proof -
  obtain i0 where inv: "server_run.inv C auth i0 (pa_object p)"
    using server_party_inv [OF assms(1,2)] by metis
  have settled: "settled (AsServer auth) (pa_object p)" using assms(2,4) by (simp add: has_signed_def Let_def)
  from inv assms(3) show ?thesis
  proof (cases rule: server_run.call_cases)
    case (received bs ok i)
    then show ?thesis using settled by (auto simp: settled_def server_needs_def)
  next
    case (filled g)
    then show ?thesis using settled by (auto simp: settled_def server_needs_def live_def)
  next
    case sent
    then show ?thesis using assms(2,4) settled by (auto simp: has_signed_def settled_def live_def server_needs_def Let_def)
  qed (use assms(2,4) in \<open>auto simp: has_signed_def settled_def Let_def\<close>)
qed

text \<open>When a message is recorded, the party has signed it.\<close>

lemma auth_made_frame:
  assumes "createClientAuth C i = (Inr d, i')" "hs_Yp i = Some Bp" "hs_hashab i = Some hashab"
  shows "hs_hashab i' = Some hashab" "hs_H i' = Some (ed_sign C (hs_X i) (hs_K i @ Bp @ hashab) @ hs_Xp i)"
  using assms by (auto simp: createClientAuth_def clientAuthKey_def with_val_def opt_value_def opt_deref_def Let_def
      split: option.splits sum.splits)

lemma client_signs_now:
  assumes "party_run C p" "pa_role p = AsClient Bp" "call (client_vt C) (pa_object p) msgs True h'"
    and "m \<in> set (signs (AsClient Bp) (pa_object p))"
  shows "has_signed C (called p msgs h') m"
proof -
  obtain i0 where inv: "client_run.inv C None i0 Bp (pa_object p)" "hs_K i0 = appID (pa_context p)"
    "hs_X i0 = signingKey (keyPair (pa_context p))" "hs_Xp i0 = publicKey (keyPair (pa_context p))"
    using client_party_inv [OF assms(1,2)] by metis
  let ?i = "h_impl (pa_object p)"
  obtain hashab where st: "h_step (pa_object p) = ClientAuth" "h_outputBuffer (pa_object p) = []"
    "hs_hashab ?i = Some hashab" "hs_Yp ?i \<noteq> None" "m = hs_K ?i @ the (hs_Yp ?i) @ hashab"
    using assms(4) by (auto simp: signs_def split: option.splits if_splits)
  have "client_J C i0 Bp ClientAuth False ?i" using inv(1) st(1,2) by (simp add: client_run.inv_def)
  then have k: "knows_ephemeral C ?i" "hs_Yp ?i = Some Bp" "hs_K ?i = appID (pa_context p)"
    "hs_X ?i = signingKey (keyPair (pa_context p))" "hs_Xp ?i = publicKey (keyPair (pa_context p))"
    using inv(2-4) by (auto simp: J_defs same_peer_def)
  obtain yp ab where e: "hs_yp ?i = Some yp" "hs_ab ?i = Some ab" using k(1) by (rule knows_ephemeralE)
  from inv(1) assms(3) show ?thesis
  proof (cases rule: client_run.call_cases)
    case (filled g)
    obtain d where c: "createClientAuth C ?i = (Inr d, h_impl h')"
      using createClientAuth_eq [OF k(2) e st(3), of C] filled(5,6) st(1)
      by (auto simp: client_fillOutputBuffer_def)
    from auth_made_frame [OF c k(2) st(3)] show ?thesis
      using filled(7) st k assms(2) by (auto simp: has_signed_def settled_def Let_def)
  qed (use st in \<open>auto simp: client_needs_def live_def\<close>)
qed

lemma server_signs_now:
  assumes "party_run C p" "pa_role p = AsServer auth" "call (server_vt C) (pa_object p) msgs True h'"
    and "m \<in> set (signs (AsServer auth) (pa_object p))"
  shows "has_signed C (called p msgs h') m"
proof -
  obtain i0 where inv: "server_run.inv C auth i0 (pa_object p)" "hs_K i0 = appID (pa_context p)"
    using server_party_inv [OF assms(1,2)] by metis
  let ?i = "h_impl (pa_object p)"
  obtain H hashab where st: "h_step (pa_object p) = ServerAck" "h_outputBuffer (pa_object p) = []"
    "hs_H ?i = Some H" "hs_hashab ?i = Some hashab" "m = hs_K ?i @ H @ hashab"
    using assms(4) by (auto simp: signs_def split: option.splits if_splits)
  have "server_J C i0 auth ServerAck False ?i" using inv(1) st(1,2) by (simp add: server_run.inv_def)
  then have k: "auth_checked C auth ?i" "hs_K ?i = appID (pa_context p)"
    using inv(2) by (auto simp: J_defs same_peer_def)
  from inv(1) assms(3) show ?thesis
  proof (cases rule: server_run.call_cases)
    case (filled g)
    then obtain r where "createServerAck C ?i = (r, h_impl h')" using server_fill_ack st(1) by fastforce
    from ack_made_frame [OF this] show ?thesis
      using filled(7) st k assms(2) by (auto simp: has_signed_def settled_def auth_checked_def Let_def)
  qed (use st in \<open>auto simp: server_needs_def live_def\<close>)
qed

section \<open>The invariant of a world\<close>

definition party_inv :: "crypto \<Rightarrow> party \<Rightarrow> bool" where
  "party_inv C p \<longleftrightarrow> party_run C p \<and> accepted C p"

definition world_inv :: "crypto \<Rightarrow> world \<Rightarrow> bool" where
  "world_inv C w \<longleftrightarrow> (\<forall>p \<in> set (parties w). party_inv C p)
     \<and> (\<forall>(pk, m) \<in> set (signatures w). \<exists>q \<in> set (parties w). signer C q = pk \<and> has_signed C q m)"

lemma called_inv:
  assumes "party_inv C p" "call (role_vt C (pa_role p)) (pa_object p) msgs fills h'"
  shows "party_inv C (called p msgs h')"
    and "has_signed C p m \<Longrightarrow> has_signed C (called p msgs h') m"
    and "fills \<Longrightarrow> m \<in> set (signs (pa_role p) (pa_object p)) \<Longrightarrow> has_signed C (called p msgs h') m"
proof -
  have p: "party_run C p" "accepted C p" using assms(1) by (simp_all add: party_inv_def)
  show "party_inv C (called p msgs h')"
    using party_run_call [OF p(1) assms(2)] client_accepted_call [OF p(1)] server_accepted_call [OF p(1)] assms(2) p(2)
    by (cases "pa_role p") (auto simp: party_inv_def)
  show "has_signed C (called p msgs h') m" if "has_signed C p m"
    using client_signed_call [OF p(1)] server_signed_call [OF p(1)] assms(2) that by (cases "pa_role p") auto
  show "has_signed C (called p msgs h') m" if "fills" "m \<in> set (signs (pa_role p) (pa_object p))"
    using client_signs_now [OF p(1)] server_signs_now [OF p(1)] assms(2) that by (cases "pa_role p") auto
qed

lemma new_party_inv:
  assumes "context_typed ctx" "length x = 32" "\<And>pk. r = AsClient pk \<Longrightarrow> length pk = 32"
  shows "party_inv C \<lparr>pa_role = r, pa_context = ctx, pa_object = new_object C r ctx x, pa_received = []\<rparr>"
proof -
  have "h_step (new_object C r ctx x) = ClientChallenge"
    by (cases r) (simp_all add: ClientHandshake_def ServerHandshake_def setClientAuthorizer_def new_Handshake_def Let_def)
  then show ?thesis
    using assms api_run.start by (auto simp: party_inv_def party_run_def accepted_def split: role.splits)
qed

lemma signer_called [simp]: "signer C (called p msgs h') = signer C p"
  by (simp add: signer_def)

lemma world_run_inv: "world_run C w \<Longrightarrow> world_inv C w"
proof (induction rule: world_run.induct)
  case (join w ctx x r)
  then show ?case using new_party_inv [of ctx x r C] by (auto simp: world_inv_def)
next
  case (calls w n p msgs fills h')
  have p: "p \<in> set (parties w)" using calls.hyps(2,3) by auto
  then have inv: "party_inv C p" using calls.IH by (simp add: world_inv_def)
  note called = called_inv [OF inv calls.hyps(4)]
  let ?ps = "(parties w)[n := called p msgs h']"
  have new: "called p msgs h' \<in> set ?ps" using calls.hyps(2) by (simp add: set_update_memI)
  have "\<exists>q \<in> set ?ps. signer C q = pk \<and> has_signed C q m" if "(pk, m) \<in> set (signatures w)" for pk m
  proof -
    obtain q where q: "q \<in> set (parties w)" "signer C q = pk" "has_signed C q m"
      using calls.IH \<open>(pk, m) \<in> set (signatures w)\<close> by (auto simp: world_inv_def)
    then obtain k where k: "k < length (parties w)" "q = parties w ! k" by (auto simp: in_set_conv_nth)
    show ?thesis
    proof (cases "k = n")
      case True
      then have "q = p" using k(2) calls.hyps(3) by simp
      then show ?thesis using q(2,3) called(2) by (intro bexI [OF _ new]) simp
    next
      case False
      then have "q \<in> set ?ps" using k by (metis length_list_update nth_list_update_neq nth_mem)
      then show ?thesis using q(2,3) by blast
    qed
  qed
  moreover have "\<exists>q \<in> set ?ps. signer C q = signer C p \<and> has_signed C q m"
    if "fills" "m \<in> set (signs (pa_role p) (pa_object p))" for m
    using called(3) [OF that] by (intro bexI [OF _ new]) simp
  moreover have "\<forall>q \<in> set ?ps. party_inv C q"
    using calls.IH called(1) set_update_subset_insert [of "parties w" n] by (fastforce simp: world_inv_def)
  ultimately show ?case by (auto simp: world_inv_def)
qed (simp add: world_inv_def)

text \<open>A signed message tells by its length who has signed it.\<close>

lemma world_signature:
  assumes "crypto_ok C" "world_inv C w" "(pk, m) \<in> set (signatures w)"
  obtains (client) q Bp hashab where "q \<in> set (parties w)" "signer C q = pk" "pa_role q = AsClient Bp"
      "m = appID (pa_context q) @ Bp @ hashab" "length (appID (pa_context q)) = 32" "length Bp = 32" "length hashab = 32"
      "hs_hashab (h_impl (pa_object q)) = Some hashab"
      "hs_H (h_impl (pa_object q)) = Some (ed_sign C (signingKey (keyPair (pa_context q))) m
         @ publicKey (keyPair (pa_context q)))"
  | (server) q auth H hashab where "q \<in> set (parties w)" "signer C q = pk" "pa_role q = AsServer auth"
      "m = appID (pa_context q) @ H @ hashab" "length (appID (pa_context q)) = 32" "length H = 96" "length hashab = 32"
      "hs_H (h_impl (pa_object q)) = Some H" "hs_hashab (h_impl (pa_object q)) = Some hashab"
      "hs_Yp (h_impl (pa_object q)) = Some (range_of 64 32 H)"
      "case auth of None \<Rightarrow> True | Some f \<Rightarrow> f (range_of 64 32 H)"
proof -
  obtain q where q: "q \<in> set (parties w)" "signer C q = pk" "has_signed C q m"
    using assms(2,3) by (auto simp: world_inv_def)
  then have run: "party_run C q" using assms(2) by (simp add: world_inv_def party_inv_def)
  then have ctx: "length (appID (pa_context q)) = 32" "\<And>Bp. pa_role q = AsClient Bp \<Longrightarrow> length Bp = 32"
    by (auto simp: party_run_def context_typed_def)
  have typed: "sized 32 (hs_hashab (h_impl (pa_object q)))" "sized 96 (hs_H (h_impl (pa_object q)))"
    using party_typed [OF assms(1) run] by (simp_all add: impl_typed_def)
  show ?thesis
  proof (cases "pa_role q")
    case (AsClient Bp)
    then show ?thesis using q ctx typed client [of q Bp] by (auto simp: has_signed_def Let_def)
  next
    case (AsServer auth)
    then show ?thesis using q ctx typed server [of q auth] by (auto simp: has_signed_def Let_def)
  qed
qed

section \<open>Properties\<close>

text \<open>
  C5: a server that has finished agrees with a client in its world. If the signature it received and
  accepted is not forged, that is, if a signature in its input that checks for the message it
  checks, under the key in its session, was made by a holder of that key in this world, then one of
  the parties is a client that signs with that key, has the same application ID, was constructed for
  this server's public key, has the same hash of the ephemeral secret, and has made its
  authentication message from them.
\<close>

theorem server_agrees_with_client:
  assumes "crypto_ok C" "world_run C w" "p \<in> set (parties w)" "pa_role p = AsServer auth"
    and "finished (pa_object p)" "get_session C (pa_object p) = Inr s"
    and "hs_hashab (h_impl (pa_object p)) = Some hashab"
    and "unforged C w p (peerPublicKey s) (appID (pa_context p) @ publicKey (keyPair (pa_context p)) @ hashab)"
  shows "\<exists>q \<in> set (parties w). pa_role q = AsClient (publicKey (keyPair (pa_context p)))
    \<and> signer C q = peerPublicKey s \<and> appID (pa_context q) = appID (pa_context p)
    \<and> hs_hashab (h_impl (pa_object q)) = Some hashab
    \<and> hs_H (h_impl (pa_object q)) = Some (ed_sign C (signingKey (keyPair (pa_context q)))
         (appID (pa_context p) @ publicKey (keyPair (pa_context p)) @ hashab) @ publicKey (keyPair (pa_context q)))"
proof -
  let ?ctx = "pa_context p" and ?i = "h_impl (pa_object p)"
  note inv = world_run_inv [OF assms(2)]
  have run: "party_run C p" and acc: "accepted C p" using inv assms(3) by (simp_all add: world_inv_def party_inv_def)
  obtain i0 where J: "server_run.inv C auth i0 (pa_object p)" using server_party_inv [OF run assms(4)] by metis
  obtain H key msg where H: "msg \<in> set (pa_received p)" "unbox0 C key msg = Some H" "hs_H ?i = Some H"
    "ed_check C (range_of 64 32 H) (range_of 0 64 H) (appID ?ctx @ publicKey (keyPair ?ctx) @ hashab)"
    using acc assms(4,5,7) by (auto simp: accepted_def auth_accepted_def finished_def Let_def)
  have "auth_checked C auth ?i" using J assms(5) by (auto simp: server_run.inv_def J_defs finished_def)
  then have "hs_Yp ?i = Some (range_of 64 32 H)" using H(3) by (auto simp: auth_checked_def)
  then have pk: "peerPublicKey s = range_of 64 32 H"
    using assms(6) by (auto simp: get_session_def getOutcome_def Let_def opt_value_def split: if_splits option.splits)
  have signed: "(peerPublicKey s, appID ?ctx @ publicKey (keyPair ?ctx) @ hashab) \<in> set (signatures w)"
    using assms(8) H by (auto simp: unforged_def pk)
  have len: "length (appID ?ctx) = 32" "length (publicKey (keyPair ?ctx)) = 32" "length hashab = 32"
    using run party_typed [OF assms(1) run] assms(7) by (auto simp: party_run_def context_typed_def impl_typed_def)
  from assms(1) inv signed show ?thesis
  proof (cases rule: world_signature)
    case (client q Bp hashab')
    then show ?thesis using len by (intro bexI [OF _ client(1)]) auto
  next
    case (server q auth' H' hashab')
    then show ?thesis using len arg_cong [OF server(4), of length] by simp
  qed
qed

text \<open>
  C6: a client that has finished agrees with a server in its world. If the signature it received and
  accepted is not forged, then one of the parties is a server that signs with the key for which the
  client was constructed, has the same application ID, has received the client's authentication
  message as the client made it, takes the client's public key for its peer's, has the same hash of
  the ephemeral secret, and whose authorizer has accepted the client.
\<close>

theorem client_agrees_with_server:
  assumes "crypto_ok C" "world_run C w" "p \<in> set (parties w)" "pa_role p = AsClient pk"
    and "finished (pa_object p)"
    and "hs_H (h_impl (pa_object p)) = Some H" "hs_hashab (h_impl (pa_object p)) = Some hashab"
    and "unforged C w p pk (appID (pa_context p) @ H @ hashab)"
  shows "\<exists>q \<in> set (parties w). \<exists>auth. pa_role q = AsServer auth
    \<and> signer C q = pk \<and> appID (pa_context q) = appID (pa_context p)
    \<and> hs_H (h_impl (pa_object q)) = Some H \<and> hs_hashab (h_impl (pa_object q)) = Some hashab
    \<and> hs_Yp (h_impl (pa_object q)) = Some (publicKey (keyPair (pa_context p)))
    \<and> (\<forall>f. auth = Some f \<longrightarrow> f (publicKey (keyPair (pa_context p))))"
proof -
  let ?ctx = "pa_context p" and ?i = "h_impl (pa_object p)"
  note inv = world_run_inv [OF assms(2)]
  have run: "party_run C p" and acc: "accepted C p" using inv assms(3) by (simp_all add: world_inv_def party_inv_def)
  obtain i0 where J: "client_run.inv C None i0 pk (pa_object p)" "hs_Xp i0 = publicKey (keyPair ?ctx)"
    using client_party_inv [OF run assms(4)] by metis
  obtain key sig msg where m: "msg \<in> set (pa_received p)" "length msg = 80" "unbox0 C key msg = Some sig"
    "ed_check C pk sig (appID ?ctx @ H @ hashab)"
    using acc assms(4-7) by (auto simp: accepted_def ack_accepted_def finished_def Let_def)
  have "length sig = 64" using unbox0_length [OF assms(1) m(3)] m(2) by simp
  then have "range_of 0 64 sig = sig" by (simp add: range_of_def)
  then have signed: "(pk, appID ?ctx @ H @ hashab) \<in> set (signatures w)"
    using assms(8) m by (auto simp: unforged_def)
  have "auth_made C pk ?i" "same_peer i0 ?i" using J(1) assms(5) by (auto simp: client_run.inv_def J_defs finished_def)
  then obtain sig' where H: "H = sig' @ publicKey (keyPair ?ctx)" "length sig' = 64"
    using assms(6) J(2) ed_sign_len [OF assms(1)] by (auto simp: auth_made_def same_peer_def)
  have len: "length (appID ?ctx) = 32" "length (publicKey (keyPair ?ctx)) = 32" "length hashab = 32"
    using run party_typed [OF assms(1) run] assms(7) by (auto simp: party_run_def context_typed_def impl_typed_def)
  have H': "range_of 64 32 H = publicKey (keyPair ?ctx)" "length H = 96" using H len by (simp_all add: range_of_def)
  from assms(1) inv signed show ?thesis
  proof (cases rule: world_signature)
    case (client q Bp hashab')
    then show ?thesis using len H'(2) arg_cong [OF client(4), of length] by simp
  next
    case (server q auth H2 hashab')
    then have "H2 = H" "hashab' = hashab" "appID (pa_context q) = appID ?ctx" using len H'(2) by auto
    then show ?thesis using server H'(1) by (intro bexI [OF _ server(1)] exI [of _ auth]) auto
  qed
qed

section \<open>An example\<close>

text \<open>One party's message is delivered to another.\<close>

lemma world_turn:
  assumes "world_run C w" "n < length (parties w)" "k < length (parties w)" "n \<noteq> k"
    "turn (role_vt C (pa_role (parties w ! n))) (role_vt C (pa_role (parties w ! k)))
       (pa_object (parties w ! n)) (pa_object (parties w ! k)) = Some (h, g)"
  shows "\<exists>w' ms. world_run C w'
    \<and> parties w' = (parties w)[n := (parties w ! n)\<lparr>pa_object := h\<rparr>, k := called (parties w ! k) ms g]
    \<and> set (signatures w) \<subseteq> set (signatures w')
    \<and> (\<forall>m \<in> set (signs (pa_role (parties w ! n)) (pa_object (parties w ! n))).
        (signer C (parties w ! n), m) \<in> set (signatures w'))"
proof -
  let ?p = "parties w ! n" and ?q = "parties w ! k"
  obtain c d u where t: "copyBytesToSend (role_vt C (pa_role ?p)) 200 (pa_object ?p) = (Inr (c, d), h)"
    "receivedBytes (role_vt C (pa_role ?q)) d (pa_object ?q) = (Inr u, g)"
    using assms(5) by (auto simp: turn_def split: prod.splits sum.splits)
  note 1 = world_run.calls [OF assms(1,2) refl call.copyBytesToSend [OF t(1)]]
  define w1 where "w1 = w\<lparr>parties := (parties w)[n := called ?p [] h], signatures := signatures w
    @ map (Pair (signer C ?p)) (signs (pa_role ?p) (pa_object ?p))\<rparr>"
  have w1: "world_run C w1" "k < length (parties w1)" "parties w1 ! k = ?q"
    using 1 assms(3,4) by (simp_all add: w1_def)
  note 2 = world_run.calls [OF w1 call.receivedBytes [OF t(2)]]
  show ?thesis by (intro exI conjI, rule 2) (auto simp: w1_def)
qed

text \<open>The same for a world of two parties, from the first to the second and back.\<close>

lemma world_turn_forth:
  assumes "world_run C w" "parties w = [p, q]"
    "turn (role_vt C (pa_role p)) (role_vt C (pa_role q)) (pa_object p) (pa_object q) = Some (h, g)"
  shows "\<exists>w' ms. world_run C w' \<and> parties w' = [p\<lparr>pa_object := h\<rparr>, called q ms g]
    \<and> set (signatures w) \<subseteq> set (signatures w')
    \<and> (\<forall>m \<in> set (signs (pa_role p) (pa_object p)). (signer C p, m) \<in> set (signatures w'))"
  using world_turn [OF assms(1), of 0 1 h g] assms(2,3) by simp

lemma world_turn_back:
  assumes "world_run C w" "parties w = [p, q]"
    "turn (role_vt C (pa_role q)) (role_vt C (pa_role p)) (pa_object q) (pa_object p) = Some (g, h)"
  shows "\<exists>w' ms. world_run C w' \<and> parties w' = [called p ms h, q\<lparr>pa_object := g\<rparr>]
    \<and> set (signatures w) \<subseteq> set (signatures w')
    \<and> (\<forall>m \<in> set (signs (pa_role q) (pa_object q)). (signer C q, m) \<in> set (signatures w'))"
  using world_turn [OF assms(1), of 1 0 g h] assms(2,3) by simp

lemma sized_world:
  obtains w p q H hashab s where "world_run toy w" "p \<in> set (parties w)" "q \<in> set (parties w)"
    "pa_role p = AsClient (replicate 32 3)" "pa_context p = sized_ctx 1" "finished (pa_object p)"
    "hs_H (h_impl (pa_object p)) = Some H" "hs_hashab (h_impl (pa_object p)) = Some hashab"
    "pa_role q = AsServer None" "pa_context q = sized_ctx 3" "finished (pa_object q)"
    "hs_hashab (h_impl (pa_object q)) = Some hashab"
    "get_session toy (pa_object q) = Inr s" "peerPublicKey s = replicate 32 1"
    "(replicate 32 1, replicate 32 5 @ replicate 32 3 @ hashab) \<in> set (signatures w)"
    "(replicate 32 3, replicate 32 5 @ H @ hashab) \<in> set (signatures w)"
proof -
  obtain c1 s1 c2 s2 c3 s3 H hashab s where e:
    "rounds 1 sized_client sized_server = Some (c1, s1)"
    "turn (client_vt toy) (server_vt toy) c1 s1 = Some (c2, s2)"
    "turn (server_vt toy) (client_vt toy) s2 c2 = Some (s3, c3)"
    "h_step c1 = ClientAuth" "h_outputBuffer c1 = []" "hs_K (h_impl c1) = replicate 32 5"
    "hs_Yp (h_impl c1) = Some (replicate 32 3)" "hs_hashab (h_impl c1) = Some hashab"
    "h_step s2 = ServerAck" "h_outputBuffer s2 = []" "hs_K (h_impl s2) = replicate 32 5"
    "hs_H (h_impl s2) = Some H" "hs_hashab (h_impl s2) = Some hashab"
    "finished c3" "hs_H (h_impl c3) = Some H" "hs_hashab (h_impl c3) = Some hashab"
    "finished s3" "hs_hashab (h_impl s3) = Some hashab"
    "get_session toy s3 = Inr s" "peerPublicKey s = replicate 32 1"
    by (rule sized_turns)
  obtain ca sa where r: "turn (client_vt toy) (server_vt toy) sized_client sized_server = Some (ca, sa)"
    "turn (server_vt toy) (client_vt toy) sa ca = Some (s1, c1)"
    using e(1) by (auto split: option.splits)
  define p where "p h ms = \<lparr>pa_role = AsClient (replicate 32 3), pa_context = sized_ctx 1, pa_object = h, pa_received = ms\<rparr>" for h ms
  define q where "q h ms = \<lparr>pa_role = AsServer None, pa_context = sized_ctx 3, pa_object = h, pa_received = ms\<rparr>" for h ms
  note pq = p_def q_def
  have signers: "signer toy (p h ms) = replicate 32 1" "signer toy (q h ms) = replicate 32 3" for h ms
    by (simp_all add: pq signer_def sized_ctx_def KeyPair_of_signing_def toy_def)
  have 0: "world_run toy \<lparr>parties = [p sized_client [], q sized_server []], signatures = []\<rparr>"
    using world_run.join [OF world_run.join [OF world_run.start sized_ctx_typed, of "replicate 32 7" "AsClient (replicate 32 3)" toy 1]
        sized_ctx_typed, of "replicate 32 9" "AsServer None" 3]
    by (simp add: pq sized_client_def sized_server_def)
  obtain w1 m1 where 1: "world_run toy w1" "parties w1 = [p ca [], q sa m1]"
    using world_turn_forth [OF 0, of "p sized_client []" "q sized_server []" ca sa] r(1) by (auto simp: pq)
  obtain w2 m2 where 2: "world_run toy w2" "parties w2 = [p c1 m2, q s1 m1]"
    using world_turn_back [OF 1, of s1 c1] r(2) by (auto simp: pq)
  obtain w3 m3 where 3: "world_run toy w3" "parties w3 = [p c2 m2, q s2 m3]"
    "\<forall>m \<in> set (signs (AsClient (replicate 32 3)) c1). (replicate 32 1, m) \<in> set (signatures w3)"
    using world_turn_forth [OF 2, of c2 s2, unfolded signers] e(2) by (auto simp: pq)
  obtain w4 m4 where 4: "world_run toy w4" "parties w4 = [p c3 m4, q s3 m3]"
    "set (signatures w3) \<subseteq> set (signatures w4)"
    "\<forall>m \<in> set (signs (AsServer None) s2). (replicate 32 3, m) \<in> set (signatures w4)"
    using world_turn_back [OF 3(1,2), of s3 c3, unfolded signers] e(3) by (auto simp: pq)
  show ?thesis
    by (rule that [OF 4(1), of "p c3 m4" "q s3 m3"])
      (use 4 3(3) e in \<open>auto simp: pq signs_def\<close>)
qed

theorem server_agrees_with_client_witness:
  "\<exists>w p q. world_run toy w \<and> p \<in> set (parties w) \<and> q \<in> set (parties w) \<and> finished (pa_object p)
     \<and> pa_role q = AsClient (replicate 32 3) \<and> signer toy q = replicate 32 1
     \<and> hs_hashab (h_impl (pa_object q)) = hs_hashab (h_impl (pa_object p))"
proof -
  obtain w p q H hashab s where e: "world_run toy w" "q \<in> set (parties w)"
    "pa_role q = AsServer None" "pa_context q = sized_ctx 3" "finished (pa_object q)"
    "hs_hashab (h_impl (pa_object q)) = Some hashab"
    "get_session toy (pa_object q) = Inr s" "peerPublicKey s = replicate 32 1"
    "(replicate 32 1, replicate 32 5 @ replicate 32 3 @ hashab) \<in> set (signatures w)"
    by (rule sized_world)
  have "unforged toy w q (peerPublicKey s) (appID (pa_context q) @ publicKey (keyPair (pa_context q)) @ hashab)"
    using e by (simp add: unforged_def sized_ctx_keys)
  from server_agrees_with_client [OF toy_ok e(1,2,3,5,7,6) this] obtain q' where "q' \<in> set (parties w)"
    "pa_role q' = AsClient (replicate 32 3)" "signer toy q' = replicate 32 1"
    "hs_hashab (h_impl (pa_object q')) = hs_hashab (h_impl (pa_object q))"
    using e by (auto simp: sized_ctx_keys)
  then show ?thesis using e(1,2,5) by metis
qed

theorem client_agrees_with_server_witness:
  "\<exists>w p q auth. world_run toy w \<and> p \<in> set (parties w) \<and> q \<in> set (parties w) \<and> finished (pa_object p)
     \<and> pa_role q = AsServer auth \<and> signer toy q = replicate 32 3
     \<and> hs_Yp (h_impl (pa_object q)) = Some (replicate 32 1)"
proof -
  obtain w p H hashab where e: "world_run toy w" "p \<in> set (parties w)"
    "pa_role p = AsClient (replicate 32 3)" "pa_context p = sized_ctx 1" "finished (pa_object p)"
    "hs_H (h_impl (pa_object p)) = Some H" "hs_hashab (h_impl (pa_object p)) = Some hashab"
    "(replicate 32 3, replicate 32 5 @ H @ hashab) \<in> set (signatures w)"
    by (rule sized_world)
  have "unforged toy w p (replicate 32 3) (appID (pa_context p) @ H @ hashab)"
    using e by (simp add: unforged_def sized_ctx_keys)
  from client_agrees_with_server [OF toy_ok e(1,2,3,5,6,7) this] obtain q auth where "q \<in> set (parties w)"
    "pa_role q = AsServer auth" "signer toy q = replicate 32 3" "hs_Yp (h_impl (pa_object q)) = Some (replicate 32 1)"
    using e by (auto simp: sized_ctx_keys)
  then show ?thesis using e(1,2,5) by metis
qed

end
