(* ===== verification/Logging.thy ===== *)
theory Logging
  imports Handshake_Safety
begin

text \<open>
  Logging: \<open>LogLevel\<close> and \<open>LogCallback\<close> (\<open>SecretHandshakeTypes.hh\<close>), the function \<open>_Log\<close> and the macro
  \<open>Log\<close> (\<open>SecretHandshake.cc\<close>, \<open>SecretHandshake_Internal.hh\<close>), the calls of it in class \<open>Handshake\<close>, and
  the callback that the Crouton adapter installs. The member functions of \<open>Handshake\<close> appear a
  second time, with the state \<open>'w\<close> that the callback acts on beside the object. Without the log they
  are the functions of theory \<open>Handshake\<close>; what is logged follows the handshake truthfully and
  holds nothing but step numbers and message sizes.
\<close>

section \<open>The callback\<close>

datatype LogLevel = log_trace | log_debug | log_info | log_warn | log_err | log_critical | log_off

fun level_num :: "LogLevel \<Rightarrow> nat" where
  "level_num log_trace = 0"
| "level_num log_debug = 1"
| "level_num log_info = 2"
| "level_num log_warn = 3"
| "level_num log_err = 4"
| "level_num log_critical = 5"
| "level_num log_off = 6"

text \<open>The variadic arguments that occur: an \<open>int\<close> for \<open>%d\<close> and a \<open>size_t\<close> for \<open>%zu\<close>.\<close>

datatype log_arg = Int_arg int | Size_arg nat

type_synonym 'w log_callback = "LogLevel \<Rightarrow> string \<Rightarrow> log_arg list \<Rightarrow> 'w \<Rightarrow> 'w"

definition Log_function :: "'w log_callback option \<Rightarrow> LogLevel \<Rightarrow> string \<Rightarrow> log_arg list \<Rightarrow> 'w \<Rightarrow> 'w" where
  "Log_function cb level format args w = (case cb of None \<Rightarrow> w | Some f \<Rightarrow> f level format args w)"

definition Log :: "'w log_callback option \<Rightarrow> LogLevel \<Rightarrow> string \<Rightarrow> log_arg list \<Rightarrow> 'w \<Rightarrow> 'w" where
  "Log cb level format args w = (if cb \<noteq> None then Log_function cb level format args w else w)"

section \<open>The handshake with its log\<close>

abbreviation step_arg :: "handshake \<Rightarrow> log_arg" where
  "step_arg h \<equiv> Int_arg (int (step_num (h_step h)))"

text \<open>A call that logs nothing.\<close>

definition silent :: "('r, handshake) outcome \<Rightarrow> 'w \<Rightarrow> ('r, handshake \<times> 'w) outcome" where
  "silent p w = (fst p, snd p, w)"

definition logged_nextStep :: "'w log_callback option \<Rightarrow> handshake \<times> 'w
    \<Rightarrow> (unit, handshake \<times> 'w) outcome" where
  "logged_nextStep cb = (\<lambda>(h, w).
     if Failed < h_step h \<and> h_step h < Finished
     then let h1 = h\<lparr>h_step := step_succ (h_step h)\<rparr>
          in (Inr (), h1,
              if h_step h1 = Finished then Log cb log_info ''Successful handshake!'' [] w else w)
     else (Inl AssertFailed, h, w))"

definition logged_bytesToRead :: "vtable \<Rightarrow> 'w log_callback option \<Rightarrow> handshake \<times> 'w
    \<Rightarrow> nat \<times> handshake \<times> 'w" where
  "logged_bytesToRead V cb = (\<lambda>(h, w).
     let needed = byteCountNeeded V h;
         w1 = if 0 < needed
              then Log cb log_debug ''Step %d/4: Awaiting %zu bytes...'' [step_arg h, Size_arg needed] w
              else w
     in (needed, h\<lparr>h_inputBuffer := resize needed (h_inputBuffer h)\<rparr>, w1))"

definition logged_readCompleted :: "vtable \<Rightarrow> 'w log_callback option \<Rightarrow> handshake \<times> 'w
    \<Rightarrow> (bool, handshake \<times> 'w) outcome" where
  "logged_readCompleted V cb = (\<lambda>(h, w).
     if length (h_inputBuffer h) \<noteq> byteCountNeeded V h then (Inl LogicError, h, w)
     else ebind (silent (receivedBytes_v V (h_inputBuffer h) h) w)
       (\<lambda>ok (h1, w1). if ok
          then ebind (logged_nextStep cb (h1, Log cb log_debug ''Step %d OK'' [step_arg h1] w1))
                 (\<lambda>_ (h2, w2). (Inr True, h2\<lparr>h_inputBuffer := []\<rparr>, w2)) (\<lambda>hw. hw)
          else (Inr False, failed h1,
                Log cb log_err ''Received invalid data in step %d; HANDSHAKE FAILED'' [step_arg h1] w1))
       (\<lambda>hw. hw))"

definition logged_readFailed :: "'w log_callback option \<Rightarrow> handshake \<times> 'w \<Rightarrow> handshake \<times> 'w" where
  "logged_readFailed cb = (\<lambda>(h, w).
     (failed h, Log cb log_err ''Unexpected EOF at step %d; HANDSHAKE FAILED'' [step_arg h] w))"

definition logged_receivedBytes :: "vtable \<Rightarrow> 'w log_callback option \<Rightarrow> bytes \<Rightarrow> handshake \<times> 'w
    \<Rightarrow> (int, handshake \<times> 'w) outcome" where
  "logged_receivedBytes V cb src = (\<lambda>(h, w).
     if h_step h = Failed \<or> h_step h = Finished then (Inr (- 1), h, w)
     else let needed = byteCountNeeded V h
          in if needed = 0 then (Inr 0, h, w)
             else let count = min (length src) (size_sub needed (length (h_inputBuffer h)));
                      h1 = h\<lparr>h_inputBuffer := h_inputBuffer h @ take count src\<rparr>;
                      ret = (\<lambda>h2. if h_step h2 \<noteq> Failed then int count else - 1)
                  in if length (h_inputBuffer h1) < needed
                     then (Inr (ret h1), h1,
                           Log cb log_debug ''Received %zu bytes; waiting...'' [Size_arg count] w)
                     else ebind (logged_readCompleted V cb (h1, w))
                            (\<lambda>_ (h2, w2). (Inr (ret h2), h2, w2)) (\<lambda>hw. hw))"

definition logged_bytesToSend :: "vtable \<Rightarrow> 'w log_callback option \<Rightarrow> handshake \<times> 'w
    \<Rightarrow> (bytes, handshake \<times> 'w) outcome" where
  "logged_bytesToSend V cb = (\<lambda>(h, w).
     if h_step h = Failed \<or> h_step h = Finished then (Inr [], h, w)
     else ebind (silent (if h_outputBuffer h = [] then fillOutputBuffer_v V h else (Inr (), h)) w)
       (\<lambda>_ (h1, w1). (Inr (h_outputBuffer h1), h1,
          if h_outputBuffer h1 \<noteq> []
          then Log cb log_debug ''Step %d/4: Sending %zu bytes...''
                 [step_arg h1, Size_arg (length (h_outputBuffer h1))] w1
          else w1))
       (\<lambda>hw. hw))"

definition logged_sendCompleted :: "'w log_callback option \<Rightarrow> handshake \<times> 'w
    \<Rightarrow> (unit, handshake \<times> 'w) outcome" where
  "logged_sendCompleted cb = (\<lambda>(h, w).
     if h_outputBuffer h = [] then (Inl LogicError, h, w)
     else logged_nextStep cb (h\<lparr>h_outputBuffer := []\<rparr>, Log cb log_debug ''Send completed'' [] w))"

definition logged_copyBytesToSend :: "vtable \<Rightarrow> 'w log_callback option \<Rightarrow> nat \<Rightarrow> handshake \<times> 'w
    \<Rightarrow> (int \<times> bytes, handshake \<times> 'w) outcome" where
  "logged_copyBytesToSend V cb maxCount = (\<lambda>(h, w).
     if h_step h = Failed then (Inr (- 1, []), h, w)
     else ebind (if h_outputBuffer h = [] then logged_bytesToSend V cb (h, w)
                 else (Inr (h_outputBuffer h), h, w))
       (\<lambda>out (h1, w1).
          if out = [] then (Inr (0, []), h1, w1)
          else let count = min (length (h_outputBuffer h1)) maxCount;
                   copied = take count (h_outputBuffer h1);
                   h2 = h1\<lparr>h_outputBuffer := drop count (h_outputBuffer h1)\<rparr>
               in if h_outputBuffer h2 = []
                  then ebind (logged_nextStep cb (h2, Log cb log_debug ''Send completed'' [] w1))
                         (\<lambda>_ hw. (Inr (int count, copied), hw)) (\<lambda>hw. hw)
                  else (Inr (int count, copied), h2,
                        Log cb log_debug ''Sent %zu bytes...'' [Size_arg count] w1))
       (\<lambda>hw. hw))"

section \<open>Formatting\<close>

text \<open>The conversions in a format string, and the text that \<open>vasprintf\<close> makes of it. It has no result
  for arguments that do not belong to the conversions; memory is taken to be enough.\<close>

datatype conversion = Conv_int | Conv_size

fun conversions :: "string \<Rightarrow> conversion list" where
  "conversions [] = []"
| "conversions [c] = []"
| "conversions [c, d] = (if c = CHR ''%'' \<and> d = CHR ''d'' then [Conv_int] else [])"
| "conversions (c # d # e # cs) =
     (if c = CHR ''%'' \<and> d = CHR ''d'' then Conv_int # conversions (e # cs)
      else if c = CHR ''%'' \<and> d = CHR ''z'' \<and> e = CHR ''u'' then Conv_size # conversions cs
      else conversions (d # e # cs))"

fun arg_conversion :: "log_arg \<Rightarrow> conversion" where
  "arg_conversion (Int_arg n) = Conv_int"
| "arg_conversion (Size_arg n) = Conv_size"

definition printf_ok :: "string \<Rightarrow> log_arg list \<Rightarrow> bool" where
  "printf_ok format args \<longleftrightarrow> conversions format = map arg_conversion args"

fun decimal :: "nat \<Rightarrow> string" where
  "decimal n = (if n < 10 then [char_of (48 + n)] else decimal (n div 10) @ [char_of (48 + n mod 10)])"

declare decimal.simps [simp del]

fun arg_text :: "log_arg \<Rightarrow> string" where
  "arg_text (Int_arg n) = (if n < 0 then CHR ''-'' # decimal (nat (- n)) else decimal (nat n))"
| "arg_text (Size_arg n) = decimal n"

fun vformat :: "string \<Rightarrow> log_arg list \<Rightarrow> string" where
  "vformat [] args = []"
| "vformat [c] args = [c]"
| "vformat [c, d] args = (if c = CHR ''%'' \<and> d = CHR ''d'' then arg_text (hd args) else [c, d])"
| "vformat (c # d # e # cs) args =
     (if c = CHR ''%'' \<and> d = CHR ''d'' then arg_text (hd args) @ vformat (e # cs) (tl args)
      else if c = CHR ''%'' \<and> d = CHR ''z'' \<and> e = CHR ''u''
           then arg_text (hd args) @ vformat cs (tl args)
      else c # vformat (d # e # cs) args)"

definition vasprintf :: "string \<Rightarrow> log_arg list \<Rightarrow> string option" where
  "vasprintf format args = (if printf_ok format args then Some (vformat format args) else None)"

section \<open>The callback of the Crouton adapter\<close>

text \<open>\<open>lnet_log\<close> is \<open>log\<close> of Crouton's logger: level, format, argument.\<close>

definition shslog :: "(nat \<Rightarrow> string \<Rightarrow> string \<Rightarrow> 'w \<Rightarrow> 'w) \<Rightarrow> 'w log_callback" where
  "shslog lnet_log level format args w =
     (case vasprintf format args of
        None \<Rightarrow> w
      | Some message \<Rightarrow> lnet_log (level_num level) ''SecretHandshake: {}'' message w)"

text \<open>The global callback, and the flag that the constructor of \<open>SecretHandshake\<close> passes to
  \<open>call_once\<close>.\<close>

record 'w log_globals =
  LogCallback :: "'w log_callback option"
  sOnce :: bool

definition install_shslog :: "(nat \<Rightarrow> string \<Rightarrow> string \<Rightarrow> 'w \<Rightarrow> 'w) \<Rightarrow> 'w log_globals \<Rightarrow> 'w log_globals" where
  "install_shslog lnet_log g =
     (if sOnce g then g
      else g\<lparr>sOnce := True, LogCallback :=
        (if LogCallback g = None then Some (shslog lnet_log) else LogCallback g)\<rparr>)"

text \<open>However many handshakes are made, a program's own callback stays, set before or after.\<close>

lemma install_keeps_callback:
  "LogCallback g = Some f \<Longrightarrow> LogCallback ((install_shslog l ^^ n) g) = Some f"
  "0 < n \<Longrightarrow> LogCallback ((install_shslog l ^^ m) (((install_shslog l ^^ n) g)\<lparr>LogCallback := cb\<rparr>)) = cb"
proof -
  show "LogCallback ((install_shslog l ^^ n) g) = Some f" if "LogCallback g = Some f"
    using that by (induction n) (simp_all add: install_shslog_def)
  have once: "sOnce ((install_shslog l ^^ n) g)" if "0 < n"
    using that by (cases n) (simp_all add: install_shslog_def)
  have "sOnce g' \<Longrightarrow> (install_shslog l ^^ m) g' = g'" for g' :: "'a log_globals"
    by (induction m) (simp_all add: install_shslog_def)
  then show "LogCallback ((install_shslog l ^^ m) (((install_shslog l ^^ n) g)\<lparr>LogCallback := cb\<rparr>)) = cb"
    if "0 < n" using once [OF that] by simp
qed

section \<open>What is logged\<close>

type_synonym log_record = "LogLevel \<times> string \<times> log_arg list"

text \<open>The calls of a callback, one after the other.\<close>

definition replay :: "'w log_callback option \<Rightarrow> log_record list \<Rightarrow> 'w \<Rightarrow> 'w" where
  "replay cb es w = (case cb of None \<Rightarrow> w | Some f \<Rightarrow> fold (\<lambda>(l, t, a). f l t a) es w)"

lemma replay_Nil [simp]: "replay cb [] w = w"
  by (simp add: replay_def split: option.split)

lemma replay_append: "replay cb (xs @ ys) w = replay cb ys (replay cb xs w)"
  by (simp add: replay_def split: option.split)

lemma Log_replay: "Log cb l t a w = replay cb [(l, t, a)] w"
  by (simp add: Log_def Log_function_def replay_def split: option.split)

text \<open>A record that fits its format, with step numbers and sizes of messages as its only numbers.\<close>

definition harmless :: "log_record \<Rightarrow> bool" where
  "harmless = (\<lambda>(l, t, a). printf_ok t a
     \<and> list_all (\<lambda>x. case x of Int_arg n \<Rightarrow> 0 \<le> n \<and> n \<le> 5 | Size_arg n \<Rightarrow> n \<le> 112) a)"

definition successes :: "log_record list \<Rightarrow> nat" where
  "successes es = length (filter (\<lambda>(l, t, a). t = ''Successful handshake!'') es)"

definition reports_error :: "log_record list \<Rightarrow> bool" where
  "reports_error es \<longleftrightarrow> (\<exists>e \<in> set es. fst e = log_err)"

text \<open>What one call logs, given the step before and after.\<close>

definition log_fits :: "step \<Rightarrow> step \<Rightarrow> log_record list \<Rightarrow> bool" where
  "log_fits s s' es \<longleftrightarrow> list_all harmless es
     \<and> successes es = (if s \<noteq> Finished \<and> s' = Finished then 1 else 0)
     \<and> (reports_error es \<longrightarrow> s' = Failed) \<and> (s \<noteq> Failed \<and> s' = Failed \<longrightarrow> reports_error es)"

lemma log_fits_Nil [simp]: "log_fits s s [] "
  by (auto simp: log_fits_def successes_def reports_error_def)

lemma step_num_le: "step_num s \<le> 5"
  by (cases s) simp_all

lemmas log_defs = log_fits_def successes_def reports_error_def harmless_def printf_ok_def step_num_le

lemma nextStep_log:
  assumes "logged_nextStep cb (h, w) = (r, h', w')"
  shows "nextStep h = (r, h') \<and> (\<exists>es. w' = replay cb es w \<and> log_fits (h_step h) (h_step h') es)"
proof (cases "live (h_step h)")
  case True
  let ?es = "if step_succ (h_step h) = Finished then [(log_info, ''Successful handshake!'', [])] else []"
  have "h' = h\<lparr>h_step := step_succ (h_step h)\<rparr>" "w' = replay cb ?es w" "r = Inr ()"
    using assms True
    by (cases "h_step h"; auto simp: logged_nextStep_def live_def step_order Log_replay)+
  moreover have "log_fits (h_step h) (step_succ (h_step h)) ?es"
    using True by (cases "h_step h") (simp_all add: log_defs live_def)
  ultimately show ?thesis using nextStep_live [OF True] by (intro conjI exI [of _ ?es]) simp_all
next
  case False
  then show ?thesis
    using assms nextStep_dead [OF False]
    by (cases "h_step h") (auto simp: logged_nextStep_def live_def step_order intro!: exI [of _ "[]"])
qed

text \<open>A record before the step changes.\<close>

lemma log_fits_Cons:
  assumes "log_fits s s' es" "harmless (log_debug, t, a)" "t \<noteq> ''Successful handshake!''"
  shows "log_fits s s' ((log_debug, t, a) # es)"
  using assms by (auto simp: log_fits_def successes_def reports_error_def)

lemma log_fits_one:
  assumes "harmless (log_debug, t, a)" "t \<noteq> ''Successful handshake!''"
  shows "log_fits s s [(log_debug, t, a)]"
  using assms log_fits_Cons log_fits_Nil by blast

lemma log_fits_append:
  assumes "log_fits s s xs" "log_fits s s' ys" "s \<noteq> Failed"
  shows "log_fits s s' (xs @ ys)"
  using assms by (auto simp: log_fits_def successes_def reports_error_def)

lemma replay_Cons: "replay cb es (Log cb l t a w) = replay cb ((l, t, a) # es) w"
  using replay_append [of cb "[(l, t, a)]" es w] by (simp add: Log_replay)

lemma harmless_simps [simp]:
  "harmless (l, ''Step %d OK'', [step_arg h])"
  "harmless (l, ''Received invalid data in step %d; HANDSHAKE FAILED'', [step_arg h])"
  "harmless (l, ''Unexpected EOF at step %d; HANDSHAKE FAILED'', [step_arg h])"
  "harmless (l, ''Send completed'', [])"
  "n \<le> 112 \<Longrightarrow> harmless (l, ''Received %zu bytes; waiting...'', [Size_arg n])"
  "n \<le> 112 \<Longrightarrow> harmless (l, ''Sent %zu bytes...'', [Size_arg n])"
  "n \<le> 112 \<Longrightarrow> harmless (l, ''Step %d/4: Awaiting %zu bytes...'', [step_arg h, Size_arg n])"
  "n \<le> 112 \<Longrightarrow> harmless (l, ''Step %d/4: Sending %zu bytes...'', [step_arg h, Size_arg n])"
  using step_num_le [of "h_step h"] by (simp_all add: harmless_def printf_ok_def)

lemma log_fits_failed:
  assumes "harmless (log_err, t, a)" "t \<noteq> ''Successful handshake!''"
  shows "log_fits s Failed [(log_err, t, a)]"
  using assms by (auto simp: log_fits_def successes_def reports_error_def)

lemma log_failure:
  assumes "harmless (log_err, t, a)" "t \<noteq> ''Successful handshake!''"
  shows "\<exists>es. Log cb log_err t a w = replay cb es w \<and> log_fits s Failed es"
  using log_fits_failed [OF assms] by (auto simp: Log_replay)

lemma readFailed_log:
  assumes "logged_readFailed cb (h, w) = (h', w')"
  shows "readFailed h = h' \<and> (\<exists>es. w' = replay cb es w \<and> log_fits (h_step h) (h_step h') es)"
  using assms by (auto simp: logged_readFailed_def readFailed_def intro!: log_failure)

text \<open>Advancing after a record of the level \<open>debug\<close>.\<close>

lemma log_and_nextStep:
  assumes "logged_nextStep cb (h, Log cb log_debug t a w) = (r, h', w')"
    and "harmless (log_debug, t, a)" "t \<noteq> ''Successful handshake!''"
  shows "nextStep h = (r, h') \<and> (\<exists>es. w' = replay cb es w \<and> log_fits (h_step h) (h_step h') es)"
proof -
  from nextStep_log [OF assms(1)] obtain es where es: "nextStep h = (r, h')"
    "w' = replay cb ((log_debug, t, a) # es) w" "log_fits (h_step h) (h_step h') es"
    by (auto simp: replay_Cons)
  then show ?thesis using log_fits_Cons [OF es(3) assms(2,3)] by blast
qed

lemma sendCompleted_log:
  assumes "logged_sendCompleted cb (h, w) = (r, h', w')"
  shows "sendCompleted h = (r, h') \<and> (\<exists>es. w' = replay cb es w \<and> log_fits (h_step h) (h_step h') es)"
proof (cases "h_outputBuffer h = []")
  case True
  then show ?thesis
    using assms by (auto simp: logged_sendCompleted_def sendCompleted_def intro!: exI [of _ "[]"])
next
  case False
  then have "logged_nextStep cb (h\<lparr>h_outputBuffer := []\<rparr>, Log cb log_debug ''Send completed'' [] w) = (r, h', w')"
    using assms by (simp add: logged_sendCompleted_def)
  from log_and_nextStep [OF this] False show ?thesis by (simp add: sendCompleted_def)
qed

context handshake_class
begin

lemma readCompleted_log:
  assumes "logged_readCompleted V cb (h, w) = (r, h', w')"
  shows "readCompleted V h = (r, h') \<and> (\<exists>es. w' = replay cb es w \<and> log_fits (h_step h) (h_step h') es)"
proof (cases "length (h_inputBuffer h) = byteCountNeeded V h")
  case False
  then show ?thesis
    using assms by (auto simp: logged_readCompleted_def readCompleted_def intro!: exI [of _ "[]"])
next
  case True
  obtain q h1 where q: "receivedBytes_v V (h_inputBuffer h) h = (q, h1)" by fastforce
  have s: "h_step h1 = h_step h" using recv_frame [OF q] by auto
  consider (throws) e where "q = Inl e" | (bad) "q = Inr False" | (good) "q = Inr True"
    by (cases q) auto
  then show ?thesis
  proof cases
    case throws
    then show ?thesis using assms True q s
      by (auto simp: logged_readCompleted_def readCompleted_def silent_def intro!: exI [of _ "[]"])
  next
    case bad
    then show ?thesis using assms True q
      by (auto simp: logged_readCompleted_def readCompleted_def silent_def intro!: log_failure)
  next
    case good
    obtain u h2 w2 where n: "logged_nextStep cb (h1, Log cb log_debug ''Step %d OK'' [step_arg h1] w)
        = (u, h2, w2)" by (metis prod_cases3)
    from log_and_nextStep [OF n] show ?thesis using assms True q good n s
      by (cases u) (auto simp: logged_readCompleted_def readCompleted_def silent_def)
  qed
qed

lemma receivedBytes_log:
  assumes "logged_receivedBytes V cb src (h, w) = (r, h', w')" "byteCountNeeded V h \<le> 112"
  shows "receivedBytes V src h = (r, h') \<and> (\<exists>es. w' = replay cb es w \<and> log_fits (h_step h) (h_step h') es)"
proof (cases "h_step h = Failed \<or> h_step h = Finished \<or> byteCountNeeded V h = 0")
  case True
  then show ?thesis
    using assms(1) by (auto simp: logged_receivedBytes_def receivedBytes_def intro!: exI [of _ "[]"])
next
  case False
  define count where "count = min (length src) (size_sub (byteCountNeeded V h) (length (h_inputBuffer h)))"
  define h1 where "h1 = h\<lparr>h_inputBuffer := h_inputBuffer h @ take count src\<rparr>"
  define ret where "ret = (\<lambda>h2 :: handshake. if h_step h2 \<noteq> Failed then int count else - 1)"
  have s: "h_step h1 = h_step h" by (simp add: h1_def)
  have eq: "logged_receivedBytes V cb src (h, w) = (if length (h_inputBuffer h1) < byteCountNeeded V h
      then (Inr (ret h1), h1, Log cb log_debug ''Received %zu bytes; waiting...'' [Size_arg count] w)
      else ebind (logged_readCompleted V cb (h1, w)) (\<lambda>_ (h2, w2). (Inr (ret h2), h2, w2)) (\<lambda>hw. hw))"
    "receivedBytes V src h = (if length (h_inputBuffer h1) < byteCountNeeded V h then (Inr (ret h1), h1)
      else ebind (readCompleted V h1) (\<lambda>_ h2. (Inr (ret h2), h2)) (\<lambda>h2. h2))"
    unfolding ret_def count_def h1_def
    using False by (simp_all add: logged_receivedBytes_def receivedBytes_def Let_def)
  show ?thesis
  proof (cases "length (h_inputBuffer h1) < byteCountNeeded V h")
    case True
    then have "count \<le> 112" using assms(2) by (simp add: h1_def count_def)
    then have "log_fits (h_step h) (h_step h1) [(log_debug, ''Received %zu bytes; waiting...'', [Size_arg count])]"
      by (simp add: s log_fits_one)
    then show ?thesis using assms(1) True by (auto simp: eq Log_replay)
  next
    case complete: False
    obtain q h2 w2 where q: "logged_readCompleted V cb (h1, w) = (q, h2, w2)" by (metis prod_cases3)
    show ?thesis using readCompleted_log [OF q] q assms(1) complete s by (cases q) (auto simp: eq)
  qed
qed

lemma bytesToRead_log:
  assumes "logged_bytesToRead V cb (h, w) = (n, h', w')" "byteCountNeeded V h \<le> 112"
  shows "bytesToRead V h = (n, h') \<and> (\<exists>es. w' = replay cb es w \<and> log_fits (h_step h) (h_step h') es)"
proof -
  let ?es = "if 0 < byteCountNeeded V h then [(log_debug, ''Step %d/4: Awaiting %zu bytes...'',
    [step_arg h, Size_arg (byteCountNeeded V h)])] else []"
  have "bytesToRead V h = (n, h')" "w' = replay cb ?es w" "h_step h' = h_step h"
    using assms(1) by (auto simp: logged_bytesToRead_def bytesToRead_def Let_def Log_replay)
  moreover have "log_fits (h_step h) (h_step h) ?es" using assms(2) by (simp add: log_fits_one)
  ultimately show ?thesis by metis
qed

lemma bytesToSend_step: "bytesToSend V h = (r, h') \<Longrightarrow> h_step h' = h_step h"
  using fill_frame [of h] by (fastforce simp: bytesToSend_def ebind_def split: if_splits sum.splits prod.splits)

lemma bytesToSend_log:
  assumes "logged_bytesToSend V cb (h, w) = (r, h', w')"
    and "length (h_outputBuffer (snd (bytesToSend V h))) \<le> 112"
  shows "bytesToSend V h = (r, h') \<and> (\<exists>es. w' = replay cb es w \<and> log_fits (h_step h) (h_step h') es)"
proof (cases "h_step h = Failed \<or> h_step h = Finished")
  case True
  then show ?thesis
    using assms(1) by (auto simp: logged_bytesToSend_def bytesToSend_def intro!: exI [of _ "[]"])
next
  case False
  obtain q h1 where q: "(if h_outputBuffer h = [] then fillOutputBuffer_v V h else (Inr (), h)) = (q, h1)"
    by fastforce
  then have s: "h_step h1 = h_step h" using fill_frame [of h q h1] by (auto split: if_splits)
  let ?es = "if q = Inr () \<and> h_outputBuffer h1 \<noteq> [] then [(log_debug, ''Step %d/4: Sending %zu bytes...'',
    [step_arg h1, Size_arg (length (h_outputBuffer h1))])] else []"
  have r: "bytesToSend V h = (r, h')" "h' = h1" "w' = replay cb ?es w"
    using assms(1) False q
    by (cases q; auto simp: logged_bytesToSend_def bytesToSend_def silent_def Log_replay)+
  then have "log_fits (h_step h) (h_step h') ?es" using s assms(2) by (simp add: log_fits_one)
  then show ?thesis using r(1,3) by blast
qed

text \<open>The part of \<open>copyBytesToSend\<close> that copies: \<open>out\<close> has been found in the buffer.\<close>

lemma copy_log:
  assumes "h_outputBuffer h = out" "out \<noteq> []" "length out \<le> 112" "h_step h \<noteq> Failed"
    and "logged_copyBytesToSend V cb n (h, w) = (r, h', w')"
  shows "copyBytesToSend V n h = (r, h') \<and> (\<exists>es. w' = replay cb es w \<and> log_fits (h_step h) (h_step h') es)"
proof (cases "length out \<le> n")
  case True
  let ?h = "h\<lparr>h_outputBuffer := []\<rparr>"
  obtain u h2 w2 where u: "logged_nextStep cb (?h, Log cb log_debug ''Send completed'' [] w) = (u, h2, w2)"
    by (metis prod_cases3)
  from log_and_nextStep [OF u] show ?thesis using assms True u
    by (cases u) (auto simp: logged_copyBytesToSend_def copyBytesToSend_def Let_def)
next
  case False
  then have "log_fits (h_step h) (h_step h) [(log_debug, ''Sent %zu bytes...'', [Size_arg n])]"
    using assms(3) by (intro log_fits_one) simp_all
  then show ?thesis using assms False
    by (auto simp: logged_copyBytesToSend_def copyBytesToSend_def Let_def Log_replay)
qed

lemma copyBytesToSend_log:
  assumes "logged_copyBytesToSend V cb n (h, w) = (r, h', w')" "length (h_outputBuffer h) \<le> 112"
    and "length (h_outputBuffer (snd (bytesToSend V h))) \<le> 112"
  shows "copyBytesToSend V n h = (r, h') \<and> (\<exists>es. w' = replay cb es w \<and> log_fits (h_step h) (h_step h') es)"
proof (cases "h_step h = Failed \<or> h_outputBuffer h \<noteq> []")
  case True
  show ?thesis
  proof (cases "h_step h = Failed")
    case True
    then show ?thesis
      using assms(1) by (auto simp: logged_copyBytesToSend_def copyBytesToSend_def intro!: exI [of _ "[]"])
  next
    case False
    with True show ?thesis using copy_log [OF refl _ assms(2) _ assms(1)] by blast
  qed
next
  case False
  obtain b h1 w1 where b: "logged_bytesToSend V cb (h, w) = (b, h1, w1)" by (metis prod_cases3)
  from bytesToSend_log [OF b assms(3)] obtain xs where xs: "bytesToSend V h = (b, h1)"
    "w1 = replay cb xs w" "log_fits (h_step h) (h_step h1) xs" by blast
  have s: "h_step h1 = h_step h" using bytesToSend_step [OF xs(1)] .
  show ?thesis
  proof (cases "\<exists>out. b = Inr out \<and> out \<noteq> []")
    case False
    then show ?thesis using assms(1) \<open>\<not> (h_step h = Failed \<or> h_outputBuffer h \<noteq> [])\<close> b xs
      by (cases b) (auto simp: logged_copyBytesToSend_def copyBytesToSend_def)
  next
    case True
    then obtain out where out: "b = Inr out" "out \<noteq> []" by blast
    then have o: "h_outputBuffer h1 = out" using xs(1) by (auto simp: bytesToSend_def ebind_def split: if_splits sum.splits prod.splits)
    have eq: "logged_copyBytesToSend V cb n (h1, w1) = (r, h', w')" "copyBytesToSend V n h = copyBytesToSend V n h1"
      using assms(1) False b xs(1) s out o by (auto simp: logged_copyBytesToSend_def copyBytesToSend_def)
    from copy_log [OF o out(2) _ _ eq(1)] assms(3) xs(1) o s False obtain ys where
      "copyBytesToSend V n h1 = (r, h')" "w' = replay cb ys w1" "log_fits (h_step h) (h_step h') ys" by auto
    then show ?thesis using xs(2,3) s eq(2) False log_fits_append replay_append by metis
  qed
qed

end

section \<open>Runs\<close>

text \<open>The calls of the public interface again, now with the log.\<close>

inductive logged_step :: "vtable \<Rightarrow> 'w log_callback option \<Rightarrow> handshake \<times> 'w \<Rightarrow> handshake \<times> 'w \<Rightarrow> bool"
  for V cb where
  bytesToRead: "logged_bytesToRead V cb (h, w) = (n, h', w') \<Longrightarrow> logged_step V cb (h, w) (h', w')"
| fill_input: "length bs \<le> length (h_inputBuffer h) \<Longrightarrow>
    logged_step V cb (h, w) (h\<lparr>h_inputBuffer := mem_write (h_inputBuffer h) 0 bs\<rparr>, w)"
| readCompleted: "logged_readCompleted V cb (h, w) = (r, h', w') \<Longrightarrow> r \<noteq> Inl AssertFailed \<Longrightarrow>
    logged_step V cb (h, w) (h', w')"
| readFailed: "logged_readFailed cb (h, w) = (h', w') \<Longrightarrow> logged_step V cb (h, w) (h', w')"
| receivedBytes: "logged_receivedBytes V cb src (h, w) = (q, h', w') \<Longrightarrow> q \<noteq> Inl AssertFailed \<Longrightarrow>
    logged_step V cb (h, w) (h', w')"
| bytesToSend: "logged_bytesToSend V cb (h, w) = (b, h', w') \<Longrightarrow> b \<noteq> Inl AssertFailed \<Longrightarrow>
    logged_step V cb (h, w) (h', w')"
| sendCompleted: "logged_sendCompleted cb (h, w) = (u, h', w') \<Longrightarrow> u \<noteq> Inl AssertFailed \<Longrightarrow>
    logged_step V cb (h, w) (h', w')"
| copyBytesToSend: "logged_copyBytesToSend V cb maxCount (h, w) = (c, h', w') \<Longrightarrow> c \<noteq> Inl AssertFailed \<Longrightarrow>
    logged_step V cb (h, w) (h', w')"

inductive logged_run :: "vtable \<Rightarrow> 'w log_callback option \<Rightarrow> handshake \<times> 'w \<Rightarrow> handshake \<times> 'w \<Rightarrow> bool"
  for V cb where
  start: "logged_run V cb a a"
| step: "logged_run V cb a b \<Longrightarrow> logged_step V cb b c \<Longrightarrow> logged_run V cb a c"

text \<open>A class whose messages have at most 112 bytes.\<close>

abbreviation small_output :: "handshake \<Rightarrow> bool" where
  "small_output h \<equiv> length (h_outputBuffer h) \<le> 112"

locale small_messages = handshake_class V needs for V :: vtable and needs :: "step \<Rightarrow> nat" +
  assumes needs_small: "needs s \<le> 112"
    and fill_small: "fillOutputBuffer_v V h = (q, h') \<Longrightarrow> small_output h \<Longrightarrow> small_output h'"
begin

lemma nextStep_output: "nextStep h = (r, h') \<Longrightarrow> h_outputBuffer h' = h_outputBuffer h"
  by (auto simp: nextStep_def split: if_splits)

lemma readCompleted_output: "readCompleted V h = (r, h') \<Longrightarrow> h_outputBuffer h' = h_outputBuffer h"
  using recv_frame [of "h_inputBuffer h" h]
  by (fastforce simp: readCompleted_def ebind_def split: if_splits sum.splits prod.splits dest: nextStep_output)

lemma receivedBytes_output: "receivedBytes V src h = (r, h') \<Longrightarrow> h_outputBuffer h' = h_outputBuffer h"
  by (auto simp: receivedBytes_def ebind_def Let_def split: if_splits sum.splits prod.splits
      dest!: readCompleted_output)

lemma bytesToSend_small:
  assumes "small_output h"
  shows "small_output (snd (bytesToSend V h))"
  using assms fill_small [of h] by (auto simp: bytesToSend_def ebind_def split: sum.splits prod.splits)

lemma copyBytesToSend_small:
  assumes "small_output h" "copyBytesToSend V n h = (r, h')"
  shows "small_output h'"
proof -
  obtain b h1 where b: "(if h_outputBuffer h = [] then bytesToSend V h else (Inr (h_outputBuffer h), h)) = (b, h1)"
    by fastforce
  then have "small_output h1" using assms(1) bytesToSend_small [OF assms(1)] by (auto split: if_splits)
  then show ?thesis
    using assms b by (auto simp: copyBytesToSend_def ebind_def Let_def
        split: if_splits sum.splits prod.splits dest!: nextStep_output)
qed

lemma logged_step_api:
  assumes "logged_step V cb (h, w) (h', w')" "small_output h"
  shows "api_step V h h' \<and> small_output h'
    \<and> (\<exists>es. w' = replay cb es w \<and> log_fits (h_step h) (h_step h') es)"
  using assms(1)
proof cases
  case (bytesToRead n)
  then have b: "bytesToRead V h = (n, h')" "\<exists>es. w' = replay cb es w \<and> log_fits (h_step h) (h_step h') es"
    using bytesToRead_log [OF bytesToRead] needs_small by (simp_all add: needed)
  have "small_output h'" using b(1) assms(2) by (auto simp: bytesToRead_def Let_def)
  then show ?thesis using api_step.bytesToRead [OF b(1)] b(2) by blast
next
  case (fill_input bs)
  then show ?thesis using api_step.fill_input assms(2) by (auto intro!: exI [of _ "[]"])
next
  case (readCompleted r)
  then show ?thesis
    using readCompleted_log api_step.readCompleted readCompleted_output assms(2) by metis
next
  case readFailed
  then show ?thesis using readFailed_log [OF readFailed] api_step.readFailed assms(2)
    by (auto simp: readFailed_def)
next
  case (receivedBytes src q)
  then show ?thesis
    using receivedBytes_log [OF receivedBytes(1)] api_step.receivedBytes receivedBytes_output assms(2)
      needs_small [of "h_step h"] by (metis needed)
next
  case (bytesToSend b)
  then show ?thesis
    using bytesToSend_log [OF bytesToSend(1) bytesToSend_small [OF assms(2)]] api_step.bytesToSend
      bytesToSend_small [OF assms(2)] by (metis snd_conv)
next
  case (sendCompleted u)
  then show ?thesis
    using sendCompleted_log [OF sendCompleted(1)] api_step.sendCompleted assms(2)
    by (fastforce simp: sendCompleted_def nextStep_def split: if_splits)
next
  case (copyBytesToSend n c)
  then show ?thesis
    using copyBytesToSend_log [OF copyBytesToSend(1) assms(2) bytesToSend_small [OF assms(2)]]
      api_step.copyBytesToSend copyBytesToSend_small [OF assms(2)] by metis
qed

end

text \<open>What the log of a whole run tells.\<close>

definition log_tells :: "handshake \<Rightarrow> log_record list \<Rightarrow> bool" where
  "log_tells h es \<longleftrightarrow> list_all harmless es \<and> (reports_error es \<longleftrightarrow> h_step h = Failed)
     \<and> successes es \<le> 1 \<and> (finished h \<longrightarrow> successes es = 1) \<and> (live (h_step h) \<longrightarrow> successes es = 0)"

lemma log_tells_step:
  assumes "log_tells h es" "log_fits (h_step h) (h_step h') es'" "step_move h h'"
  shows "log_tells h' (es @ es')"
proof -
  have "successes (es @ es') = successes es + successes es'"
    "reports_error (es @ es') \<longleftrightarrow> reports_error es \<or> reports_error es'"
    by (auto simp: successes_def reports_error_def)
  then show ?thesis
    using assms by (auto simp: log_tells_def log_fits_def step_move_def finished_def live_def)
qed

context small_messages
begin

lemma logged_run_api:
  assumes "logged_run V cb (h0, w0) (h, w)" "small_output h0" "live (h_step h0)"
    and "\<And>h1 h2. api_run V h0 h1 \<Longrightarrow> api_step V h1 h2 \<Longrightarrow> step_move h1 h2"
  shows "\<exists>es. w = replay cb es w0 \<and> api_run V h0 h \<and> small_output h \<and> log_tells h es"
  using assms(1)
proof (induction "(h0, w0)" "(h, w)" arbitrary: h w rule: logged_run.induct)
  case start
  have "log_tells h0 []" using assms(3) by (auto simp: log_tells_def successes_def reports_error_def finished_def live_def)
  then show ?case using assms(2) api_run.start by (auto intro!: exI [of _ "[]"])
next
  case (step b h w)
  obtain h1 w1 where b: "b = (h1, w1)" by fastforce
  from step(2) [OF b] obtain es where es: "w1 = replay cb es w0" "api_run V h0 h1" "small_output h1"
    "log_tells h1 es" by blast
  from logged_step_api [OF step(3) [unfolded b] es(3)] obtain es' where
    n: "api_step V h1 h" "small_output h" "w = replay cb es' w1" "log_fits (h_step h1) (h_step h) es'" by blast
  then show ?case
    using log_tells_step [OF es(4) n(4) assms(4) [OF es(2) n(1)]] api_run.step [OF es(2) n(1)] es(1)
    by (intro exI [of _ "es @ es'"]) (simp add: replay_append)
qed

end

interpretation client_log: small_messages "client_vt C" client_needs for C
proof (unfold_locales, goal_cases)
  case (2 h q h')
  then show ?case by (cases "h_step h") (auto simp: fill_defs spaceFor_def split: prod.splits sum.splits)
qed (simp add: client_needs_def split: step.split)

interpretation server_log: small_messages "server_vt C" server_needs for C
proof (unfold_locales, goal_cases)
  case (2 h q h')
  then show ?case by (cases "h_step h") (auto simp: fill_defs spaceFor_def split: prod.splits sum.splits)
qed (simp add: server_needs_def split: step.split)

section \<open>Property\<close>

text \<open>
  C19: the log follows the handshake, changes nothing, and gives nothing away. Whatever callback is
  installed and whatever calls are made on a new object, the object passes through the states that
  it has without logging. The callback has been called with a sequence of records in which each
  format agrees with its arguments and in which the only numbers are step numbers from 0 to 5 and
  sizes of at most 112 bytes. An error has been reported if and only if the handshake has failed; it has
  been reported successful exactly once if it has finished, never while it is going on, and never
  twice.
\<close>

theorem log_follows_handshake:
  assumes "fresh C V h0" "logged_run V cb (h0, w0) (h, w)"
  shows "api_run V h0 h \<and> (\<exists>es. w = replay cb es w0 \<and> list_all harmless es
    \<and> (reports_error es \<longleftrightarrow> h_step h = Failed) \<and> successes es \<le> 1
    \<and> (finished h \<longrightarrow> successes es = 1)
    \<and> (h_step h \<noteq> Failed \<and> h_step h \<noteq> Finished \<longrightarrow> successes es = 0))"
proof -
  have new: "small_output h0" "live (h_step h0)"
    using assms(1) by (cases; simp add: ClientHandshake_def ServerHandshake_def setClientAuthorizer_def
        new_Handshake_def live_def Let_def)+
  have move: "step_move h1 h2" if "api_run V h0 h1" "api_step V h1 h2" for h1 h2
    using assms(1) that(1)
  proof (cases rule: fresh_run_cases)
    case client
    then show ?thesis using client_run.api_step_inv that(2) by blast
  next
    case server
    then show ?thesis using server_run.api_step_inv that(2) by blast
  qed
  have "\<exists>es. w = replay cb es w0 \<and> api_run V h0 h \<and> small_output h \<and> log_tells h es"
    using assms(1)
  proof cases
    case client
    then show ?thesis using client_log.logged_run_api [of C cb h0 w0 h w] assms(2) new move by blast
  next
    case server
    then show ?thesis using server_log.logged_run_api [of C cb h0 w0 h w] assms(2) new move by blast
  qed
  then show ?thesis by (auto simp: log_tells_def live_def)
qed

text \<open>A callback that keeps the records.\<close>

definition record_log :: "log_record list log_callback" where
  "record_log l t a log = log @ [(l, t, a)]"

lemma replay_record_log: "replay (Some record_log) es log = log @ es"
  by (induction es arbitrary: log) (auto simp: replay_def record_log_def)

lemma demo_log:
  "case logged_receivedBytes (server_vt toy) (Some record_log) (replicate 64 1) (demo_s0, []) of
     (r, h, log) \<Rightarrow> r = Inr (- 1) \<and> h_step h = Failed
       \<and> log = [(log_err, ''Received invalid data in step %d; HANDSHAKE FAILED'', [Int_arg 1])]"
  by code_simp

theorem log_follows_handshake_witness:
  "\<exists>h log. logged_run (server_vt toy) (Some record_log) (demo_s0, []) (h, log) \<and> h_step h = Failed
     \<and> log = [(log_err, ''Received invalid data in step %d; HANDSHAKE FAILED'', [Int_arg 1])]
     \<and> reports_error log \<and> list_all harmless log"
proof -
  obtain r h log where e: "logged_receivedBytes (server_vt toy) (Some record_log) (replicate 64 1) (demo_s0, [])
      = (r, h, log)" "r = Inr (- 1)" "h_step h = Failed"
    "log = [(log_err, ''Received invalid data in step %d; HANDSHAKE FAILED'', [Int_arg 1])]"
    using demo_log by (auto split: prod.splits)
  then have run: "logged_run (server_vt toy) (Some record_log) (demo_s0, []) (h, log)"
    using logged_run.step [OF logged_run.start logged_step.receivedBytes [OF e(1)]] by simp
  from log_follows_handshake [OF fresh_demo(2) run] obtain es where
    "log = replay (Some record_log) es []" "list_all harmless es" "reports_error es \<longleftrightarrow> h_step h = Failed"
    by blast
  then have "reports_error log" "list_all harmless log" using e(3) by (simp_all add: replay_record_log)
  then show ?thesis using run e(3,4) by blast
qed

text \<open>What the Crouton adapter's callback makes of a record.\<close>

lemma shslog_text:
  "shslog lnet_log log_debug ''Step %d/4: Sending %zu bytes...'' [Int_arg 3, Size_arg 112] w
     = lnet_log 1 ''SecretHandshake: {}'' ''Step 3/4: Sending 112 bytes...'' w"
proof -
  have "vasprintf ''Step %d/4: Sending %zu bytes...'' [Int_arg 3, Size_arg 112]
      = Some ''Step 3/4: Sending 112 bytes...''" by code_simp
  then show ?thesis by (simp add: shslog_def)
qed

text \<open>It has a text for every record that is ever logged.\<close>

lemma harmless_formats: "harmless (l, t, a) \<Longrightarrow> \<exists>message. vasprintf t a = Some message"
  by (simp add: harmless_def vasprintf_def)

end
