(* ===== verification/Framing.thy ===== *)
theory Framing
  imports SHS_Prelude
begin

text \<open>
  The contract between message encryption and the byte streams built on it. A codec has a state
  (in the code a key and a running nonce), seals one message after the other into frames, and
  tries to open a frame at the front of the bytes received so far. \<open>frame_codec\<close> states what the
  streams rely on: a sealed message opens again, a part of a frame is recognised as incomplete,
  and a verdict once given does not change when more bytes arrive. \<open>authentic_codec\<close> adds that
  only genuine frames open.
\<close>

text \<open>What a receiver can do with the bytes at hand: wait, give up, or take one message of some
  encoded length.\<close>

datatype opened = More | Bad | Got bytes nat

primrec seal_all :: "('s \<Rightarrow> bytes \<Rightarrow> bytes) \<Rightarrow> ('s \<Rightarrow> 's) \<Rightarrow> 's \<Rightarrow> bytes list \<Rightarrow> bytes" where
  "seal_all seal advance s [] = []"
| "seal_all seal advance s (m # ms) = seal s m @ seal_all seal advance (advance s) ms"

text \<open>
  Opening frames until there is no complete one left: the plaintext, the state and the unread
  bytes at that point, and whether the reason for stopping was a lack of bytes.
\<close>

inductive parses :: "('s \<Rightarrow> bytes \<Rightarrow> opened) \<Rightarrow> ('s \<Rightarrow> 's)
    \<Rightarrow> 's \<Rightarrow> bytes \<Rightarrow> bytes \<Rightarrow> 's \<Rightarrow> bytes \<Rightarrow> bool \<Rightarrow> bool" for unseal advance where
  wait: "unseal s bs = More \<Longrightarrow> parses unseal advance s bs [] s bs True"
| give_up: "unseal s bs = Bad \<Longrightarrow> parses unseal advance s bs [] s bs False"
| take_one: "unseal s bs = Got m n \<Longrightarrow> parses unseal advance (advance s) (drop n bs) p s' rest g
    \<Longrightarrow> parses unseal advance s bs (m @ p) s' rest g"

lemma parses_det:
  "parses unseal advance s bs p s1 r1 g1 \<Longrightarrow> parses unseal advance s bs q s2 r2 g2
     \<Longrightarrow> p = q \<and> s1 = s2 \<and> r1 = r2 \<and> g1 = g2"
proof (induction arbitrary: q s2 r2 g2 rule: parses.induct)
  case (take_one s bs m n p s' rest g)
  from take_one.prems take_one.hyps(1) show ?case
    by cases (auto dest: take_one.IH)
qed (auto elim: parses.cases)

lemma seal_all_append:
  "seal_all seal advance s (ms @ ns)
     = seal_all seal advance s ms @ seal_all seal advance ((advance ^^ length ms) s) ns"
  by (induction ms arbitrary: s) (simp_all add: funpow_swap1)

locale frame_codec =
  fixes ok :: "'s \<Rightarrow> bool"
    and seal :: "'s \<Rightarrow> bytes \<Rightarrow> bytes"
    and advance :: "'s \<Rightarrow> 's"
    and unseal :: "'s \<Rightarrow> bytes \<Rightarrow> opened"
    and limit :: nat
  assumes ok_advance: "ok s \<Longrightarrow> ok (advance s)"
    and seal_nonempty: "ok s \<Longrightarrow> seal s m \<noteq> []"
    and unseal_seal: "ok s \<Longrightarrow> length m \<le> limit
          \<Longrightarrow> unseal s (seal s m @ rest) = Got m (length (seal s m))"
    and unseal_prefix: "ok s \<Longrightarrow> length m \<le> limit \<Longrightarrow> strict_prefix p (seal s m) \<Longrightarrow> unseal s p = More"
    and unseal_extend: "ok s \<Longrightarrow> unseal s bs \<noteq> More \<Longrightarrow> unseal s (bs @ xs) = unseal s bs"
    and unseal_Got: "ok s \<Longrightarrow> unseal s bs = Got m n \<Longrightarrow> length m < n \<and> n \<le> length bs"
begin

lemma ok_advance_n: "ok s \<Longrightarrow> ok ((advance ^^ k) s)"
  by (induction k) (simp_all add: ok_advance)

lemma unseal_Nil: "ok s \<Longrightarrow> unseal s [] = More"
  using unseal_prefix [of s "[]" "[]"] seal_nonempty [of s "[]"] by (auto simp: strict_prefix_def)

lemma parses_total: "ok s \<Longrightarrow> \<exists>p s' rest g. parses unseal advance s bs p s' rest g"
proof (induction "length bs" arbitrary: s bs rule: less_induct)
  case less
  show ?case
  proof (cases "unseal s bs")
    case (Got m n)
    then have "length (drop n bs) < length bs" using unseal_Got [OF less.prems Got] by auto
    from less.hyps [OF this ok_advance [OF less.prems]] show ?thesis
      using parses.take_one [of unseal s bs, OF Got] by blast
  qed (use parses.wait parses.give_up in fast)+
qed

lemma parses_state: "parses unseal advance s bs p s' rest g \<Longrightarrow> ok s \<Longrightarrow> ok s'"
  by (induction rule: parses.induct) (simp_all add: ok_advance)

lemma parses_stuck: "parses unseal advance s bs p s' rest True \<Longrightarrow> unseal s' rest = More"
  by (induction s bs p s' rest True rule: parses.induct) simp_all

lemma parses_append:
  assumes "parses unseal advance s bs p s' rest True"
    and "parses unseal advance s' (rest @ xs) q s2 r2 g" and "ok s"
  shows "parses unseal advance s (bs @ xs) (p @ q) s2 r2 g"
  using assms
proof (induction s bs p s' rest True rule: parses.induct)
  case (take_one s bs m n p s' rest)
  have "unseal s (bs @ xs) = Got m n"
    using unseal_extend [OF take_one.prems(2), of bs xs] take_one.hyps(1) by simp
  moreover have "drop n (bs @ xs) = drop n bs @ xs"
    using unseal_Got [OF take_one.prems(2) take_one.hyps(1)] by simp
  ultimately show ?case
    using parses.take_one [of unseal s "bs @ xs" m n]
      take_one.hyps(3) [OF take_one.prems(1) ok_advance [OF take_one.prems(2)]]
    by simp
qed simp_all

lemma parses_seal_all_rest:
  "ok s \<Longrightarrow> list_all (\<lambda>m. length m \<le> limit) ms
     \<Longrightarrow> parses unseal advance ((advance ^^ length ms) s) rest p s' r g
     \<Longrightarrow> parses unseal advance s (seal_all seal advance s ms @ rest) (concat ms @ p) s' r g"
proof (induction ms arbitrary: s)
  case (Cons m ms)
  have "unseal s (seal_all seal advance s (m # ms) @ rest) = Got m (length (seal s m))"
    using unseal_seal Cons.prems by simp
  moreover have "parses unseal advance (advance s) (seal_all seal advance (advance s) ms @ rest)
      (concat ms @ p) s' r g"
    using Cons.IH [OF ok_advance] Cons.prems by (simp add: funpow_swap1)
  ultimately show ?case
    using parses.take_one [of unseal s "seal_all seal advance s (m # ms) @ rest" m] by simp
qed simp

lemma parses_seal_all:
  "ok s \<Longrightarrow> list_all (\<lambda>m. length m \<le> limit) ms
     \<Longrightarrow> parses unseal advance s (seal_all seal advance s ms) (concat ms)
           ((advance ^^ length ms) s) [] True"
  using parses_seal_all_rest [of s ms "[]" "[]"] parses.wait unseal_Nil ok_advance_n
  by fastforce

text \<open>A receiver that has only part of the sealed messages has read the complete ones and waits
  for the rest of the next one.\<close>

lemma parses_seal_all_prefix:
  "ok s \<Longrightarrow> list_all (\<lambda>m. length m \<le> limit) ms \<Longrightarrow> prefix bs (seal_all seal advance s ms)
     \<Longrightarrow> \<exists>k rest. k \<le> length ms \<and> bs = seal_all seal advance s (take k ms) @ rest
           \<and> (rest = [] \<or> k < length ms \<and> strict_prefix rest (seal ((advance ^^ k) s) (ms ! k)))
           \<and> parses unseal advance s bs (concat (take k ms)) ((advance ^^ k) s) rest True"
proof (induction ms arbitrary: s bs)
  case Nil
  then show ?case using parses.wait [of unseal s "[]"] unseal_Nil by auto
next
  case (Cons m ms)
  show ?case
  proof (cases "prefix (seal s m) bs")
    case False
    then have sp: "strict_prefix bs (seal s m)"
      using Cons.prems(3) by (auto simp: prefix_append strict_prefix_def)
    then have "parses unseal advance s bs [] s bs True"
      using unseal_prefix Cons.prems parses.wait by (metis list.pred_inject(2))
    then show ?thesis using sp by (intro exI [of _ 0] exI [of _ bs]) auto
  next
    case True
    then obtain tl where bs: "bs = seal s m @ tl" by (auto simp: prefix_def)
    then have tl: "prefix tl (seal_all seal advance (advance s) ms)" using Cons.prems(3) by simp
    from Cons.IH [OF ok_advance [OF Cons.prems(1)] _ tl] Cons.prems(2) obtain k rest where
      k: "k \<le> length ms" "tl = seal_all seal advance (advance s) (take k ms) @ rest"
        "rest = [] \<or> k < length ms \<and> strict_prefix rest (seal ((advance ^^ k) (advance s)) (ms ! k))"
        "parses unseal advance (advance s) tl (concat (take k ms)) ((advance ^^ k) (advance s)) rest True"
      by auto
    have "unseal s bs = Got m (length (seal s m))"
      using unseal_seal Cons.prems by (simp add: bs)
    from parses.take_one [of unseal, OF this, of advance "concat (take k ms)"] k(4)
    have "parses unseal advance s bs (m @ concat (take k ms)) ((advance ^^ k) (advance s)) rest True"
      by (simp add: bs)
    then show ?thesis using k bs by (intro exI [of _ "Suc k"] exI [of _ rest]) (auto simp: funpow_swap1)
  qed
qed

end

locale authentic_codec = frame_codec +
  assumes unseal_sound: "ok s \<Longrightarrow> unseal s bs = Got m n \<Longrightarrow> take n bs = seal s m"
begin

text \<open>Whatever the bytes, what has been read is the contents of genuine frames.\<close>

lemma parses_genuine:
  "parses unseal advance s bs p s' rest g \<Longrightarrow> ok s
     \<Longrightarrow> \<exists>ms. p = concat ms \<and> bs = seal_all seal advance s ms @ rest \<and> s' = (advance ^^ length ms) s"
proof (induction rule: parses.induct)
  case (take_one s bs m n p s' rest g)
  from take_one.IH [OF ok_advance [OF take_one.prems]] obtain ms where
    "p = concat ms" "drop n bs = seal_all seal advance (advance s) ms @ rest"
    "s' = (advance ^^ length ms) (advance s)" by blast
  moreover have "bs = seal s m @ drop n bs"
    using unseal_sound [OF take_one.prems take_one.hyps(1)] by (metis append_take_drop_id)
  ultimately show ?case by (intro exI [of _ "m # ms"]) (simp add: funpow_swap1)
qed (rule exI [of _ "[]"], simp)+

end

end
