(* ===== verification/CryptoBox.thy ===== *)
theory CryptoBox
  imports Handshake Framing
begin

unbundle bit_operations_syntax

text \<open>
  Message encryption, the first half of \<open>src/SecretStream.cc\<close> and \<open>include/SecretStream.hh\<close>:
  classes \<open>CryptoBox\<close>, \<open>EncryptoBox\<close> and \<open>DecryptoBox\<close>. The functions work on raw pointers that
  callers may alias, so they are modelled over a flat memory: an \<open>input_data\<close> or \<open>output_buffer\<close>
  is an offset and a size, and every call of the crypto library reads and writes the memory where
  the code does, in the code's order.

  The list functions \<open>frame\<close> and \<open>open_frame\<close> say what a message looks like on the wire. The
  memory operations are shown to implement them whatever the aliasing, and they form an instance
  of the locale \<open>frame_codec\<close>, the contract that the byte streams are built on.
\<close>

section \<open>Data\<close>

record input_data =
  in_data :: nat
  in_size :: nat

record output_buffer =
  out_data :: nat
  out_size :: nat

datatype status_t = Success | OutTooSmall | IncompleteInput | CorruptData

datatype Protocol = Compact | BoxStream

record CryptoBox =
  cb_key :: bytes
  cb_nonce :: bytes
  cb_protocol :: Protocol

record PeekResult =
  pk_status :: status_t
  pk_decryptedSize :: nat
  pk_encryptedSize :: nat

definition mac_size :: nat where "mac_size = 16"

definition header_size :: nat where "header_size = 2 + mac_size"

definition kMaxMessageSize :: nat where "kMaxMessageSize = 0xFFFF"

section \<open>Operations\<close>

definition writeUint16At :: "nat \<Rightarrow> cpp_exn + bytes" where
  "writeUint16At n =
     (if n \<le> 0xFFFF
      then Inr [word_of_nat (drop_bit 8 n AND 0xFF), word_of_nat (n AND 0xFF)]
      else Inl AssertFailed)"

definition readUint16At :: "bytes \<Rightarrow> nat" where
  "readUint16At src = (case src of b0 # b1 # _ \<Rightarrow> push_bit 8 (unat b0) OR unat b1 | _ \<Rightarrow> 0)"

definition encryptedSize :: "CryptoBox \<Rightarrow> nat \<Rightarrow> nat" where
  "encryptedSize b inputSize =
     (if cb_protocol b = BoxStream then size_add (header_size + mac_size) inputSize
      else size_add (2 + mac_size) inputSize)"

definition EncryptoBox_of_session :: "Session \<Rightarrow> Protocol \<Rightarrow> CryptoBox" where
  "EncryptoBox_of_session s p =
     \<lparr>cb_key = encryptionKey s, cb_nonce = encryptionNonce s, cb_protocol = p\<rparr>"

definition DecryptoBox_of_session :: "Session \<Rightarrow> Protocol \<Rightarrow> CryptoBox" where
  "DecryptoBox_of_session s p =
     \<lparr>cb_key = decryptionKey s, cb_nonce = decryptionNonce s, cb_protocol = p\<rparr>"

definition encrypt :: "crypto \<Rightarrow> CryptoBox \<Rightarrow> bytes \<Rightarrow> input_data \<Rightarrow> output_buffer
    \<Rightarrow> (status_t, CryptoBox \<times> bytes \<times> output_buffer) outcome" where
  "encrypt C b mem inp out =
     (if 0xFFFF < in_size inp then (Inl InvalidArgument, b, mem, out)
      else let encSize = encryptedSize b (in_size inp) in
      if out_size out < encSize then (Inr OutTooSmall, b, mem, out)
      else let out' = out\<lparr>out_size := encSize\<rparr>;
               dst = out_data out;
               nonce = cb_nonce b
      in if cb_protocol b = BoxStream then
           with_val (writeUint16At (in_size inp)) (b, mem, out') (\<lambda>size_be.
             let (mac, ciphertext) =
                   lock (xsalsa C) (cb_key b) nonce (mem_read mem (in_data inp) (in_size inp));
                 mem1 = mem_write mem (dst + header_size + mac_size) ciphertext;
                 header = size_be @ mac;
                 nonce1 = nonce_incr C nonce;
                 mem2 = mem_write mem1 dst (box (xsalsa C) (cb_key b) nonce1 header);
                 nonce2 = nonce_incr C nonce1
             in (Inr Success, b\<lparr>cb_nonce := nonce2\<rparr>, mem2, out'))
         else
           let boxed = box (xchacha C) (cb_key b) nonce (mem_read mem (in_data inp) (in_size inp));
               mem1 = mem_write mem (dst + 2) boxed;
               nonce1 = nonce_incr C nonce
           in with_val (writeUint16At (in_size inp)) (b\<lparr>cb_nonce := nonce1\<rparr>, mem1, out') (\<lambda>size_be.
                (Inr Success, b\<lparr>cb_nonce := nonce1\<rparr>, mem_write mem1 dst size_be, out')))"

text \<open>Returns the peek result and the header that was filled in.\<close>

definition decryptBoxStreamHeader :: "crypto \<Rightarrow> CryptoBox \<Rightarrow> bytes \<Rightarrow> input_data
    \<Rightarrow> PeekResult \<times> bytes" where
  "decryptBoxStreamHeader C b mem inp =
     (let kPrefixSize = mac_size + header_size in
      if in_size inp < kPrefixSize
      then (\<lparr>pk_status = IncompleteInput, pk_decryptedSize = 0, pk_encryptedSize = kPrefixSize\<rparr>, [])
      else let nonce = nonce_incr C (cb_nonce b);
               header = unbox_to (xsalsa C) (cb_key b) nonce
                          (mem_read mem (in_data inp) kPrefixSize) header_size
           in if length header \<noteq> header_size
              then (\<lparr>pk_status = CorruptData, pk_decryptedSize = 0, pk_encryptedSize = 0\<rparr>, header)
              else let decryptedSize = readUint16At header
                   in (\<lparr>pk_status = Success, pk_decryptedSize = decryptedSize,
                        pk_encryptedSize = kPrefixSize + decryptedSize\<rparr>, header))"

definition minPeekSize :: "CryptoBox \<Rightarrow> nat" where
  "minPeekSize b = (if cb_protocol b = BoxStream then mac_size + header_size else 2)"

definition peek :: "crypto \<Rightarrow> CryptoBox \<Rightarrow> bytes \<Rightarrow> input_data \<Rightarrow> PeekResult" where
  "peek C b mem inp =
     (if cb_protocol b = BoxStream then fst (decryptBoxStreamHeader C b mem inp)
      else if in_size inp < 2
      then \<lparr>pk_status = IncompleteInput, pk_decryptedSize = 0, pk_encryptedSize = 2\<rparr>
      else let decryptedSize = readUint16At (mem_read mem (in_data inp) 2)
           in \<lparr>pk_status = Success, pk_decryptedSize = decryptedSize,
               pk_encryptedSize = encryptedSize b decryptedSize\<rparr>)"

definition getDecryptedSize :: "crypto \<Rightarrow> CryptoBox \<Rightarrow> bytes \<Rightarrow> input_data \<Rightarrow> status_t \<times> nat" where
  "getDecryptedSize C b mem inp =
     (let result = peek C b mem inp in (pk_status result, pk_decryptedSize result))"

definition decrypt :: "crypto \<Rightarrow> CryptoBox \<Rightarrow> bytes \<Rightarrow> input_data \<Rightarrow> output_buffer
    \<Rightarrow> status_t \<times> CryptoBox \<times> bytes \<times> input_data \<times> output_buffer" where
  "decrypt C b mem inp out =
     (let src = in_data inp;
          nonce = cb_nonce b;
          finish = (\<lambda>r nonce' mem'.
            (Success, b\<lparr>cb_nonce := nonce_incr C nonce'\<rparr>, mem',
             \<lparr>in_data = src + pk_encryptedSize r, in_size = in_size inp - pk_encryptedSize r\<rparr>,
             out\<lparr>out_size := pk_decryptedSize r\<rparr>))
      in if cb_protocol b = BoxStream then
           let (r, header) = decryptBoxStreamHeader C b mem inp in
           if pk_status r \<noteq> Success then (pk_status r, b, mem, inp, out)
           else if in_size inp < pk_encryptedSize r then (IncompleteInput, b, mem, inp, out)
           else if out_size out < pk_decryptedSize r then (OutTooSmall, b, mem, inp, out)
           else (case unlock (xsalsa C) (cb_key b) nonce (drop 2 header)
                        (mem_read mem (src + mac_size + header_size) (pk_decryptedSize r)) of
                   None \<Rightarrow> (CorruptData, b, mem, inp, out)
                 | Some plaintext \<Rightarrow>
                     finish r (nonce_incr C nonce) (mem_write mem (out_data out) plaintext))
         else
           let r = peek C b mem inp in
           if pk_status r \<noteq> Success then (pk_status r, b, mem, inp, out)
           else if in_size inp < pk_encryptedSize r then (IncompleteInput, b, mem, inp, out)
           else if out_size out < pk_decryptedSize r then (OutTooSmall, b, mem, inp, out)
           else let plaintext = unbox_to (xchacha C) (cb_key b) nonce
                      (mem_read mem (src + 2) (pk_encryptedSize r - 2)) (out_size out);
                    mem' = mem_write mem (out_data out) plaintext
                in if length plaintext \<noteq> pk_decryptedSize r then (CorruptData, b, mem', inp, out)
                   else finish r nonce mem')"

section \<open>What a message looks like on the wire\<close>

definition be16 :: "nat \<Rightarrow> bytes" where
  "be16 n = [word_of_nat (n div 256), word_of_nat (n mod 256)]"

lemma length_be16 [simp]: "length (be16 n) = 2"
  by (simp add: be16_def)

lemma writeUint16At_eq: "n \<le> 0xFFFF \<Longrightarrow> writeUint16At n = Inr (be16 n)"
proof -
  assume n: "n \<le> 0xFFFF"
  have "n div 256 < 256" using n by simp
  moreover have "m AND 0xFF = m mod 256" for m :: nat
    using take_bit_eq_mask [of 8 m] by (simp add: take_bit_eq_mod mask_eq_exp_minus_1)
  ultimately show ?thesis
    using n by (simp add: writeUint16At_def be16_def drop_bit_eq_div)
qed

lemma readUint16At_eq: "readUint16At (b0 # b1 # bs) = 256 * unat b0 + unat b1"
proof -
  have lt: "unat b1 < 256" by (rule unat_byte)
  have "push_bit 8 (unat b0) OR unat b1 = push_bit 8 (unat b0) + unat b1"
  proof (rule disjunctive_add [symmetric])
    fix n
    have "\<not> bit (unat b1) n" if "8 \<le> n"
    proof -
      have "(256 :: nat) \<le> 2 ^ n" using power_increasing [OF that, of "2 :: nat"] by simp
      then have "unat b1 div 2 ^ n = 0" using lt by simp
      then show ?thesis by (simp add: bit_iff_odd)
    qed
    then show "\<not> bit (push_bit 8 (unat b0)) n \<or> \<not> bit (unat b1) n"
      by (auto simp: bit_push_bit_iff)
  qed
  then show ?thesis by (simp add: readUint16At_def push_bit_eq_mult)
qed

lemma readUint16At_bound: "readUint16At bs \<le> 0xFFFF"
proof -
  have "256 * unat b0 + unat b1 \<le> 0xFFFF" for b0 b1 :: byte
    using unat_byte [of b0] unat_byte [of b1] by simp
  then show ?thesis
    by (cases bs; cases "tl bs") (simp_all add: readUint16At_eq, simp_all add: readUint16At_def)
qed

lemma readUint16At_be16 [simp]: "n \<le> 0xFFFF \<Longrightarrow> readUint16At (be16 n @ bs) = n"
proof -
  assume n: "n \<le> 0xFFFF"
  have "unat (word_of_nat m :: byte) = m" if "m < 256" for m
    using that by (simp add: unat_of_nat)
  moreover have "n div 256 < 256" using n by simp
  ultimately show ?thesis by (simp add: be16_def readUint16At_eq)
qed

lemma readUint16At_take [simp]: "2 \<le> k \<Longrightarrow> readUint16At (take k bs) = readUint16At bs"
  by (cases bs; cases "tl bs"; cases k; cases "k - 1") (auto simp: readUint16At_def)

lemma be16_readUint16At: "be16 (readUint16At (b0 # b1 # bs)) = [b0, b1]"
proof -
  have "(256 * unat b0 + unat b1) div 256 = unat b0" "(256 * unat b0 + unat b1) mod 256 = unat b1"
    using unat_byte [of b1] by simp_all
  then show ?thesis by (simp add: be16_def readUint16At_eq)
qed

lemma be16_read_take: "2 \<le> length bs \<Longrightarrow> be16 (readUint16At bs) = take 2 bs"
  by (cases bs; cases "tl bs") (auto simp: be16_readUint16At)

text \<open>
  The bytes that carry one message: in the compact protocol the length in clear and a box, in the
  BoxStream protocol a box holding the length and the MAC of the body, then the body.
\<close>

definition frame :: "crypto \<Rightarrow> CryptoBox \<Rightarrow> bytes \<Rightarrow> bytes" where
  "frame C b m =
     (if cb_protocol b = BoxStream then
        let (mac, c) = lock (xsalsa C) (cb_key b) (cb_nonce b) m
        in box (xsalsa C) (cb_key b) (nonce_incr C (cb_nonce b)) (be16 (length m) @ mac) @ c
      else be16 (length m) @ box (xchacha C) (cb_key b) (cb_nonce b) m)"

definition next_box :: "crypto \<Rightarrow> CryptoBox \<Rightarrow> CryptoBox" where
  "next_box C b = b\<lparr>cb_nonce :=
     (if cb_protocol b = BoxStream then nonce_incr C (nonce_incr C (cb_nonce b))
      else nonce_incr C (cb_nonce b))\<rparr>"

definition overhead :: "CryptoBox \<Rightarrow> nat" where
  "overhead b = (if cb_protocol b = BoxStream then 34 else 18)"

definition open_frame :: "crypto \<Rightarrow> CryptoBox \<Rightarrow> bytes \<Rightarrow> opened" where
  "open_frame C b bs =
     (if cb_protocol b = BoxStream then
        if length bs < 34 then More
        else (case unbox (xsalsa C) (cb_key b) (nonce_incr C (cb_nonce b)) (take 34 bs) of
                None \<Rightarrow> Bad
              | Some header \<Rightarrow>
                  let n = readUint16At header in
                  if length bs < 34 + n then More
                  else (case unlock (xsalsa C) (cb_key b) (cb_nonce b) (drop 2 header)
                               (take n (drop 34 bs)) of
                          None \<Rightarrow> Bad
                        | Some m \<Rightarrow> Got m (34 + n)))
      else
        if length bs < 2 then More
        else let n = readUint16At bs in
             if length bs < 18 + n then More
             else (case unbox (xchacha C) (cb_key b) (cb_nonce b) (take (16 + n) (drop 2 bs)) of
                     None \<Rightarrow> if n = 0 then Got [] 18 else Bad
                   | Some m \<Rightarrow> Got m (18 + n)))"

lemmas box_sizes [size_simps] = mac_size_def header_size_def kMaxMessageSize_def

lemma next_box_simps [simp]:
  "cb_protocol (next_box C b) = cb_protocol b" "cb_key (next_box C b) = cb_key b"
  by (simp_all add: next_box_def)

lemma overhead_next [simp]: "overhead (next_box C b) = overhead b"
  by (simp add: overhead_def)

lemma encryptedSize_eq:
  "n \<le> 0xFFFF \<Longrightarrow> encryptedSize b n = overhead b + n"
  by (simp add: encryptedSize_def overhead_def size_add_def size_max_def box_sizes)

lemma protocol_cases:
  obtains "cb_protocol b = BoxStream" | "cb_protocol b = Compact"
  by (cases "cb_protocol b") auto

lemma length_frame:
  assumes "crypto_ok C"
  shows "length (frame C b m) = overhead b + length m"
proof -
  obtain mac c where l: "lock (xsalsa C) (cb_key b) (cb_nonce b) m = (mac, c)" by fastforce
  note aead_lock_len [OF xsalsa_ok [OF assms] l]
  then show ?thesis using l assms
    by (simp add: frame_def overhead_def aead_box_len xsalsa_ok xchacha_ok)
qed

lemma open_frame_frame:
  assumes "crypto_ok C" "length m \<le> 0xFFFF"
  shows "open_frame C b (frame C b m @ rest) = Got m (length (frame C b m))"
proof (cases b rule: protocol_cases)
  case 1
  obtain mac c where l: "lock (xsalsa C) (cb_key b) (cb_nonce b) m = (mac, c)" by fastforce
  have len: "length mac = 16" "length c = length m"
    using aead_lock_len [OF xsalsa_ok [OF assms(1)] l] by auto
  let ?h = "box (xsalsa C) (cb_key b) (nonce_incr C (cb_nonce b)) (be16 (length m) @ mac)"
  have f: "frame C b m = ?h @ c" using 1 l by (simp add: frame_def)
  have h: "length ?h = 34" using assms(1) len by (simp add: aead_box_len xsalsa_ok)
  have u: "unbox (xsalsa C) (cb_key b) (nonce_incr C (cb_nonce b)) ?h = Some (be16 (length m) @ mac)"
    using assms(1) by (simp add: aead_unbox_iff xsalsa_ok)
  have v: "unlock (xsalsa C) (cb_key b) (cb_nonce b) mac c = Some m"
    using assms(1) l by (simp add: aead_unlock_iff xsalsa_ok)
  show ?thesis using 1 h u v len assms(2) by (simp add: open_frame_def f)
next
  case 2
  let ?x = "box (xchacha C) (cb_key b) (cb_nonce b) m"
  have h: "length ?x = length m + 16" using assms(1) by (simp add: aead_box_len xchacha_ok)
  have u: "unbox (xchacha C) (cb_key b) (cb_nonce b) ?x = Some m"
    using assms(1) by (simp add: aead_unbox_iff xchacha_ok)
  show ?thesis using 2 h u assms(2) by (simp add: open_frame_def frame_def add.commute)
qed

lemma open_frame_Got:
  assumes "crypto_ok C" "open_frame C b bs = Got m n"
  shows "n = overhead b + length m" "n \<le> length bs" "length m \<le> 0xFFFF"
proof -
  note sizes = aead_lock_len [OF xsalsa_ok [OF assms(1)]] aead_box_len [OF xchacha_ok [OF assms(1)]]
  have *: "n = overhead b + length m \<and> n \<le> length bs \<and> length m \<le> 0xFFFF"
  proof (cases b rule: protocol_cases)
    case 1
    with assms(2) obtain header where h: "34 + readUint16At header \<le> length bs"
      "n = 34 + readUint16At header"
      "unlock (xsalsa C) (cb_key b) (cb_nonce b) (drop 2 header)
         (take (readUint16At header) (drop 34 bs)) = Some m"
      by (auto simp: open_frame_def Let_def split: if_splits option.splits)
    then have "length m = readUint16At header"
      using sizes(1) assms(1) by (fastforce simp: aead_unlock_iff xsalsa_ok)
    then show ?thesis using h 1 readUint16At_bound [of header] by (simp add: overhead_def)
  next
    case 2
    then have "18 + readUint16At bs \<le> length bs" "n = 18 + readUint16At bs"
      "m = [] \<and> readUint16At bs = 0 \<or> unbox (xchacha C) (cb_key b) (cb_nonce b)
         (take (16 + readUint16At bs) (drop 2 bs)) = Some m"
      using assms(2) by (auto simp: open_frame_def Let_def split: if_splits option.splits)
    moreover from this have "length m = readUint16At bs"
      using assms(1) sizes(2) [of "cb_key b" "cb_nonce b" m]
      by (auto simp: aead_unbox_iff xchacha_ok dest!: arg_cong [where f = length])
    ultimately show ?thesis using 2 readUint16At_bound [of bs] by (simp add: overhead_def)
  qed
  then show "n = overhead b + length m" "n \<le> length bs" "length m \<le> 0xFFFF" by simp_all
qed

lemma readUint16At_append [simp]:
  "2 \<le> length bs \<Longrightarrow> readUint16At (bs @ xs) = readUint16At bs"
  by (cases bs; cases "tl bs") (auto simp: readUint16At_def)

lemma open_frame_extend:
  "open_frame C b bs \<noteq> More \<Longrightarrow> open_frame C b (bs @ xs) = open_frame C b bs"
  by (auto simp: open_frame_def Let_def split: if_splits option.splits)

lemma open_frame_prefix:
  assumes "crypto_ok C" "length m \<le> 0xFFFF" "strict_prefix p (frame C b m)"
  shows "open_frame C b p = More"
proof (rule ccontr)
  assume "open_frame C b p \<noteq> More"
  moreover obtain q where q: "frame C b m = p @ q" "q \<noteq> []"
    using assms(3) by (auto elim: strict_prefixE')
  ultimately have "open_frame C b p = Got m (length (frame C b m))"
    using open_frame_extend [of C b p q] open_frame_frame [OF assms(1,2), of b "[]"] by simp
  then show False
    using open_frame_Got(2) [OF assms(1)] q by fastforce
qed

lemma open_frame_sound:
  assumes "crypto_ok C" "open_frame C b bs = Got m n" "m \<noteq> [] \<or> cb_protocol b = BoxStream"
  shows "take n bs = frame C b m"
proof (cases b rule: protocol_cases)
  case 1
  with assms(2) obtain header where h: "34 + readUint16At header \<le> length bs"
    "n = 34 + readUint16At header"
    "unbox (xsalsa C) (cb_key b) (nonce_incr C (cb_nonce b)) (take 34 bs) = Some header"
    "unlock (xsalsa C) (cb_key b) (cb_nonce b) (drop 2 header)
       (take (readUint16At header) (drop 34 bs)) = Some m"
    by (auto simp: open_frame_def Let_def split: if_splits option.splits)
  have b: "take 34 bs = box (xsalsa C) (cb_key b) (nonce_incr C (cb_nonce b)) header"
    using h(3) assms(1) by (simp add: aead_unbox_iff xsalsa_ok)
  have l: "lock (xsalsa C) (cb_key b) (cb_nonce b) m
             = (drop 2 header, take (readUint16At header) (drop 34 bs))"
    using h(4) assms(1) by (simp add: aead_unlock_iff xsalsa_ok)
  have "length header + 16 = 34"
    using arg_cong [OF b, of length] h(1) assms(1) by (simp add: aead_box_len xsalsa_ok)
  moreover have "length m = readUint16At header"
    using open_frame_Got(1) [OF assms(1,2)] 1 h(2) by (simp add: overhead_def)
  ultimately have "be16 (length m) @ drop 2 header = header"
    by (simp add: be16_read_take)
  then show ?thesis using 1 b l h(2) by (simp add: frame_def take_add)
next
  case 2
  then have h: "18 + readUint16At bs \<le> length bs" "n = 18 + readUint16At bs"
    "unbox (xchacha C) (cb_key b) (cb_nonce b) (take (16 + readUint16At bs) (drop 2 bs)) = Some m"
    using assms(2,3) by (auto simp: open_frame_def Let_def split: if_splits option.splits)
  then have "take (16 + readUint16At bs) (drop 2 bs) = box (xchacha C) (cb_key b) (cb_nonce b) m"
    using assms(1) by (simp add: aead_unbox_iff xchacha_ok)
  moreover have "length m = readUint16At bs"
    using open_frame_Got(1) [OF assms(1,2)] 2 h(2) by (simp add: overhead_def)
  moreover have "take n bs = take 2 bs @ take (16 + readUint16At bs) (drop 2 bs)"
    using h(2) take_add [of 2 "16 + readUint16At bs" bs] by (simp add: add.assoc [symmetric])
  ultimately show ?thesis using 2 h(1) by (simp add: frame_def be16_read_take)
qed

section \<open>The memory operations implement the wire format\<close>

definition fits :: "bytes \<Rightarrow> nat \<Rightarrow> nat \<Rightarrow> bool" where
  "fits mem p n \<longleftrightarrow> p + n \<le> length mem"

lemma encrypt_eq:
  assumes C: "crypto_ok C" and "fits mem (in_data inp) (in_size inp)"
    and "fits mem (out_data out) (out_size out)"
    and "in_size inp \<le> 0xFFFF" "overhead b + in_size inp \<le> out_size out"
  shows "encrypt C b mem inp out =
    (Inr Success, next_box C b,
     mem_write mem (out_data out) (frame C b (mem_read mem (in_data inp) (in_size inp))),
     out\<lparr>out_size := overhead b + in_size inp\<rparr>)"
proof -
  let ?m = "mem_read mem (in_data inp) (in_size inp)"
  have m: "length ?m = in_size inp" using assms(2) by (simp add: fits_def)
  show ?thesis
  proof (cases b rule: protocol_cases)
    case 1
    obtain mac c where l: "lock (xsalsa C) (cb_key b) (cb_nonce b) ?m = (mac, c)" by fastforce
    have len: "length mac = 16" "length c = in_size inp"
      using aead_lock_len [OF xsalsa_ok [OF C] l] m by auto
    let ?h = "box (xsalsa C) (cb_key b) (nonce_incr C (cb_nonce b)) (be16 (in_size inp) @ mac)"
    have "length ?h = 34" using C len by (simp add: aead_box_len xsalsa_ok)
    then have "mem_write (mem_write mem (out_data out + 34) c) (out_data out) ?h
        = mem_write mem (out_data out) (?h @ c)"
      using mem_write_write_adjacent [of "out_data out" ?h c mem] assms(3,5) len 1
      by (simp add: fits_def overhead_def)
    then show ?thesis using 1 l assms(4,5) m
      by (simp add: encrypt_def encryptedSize_eq writeUint16At_eq box_sizes frame_def
          next_box_def add.assoc Let_def)
  next
    case 2
    let ?x = "box (xchacha C) (cb_key b) (cb_nonce b) ?m"
    have "length ?x = in_size inp + 16" using C m by (simp add: aead_box_len xchacha_ok)
    then have "mem_write (mem_write mem (out_data out + 2) ?x) (out_data out) (be16 (in_size inp))
        = mem_write mem (out_data out) (be16 (in_size inp) @ ?x)"
      using mem_write_write_adjacent [of "out_data out" "be16 (in_size inp)" ?x mem] assms(3,5) 2
      by (simp add: fits_def overhead_def)
    then show ?thesis using 2 assms(4,5) m
      by (simp add: encrypt_def encryptedSize_eq writeUint16At_eq frame_def next_box_def Let_def)
  qed
qed

lemma unbox_to_eq:
  assumes "aead_ok A" "length c \<le> cap + 16"
  shows "unbox_to A k n c cap = (case unbox A k n c of None \<Rightarrow> [] | Some m \<Rightarrow> m)"
proof (cases "unbox A k n c")
  case None
  then show ?thesis using assms(1) by (simp add: aead_unbox_to_fail)
next
  case (Some m)
  then have "c = box A k n m" using assms(1) by (simp add: aead_unbox_iff)
  then show ?thesis using assms Some by (simp add: aead_unbox_to_box aead_box_len)
qed

lemma unbox_length:
  "aead_ok A \<Longrightarrow> unbox A k n c = Some m \<Longrightarrow> length c = length m + 16"
  by (simp add: aead_unbox_iff aead_box_len)

lemma decryptBoxStreamHeader_eq:
  assumes "crypto_ok C" "fits mem (in_data inp) (in_size inp)"
  shows "decryptBoxStreamHeader C b mem inp =
    (if in_size inp < 34
     then (\<lparr>pk_status = IncompleteInput, pk_decryptedSize = 0, pk_encryptedSize = 34\<rparr>, [])
     else case unbox (xsalsa C) (cb_key b) (nonce_incr C (cb_nonce b))
                 (mem_read mem (in_data inp) 34) of
       None \<Rightarrow> (\<lparr>pk_status = CorruptData, pk_decryptedSize = 0, pk_encryptedSize = 0\<rparr>, [])
     | Some h \<Rightarrow> (\<lparr>pk_status = Success, pk_decryptedSize = readUint16At h,
                     pk_encryptedSize = 34 + readUint16At h\<rparr>, h))"
proof (cases "in_size inp < 34")
  case True
  then show ?thesis by (simp add: decryptBoxStreamHeader_def box_sizes)
next
  case False
  then have len: "length (mem_read mem (in_data inp) 34) = 34"
    using assms(2) by (simp add: fits_def)
  have "length h = 18" if "unbox (xsalsa C) (cb_key b) (nonce_incr C (cb_nonce b))
      (mem_read mem (in_data inp) 34) = Some h" for h
    using unbox_length [OF xsalsa_ok [OF assms(1)] that] len by simp
  then show ?thesis using False len unbox_to_eq [OF xsalsa_ok [OF assms(1)]]
    by (auto simp: decryptBoxStreamHeader_def box_sizes Let_def split: option.splits)
qed

lemma peek_compact:
  assumes "cb_protocol b = Compact" "fits mem (in_data inp) (in_size inp)"
  shows "peek C b mem inp =
    (if in_size inp < 2
     then \<lparr>pk_status = IncompleteInput, pk_decryptedSize = 0, pk_encryptedSize = 2\<rparr>
     else let n = readUint16At (mem_read mem (in_data inp) (in_size inp))
          in \<lparr>pk_status = Success, pk_decryptedSize = n, pk_encryptedSize = 18 + n\<rparr>)"
proof -
  have "readUint16At (mem_read mem p 2) = readUint16At (mem_read mem p k)" if "2 \<le> k" for p k
    using that by (simp add: mem_read_def)
  then show ?thesis using assms(1)
    by (auto simp: peek_def encryptedSize_eq readUint16At_bound overhead_def Let_def)
qed

lemma peek_boxstream:
  "cb_protocol b = BoxStream \<Longrightarrow> peek C b mem inp = fst (decryptBoxStreamHeader C b mem inp)"
  by (simp add: peek_def)

lemma mem_read_within: "i + k \<le> n \<Longrightarrow> mem_read mem (p + i) k = take k (drop i (mem_read mem p n))"
  by (simp add: mem_read_def drop_take min_def add.commute)

definition decrypted :: "crypto \<Rightarrow> CryptoBox \<Rightarrow> bytes \<Rightarrow> input_data \<Rightarrow> output_buffer
    \<Rightarrow> opened \<Rightarrow> status_t \<times> CryptoBox \<times> bytes \<times> input_data \<times> output_buffer" where
  "decrypted C b mem inp out r =
     (case r of
        More \<Rightarrow> (IncompleteInput, b, mem, inp, out)
      | Bad \<Rightarrow> (CorruptData, b, mem, inp, out)
      | Got m n \<Rightarrow> (Success, next_box C b, mem_write mem (out_data out) m,
          \<lparr>in_data = in_data inp + n, in_size = in_size inp - n\<rparr>, out\<lparr>out_size := length m\<rparr>))"

lemma mem_write_Nil [simp]: "mem_write mem p [] = mem"
  by (simp add: mem_write_def)

lemma decrypt_eq_boxstream:
  assumes C: "crypto_ok C" and f: "fits mem (in_data inp) (in_size inp)"
    and o: "pk_decryptedSize (peek C b mem inp) \<le> out_size out" and b: "cb_protocol b = BoxStream"
  shows "decrypt C b mem inp out
           = decrypted C b mem inp out (open_frame C b (mem_read mem (in_data inp) (in_size inp)))"
proof -
  let ?bs = "mem_read mem (in_data inp) (in_size inp)"
  have len: "length ?bs = in_size inp" using f by (simp add: fits_def)
  note head = decryptBoxStreamHeader_eq [OF C f]
  show ?thesis
  proof (cases "in_size inp < 34")
    case True
    then show ?thesis using b len by (simp add: decrypt_def decrypted_def open_frame_def head)
  next
    case False
    then have r34: "mem_read mem (in_data inp) 34 = take 34 ?bs"
      using mem_read_within [of 0 34 "in_size inp" mem "in_data inp"] by simp
    show ?thesis
    proof (cases "unbox (xsalsa C) (cb_key b) (nonce_incr C (cb_nonce b)) (take 34 ?bs)")
      case None
      then show ?thesis using b len False r34
        by (simp add: decrypt_def decrypted_def open_frame_def head)
    next
      case (Some h)
      let ?n = "readUint16At h"
      have o': "?n \<le> out_size out" using o b False Some r34 by (simp add: peek_def head)
      have body: "34 + ?n \<le> in_size inp
          \<Longrightarrow> mem_read mem (in_data inp + 34) ?n = take ?n (drop 34 ?bs)"
        using mem_read_within [of 34 ?n "in_size inp" mem "in_data inp"] by simp
      show ?thesis
      proof (cases "unlock (xsalsa C) (cb_key b) (cb_nonce b) (drop 2 h) (take ?n (drop 34 ?bs))")
        case None
        then show ?thesis using b len False Some r34 o' body
          by (simp add: decrypt_def decrypted_def open_frame_def head box_sizes Let_def add.assoc)
      next
        case (Some m)
        then have "34 + ?n \<le> in_size inp \<Longrightarrow> length m = ?n"
          using open_frame_Got(1) [OF C, of b ?bs m "34 + ?n"] b len
            \<open>unbox (xsalsa C) (cb_key b) (nonce_incr C (cb_nonce b)) (take 34 ?bs) = Some h\<close>
          by (simp add: open_frame_def overhead_def)
        then show ?thesis using b len False r34 o' body Some
            \<open>unbox (xsalsa C) (cb_key b) (nonce_incr C (cb_nonce b)) (take 34 ?bs) = Some h\<close>
          by (simp add: decrypt_def decrypted_def open_frame_def head box_sizes next_box_def
              Let_def add.assoc)
      qed
    qed
  qed
qed

lemma decrypt_eq_compact:
  assumes C: "crypto_ok C" and f: "fits mem (in_data inp) (in_size inp)"
    and o: "pk_decryptedSize (peek C b mem inp) \<le> out_size out" and b: "cb_protocol b = Compact"
  shows "decrypt C b mem inp out
           = decrypted C b mem inp out (open_frame C b (mem_read mem (in_data inp) (in_size inp)))"
proof -
  let ?bs = "mem_read mem (in_data inp) (in_size inp)" and ?n = "readUint16At (mem_read mem (in_data inp) (in_size inp))"
  have len: "length ?bs = in_size inp" using f by (simp add: fits_def)
  note head = peek_compact [OF b f]
  show ?thesis
  proof (cases "in_size inp < 2 \<or> in_size inp < 18 + ?n")
    case True
    then show ?thesis using b len
      by (auto simp: decrypt_def decrypted_def open_frame_def head Let_def)
  next
    case False
    then have body: "mem_read mem (in_data inp + 2) (16 + ?n) = take (16 + ?n) (drop 2 ?bs)"
      using mem_read_within [of 2 "16 + ?n" "in_size inp" mem "in_data inp"] by simp
    have o': "?n \<le> out_size out" using o b False by (simp add: head Let_def)
    let ?c = "take (16 + ?n) (drop 2 ?bs)"
    have u: "unbox_to (xchacha C) (cb_key b) (cb_nonce b) ?c (out_size out)
        = (case unbox (xchacha C) (cb_key b) (cb_nonce b) ?c of None \<Rightarrow> [] | Some m \<Rightarrow> m)"
      using o' by (intro unbox_to_eq xchacha_ok [OF C]) simp
    have m: "length m = ?n" if "unbox (xchacha C) (cb_key b) (cb_nonce b) ?c = Some m" for m
      using unbox_length [OF xchacha_ok [OF C] that] False len by (simp add: min_def split: if_splits)
    show ?thesis
    proof (cases "unbox (xchacha C) (cb_key b) (cb_nonce b) ?c")
      case None
      then show ?thesis using b len False body o' u
        by (cases "?n = 0")
          (simp_all add: decrypt_def decrypted_def open_frame_def head next_box_def Let_def)
    next
      case (Some m)
      then show ?thesis using b len False body o' u m [OF Some]
        by (simp add: decrypt_def decrypted_def open_frame_def head next_box_def Let_def)
    qed
  qed
qed

lemma decrypt_eq:
  assumes "crypto_ok C" "fits mem (in_data inp) (in_size inp)"
    "pk_decryptedSize (peek C b mem inp) \<le> out_size out"
  shows "decrypt C b mem inp out
           = decrypted C b mem inp out (open_frame C b (mem_read mem (in_data inp) (in_size inp)))"
  using decrypt_eq_boxstream [OF assms] decrypt_eq_compact [OF assms]
  by (cases b rule: protocol_cases) simp_all

section \<open>The codec contract\<close>

definition codec_ok :: "crypto \<Rightarrow> CryptoBox \<Rightarrow> bool" where
  "codec_ok C b \<longleftrightarrow> crypto_ok C"

interpretation box_codec: frame_codec "codec_ok C" "frame C" "next_box C" "open_frame C" "0xFFFF"
  for C
proof (unfold_locales, unfold codec_ok_def)
  fix s :: CryptoBox and bs m n
  assume "crypto_ok C" "open_frame C s bs = Got m n"
  from open_frame_Got [OF this] show "length m < n \<and> n \<le> length bs" by (simp add: overhead_def)
next
  fix s :: CryptoBox and m assume "crypto_ok C"
  from length_frame [OF this, of s m] show "frame C s m \<noteq> []" by (auto simp: overhead_def split: if_splits)
qed (simp_all add: open_frame_frame open_frame_prefix open_frame_extend)

definition boxstream_ok :: "crypto \<Rightarrow> CryptoBox \<Rightarrow> bool" where
  "boxstream_ok C b \<longleftrightarrow> crypto_ok C \<and> cb_protocol b = BoxStream"

interpretation boxstream_codec: authentic_codec "boxstream_ok C" "frame C" "next_box C"
  "open_frame C" "0xFFFF" for C
proof (unfold_locales, unfold boxstream_ok_def)
  fix s :: CryptoBox and bs m n
  assume "crypto_ok C \<and> cb_protocol s = BoxStream" "open_frame C s bs = Got m n"
  then show "length m < n \<and> n \<le> length bs"
    using box_codec.unseal_Got [of C s bs m n] by (simp add: codec_ok_def)
next
  fix s :: CryptoBox and m assume "crypto_ok C \<and> cb_protocol s = BoxStream"
  then show "frame C s m \<noteq> []" using box_codec.seal_nonempty by (simp add: codec_ok_def)
qed (simp_all add: open_frame_frame open_frame_prefix open_frame_extend open_frame_sound)

end
