(* ===== verification/CryptoStream.thy ===== *)
theory CryptoStream
  imports CryptoBox
begin

text \<open>
  The byte streams of \<open>src/SecretStream.cc\<close> (second half) and \<open>include/SecretStream.hh\<close>: classes
  \<open>CryptoStream\<close>, \<open>EncryptionStream\<close> and \<open>DecryptionStream\<close>. The vector \<open>_buffer\<close> is the memory in
  which the boxes work in place; its first \<open>_processedBytes\<close> bytes are output waiting to be pulled,
  the others are input not processed yet. The loops of \<open>pushPartial\<close> and of the decrypting \<open>push\<close>
  are recursive functions with a termination proof.
\<close>

section \<open>Model\<close>

record CryptoStream =
  cs_buffer :: bytes
  cs_processedBytes :: nat
  cs_box :: CryptoBox

definition EncryptionStream_of_session :: "Session \<Rightarrow> Protocol \<Rightarrow> CryptoStream" where
  "EncryptionStream_of_session s p =
     \<lparr>cs_buffer = [], cs_processedBytes = 0, cs_box = EncryptoBox_of_session s p\<rparr>"

definition DecryptionStream_of_session :: "Session \<Rightarrow> Protocol \<Rightarrow> CryptoStream" where
  "DecryptionStream_of_session s p =
     \<lparr>cs_buffer = [], cs_processedBytes = 0, cs_box = DecryptoBox_of_session s p\<rparr>"

definition availableData :: "CryptoStream \<Rightarrow> bytes" where
  "availableData s = take (cs_processedBytes s) (cs_buffer s)"

definition bytesAvailable :: "CryptoStream \<Rightarrow> nat" where
  "bytesAvailable s = cs_processedBytes s"

definition skip :: "CryptoStream \<Rightarrow> nat \<Rightarrow> nat \<times> CryptoStream" where
  "skip s maxSize =
     (let n = min maxSize (cs_processedBytes s) in
      if 0 < n
      then (n, s\<lparr>cs_buffer := drop n (cs_buffer s), cs_processedBytes := cs_processedBytes s - n\<rparr>)
      else (n, s))"

text \<open>The bytes copied to the destination are returned; their number is the C++ result.\<close>

definition pull :: "CryptoStream \<Rightarrow> nat \<Rightarrow> bytes \<times> CryptoStream" where
  "pull s dstSize =
     (let n = min (bytesAvailable s) dstSize in
      if 0 < n then (take n (availableData s), snd (skip s n)) else ([], s))"

definition flush :: "crypto \<Rightarrow> CryptoStream \<Rightarrow> (unit, CryptoStream) outcome" where
  "flush C s =
     (let p = cs_processedBytes s;
          msgSize = size_sub (length (cs_buffer s)) p in
      if 0 < msgSize then
        let buffer = resize (p + encryptedSize (cs_box s) msgSize) (cs_buffer s);
            inp = \<lparr>in_data = p, in_size = msgSize\<rparr>;
            out = \<lparr>out_data = p, out_size = size_sub (length buffer) p\<rparr>
        in case encrypt C (cs_box s) buffer inp out of (r, b, mem, out') \<Rightarrow>
           (case r of
              Inl e \<Rightarrow> (Inl e, s\<lparr>cs_buffer := mem, cs_box := b\<rparr>)
            | Inr status \<Rightarrow>
                if status \<noteq> Success then (Inl AssertFailed, s\<lparr>cs_buffer := mem, cs_box := b\<rparr>)
                else (Inr (), \<lparr>cs_buffer = resize (p + out_size out') mem,
                               cs_processedBytes = p + out_size out', cs_box = b\<rparr>))
      else (Inr (), s))"

text \<open>Bytes that \<open>pushPartial\<close> may still append before it has to flush.\<close>

definition room :: "CryptoStream \<Rightarrow> nat" where
  "room s = size_sub kMaxMessageSize (size_sub (length (cs_buffer s)) (cs_processedBytes s))"

lemma flush_empties:
  assumes "flush C s = (Inr u, s')"
  shows "room s' = kMaxMessageSize"
  using assms
  by (auto simp: flush_def room_def Let_def size_sub_def split: if_splits prod.splits sum.splits)

function pushPartial :: "crypto \<Rightarrow> CryptoStream \<Rightarrow> bytes \<Rightarrow> (unit, CryptoStream) outcome" where
  "pushPartial C s data =
     (if data = [] then (Inr (), s)
      else let chunk = min (length data) (room s);
               s1 = s\<lparr>cs_buffer := cs_buffer s @ take chunk data\<rparr>;
               rest = drop chunk data
           in if rest = [] then (Inr (), s1)
              else (case flush C s1 of
                      (Inl e, s2) \<Rightarrow> (Inl e, s2)
                    | (Inr _, s2) \<Rightarrow> pushPartial C s2 rest))"
  by auto
termination
proof (relation "measure (\<lambda>(C, s, data). 2 * length data + (if room s = 0 then 1 else 0))",
    goal_cases)
  case (2 C s data chunk s1 rest r s2 u)
  then have "room s2 \<noteq> 0"
    using flush_empties [of C s1 u s2] by (simp add: kMaxMessageSize_def)
  with 2 show ?case by (cases "room s") (auto simp: min_def)
qed simp

declare pushPartial.simps [simp del]

definition encryption_push :: "crypto \<Rightarrow> CryptoStream \<Rightarrow> bytes \<Rightarrow> (unit, CryptoStream) outcome" where
  "encryption_push C s data = ebind (pushPartial C s data) (\<lambda>_ s'. flush C s') (\<lambda>s'. s')"

text \<open>
  The loop of the decrypting \<open>push\<close>. The first line covers a state in which the code would read
  outside its buffer; no operation leads there.
\<close>

lemma decrypt_progress:
  assumes "decrypt C b mem inp out = (Success, b', mem', inp', out')"
  shows "length mem' = length mem \<and> in_data inp + 18 + out_size out' \<le> in_data inp'
    \<and> in_data inp' \<le> in_data inp + in_size inp"
proof -
  have h: "pk_encryptedSize r = 34 + pk_decryptedSize r"
    if "decryptBoxStreamHeader C b mem inp = (r, h)" "pk_status r = Success" for r h
    using that by (auto simp: decryptBoxStreamHeader_def Let_def box_sizes split: if_splits)
  have k: "pk_encryptedSize (peek C b mem inp) = 18 + pk_decryptedSize (peek C b mem inp)"
    if "pk_status (peek C b mem inp) = Success" "cb_protocol b \<noteq> BoxStream"
    using that by (auto simp: peek_def Let_def encryptedSize_eq readUint16At_bound overhead_def
        split: if_splits)
  show ?thesis
  proof (cases b rule: protocol_cases)
    case 1
    obtain r hd where r: "decryptBoxStreamHeader C b mem inp = (r, hd)" by fastforce
    show ?thesis using assms 1 r h [OF r]
      by (auto simp: decrypt_def Let_def split: if_splits option.splits)
  next
    case 2
    then show ?thesis using assms k
      by (auto simp: decrypt_def Let_def split: if_splits)
  qed
qed

function decrypt_loop :: "crypto \<Rightarrow> CryptoStream \<Rightarrow> (bool, CryptoStream) outcome" where
  "decrypt_loop C s =
     (if length (cs_buffer s) < cs_processedBytes s then (Inl UndefinedBehaviour, s)
      else let p = cs_processedBytes s;
               n = size_sub (length (cs_buffer s)) p;
               inp = \<lparr>in_data = p, in_size = n\<rparr>;
               out = \<lparr>out_data = p, out_size = n\<rparr>
           in case decrypt C (cs_box s) (cs_buffer s) inp out of (status, b, mem, inp', out') \<Rightarrow>
              (case status of
                 Success \<Rightarrow>
                   decrypt_loop C
                     \<lparr>cs_buffer = take (p + out_size out') mem @ drop (in_data inp') mem,
                      cs_processedBytes = p + out_size out', cs_box = b\<rparr>
               | IncompleteInput \<Rightarrow> (Inr True, s\<lparr>cs_buffer := mem, cs_box := b\<rparr>)
               | CorruptData \<Rightarrow> (Inr False, s\<lparr>cs_buffer := mem, cs_box := b\<rparr>)
               | OutTooSmall \<Rightarrow> (Inl LogicError, s\<lparr>cs_buffer := mem, cs_box := b\<rparr>)))"
  by auto
termination
proof (relation "measure (\<lambda>(C, s). length (cs_buffer s) - cs_processedBytes s)", goal_cases)
  case (2 C s p n inp out st x b y mem z inp' out')
  then have "decrypt C (cs_box s) (cs_buffer s) inp out = (Success, b, mem, inp', out')" by simp
  from decrypt_progress [OF this] 2 show ?case by (auto simp: size_sub_le)
qed simp

declare decrypt_loop.simps [simp del]

definition decryption_push :: "crypto \<Rightarrow> CryptoStream \<Rightarrow> bytes \<Rightarrow> (bool, CryptoStream) outcome" where
  "decryption_push C s data = decrypt_loop C (s\<lparr>cs_buffer := cs_buffer s @ data\<rparr>)"

definition close :: "CryptoStream \<Rightarrow> bool \<times> CryptoStream" where
  "close s = (length (cs_buffer s) = cs_processedBytes s, s\<lparr>cs_buffer := [], cs_processedBytes := 0\<rparr>)"

end
