(* ===== verification/CryptoBox_Safety.thy ===== *)
theory CryptoBox_Safety
  imports CryptoBox
begin

text \<open>
  The properties of message encryption: what \<open>encrypt\<close> writes and where, that \<open>decrypt\<close> inverts
  it, what \<open>decrypt\<close> does with incomplete, corrupt and forged input, and that \<open>peek\<close> predicts it.
\<close>

section \<open>Lemmas\<close>

lemma encrypt_cases:
  assumes "encrypt C b mem inp out = (r, b', mem', out')" "r \<noteq> Inr Success"
  shows "b' = b \<and> mem' = mem \<and> out' = out \<and>
    (r = Inl InvalidArgument \<and> 0xFFFF < in_size inp \<or>
     r = Inr OutTooSmall \<and> in_size inp \<le> 0xFFFF \<and> out_size out < overhead b + in_size inp)"
proof (cases "0xFFFF < in_size inp \<or> out_size out < encryptedSize b (in_size inp)")
  case True
  then show ?thesis
    using assms encryptedSize_eq [of "in_size inp" b]
    by (auto simp: encrypt_def Let_def split: if_splits)
next
  case False
  then show ?thesis using assms
    by (auto simp: encrypt_def Let_def writeUint16At_eq split: if_splits prod.splits)
qed

lemma encrypt_success:
  assumes "crypto_ok C" "fits mem (in_data inp) (in_size inp)"
    and "fits mem (out_data out) (out_size out)"
    and "encrypt C b mem inp out = (Inr Success, b', mem', out')"
  shows "in_size inp \<le> 0xFFFF" "overhead b + in_size inp \<le> out_size out" "b' = next_box C b"
    "mem' = mem_write mem (out_data out) (frame C b (mem_read mem (in_data inp) (in_size inp)))"
    "out' = out\<lparr>out_size := overhead b + in_size inp\<rparr>"
    "mem_read mem' (out_data out') (out_size out') = frame C b (mem_read mem (in_data inp) (in_size inp))"
proof -
  have n: "in_size inp \<le> 0xFFFF"
    using assms(4) by (auto simp: encrypt_def Let_def split: if_splits)
  moreover have o: "overhead b + in_size inp \<le> out_size out"
    using assms(4) n by (auto simp: encrypt_def encryptedSize_eq Let_def split: if_splits)
  ultimately show "in_size inp \<le> 0xFFFF" "overhead b + in_size inp \<le> out_size out" .
  show *: "b' = next_box C b"
    "mem' = mem_write mem (out_data out) (frame C b (mem_read mem (in_data inp) (in_size inp)))"
    "out' = out\<lparr>out_size := overhead b + in_size inp\<rparr>"
    using encrypt_eq [OF assms(1-3) n o] assms(4) by auto
  have "length (mem_read mem (in_data inp) (in_size inp)) = in_size inp"
    using assms(2) by (simp add: fits_def)
  then show "mem_read mem' (out_data out') (out_size out')
      = frame C b (mem_read mem (in_data inp) (in_size inp))"
    using * assms(1,3) o
    by (simp add: mem_read_write_same length_frame fits_def)
qed

lemma peek_announces:
  assumes "crypto_ok C" "fits mem (in_data inp) (in_size inp)"
    and "open_frame C b (mem_read mem (in_data inp) (in_size inp)) = Got m n"
  shows "peek C b mem inp
    = \<lparr>pk_status = Success, pk_decryptedSize = length m, pk_encryptedSize = n\<rparr>"
proof (cases b rule: protocol_cases)
  case 1
  have "mem_read mem (in_data inp) 34 = take 34 (mem_read mem (in_data inp) (in_size inp))"
    if "34 \<le> in_size inp" using that by (simp add: mem_read_def)
  then show ?thesis
    using 1 assms open_frame_Got(1) [OF assms(1,3)]
    by (auto simp: peek_def decryptBoxStreamHeader_eq open_frame_def overhead_def fits_def Let_def
        split: if_splits option.splits)
next
  case 2
  then show ?thesis
    using assms(2,3) open_frame_Got(1) [OF assms(1,3)]
    by (auto simp: peek_compact open_frame_def overhead_def fits_def Let_def
        split: if_splits option.splits)
qed

lemma decrypt_too_small:
  assumes "crypto_ok C" "fits mem (in_data inp) (in_size inp)"
    and "\<not> pk_decryptedSize (peek C b mem inp) \<le> out_size out"
  shows "decrypt C b mem inp out = ((if in_size inp < pk_encryptedSize (peek C b mem inp)
    then IncompleteInput else OutTooSmall), b, mem, inp, out)"
proof (cases b rule: protocol_cases)
  case 1
  then show ?thesis
    using assms by (auto simp: decrypt_def peek_boxstream decryptBoxStreamHeader_eq Let_def
        split: if_splits option.splits)
next
  case 2
  then show ?thesis using assms by (auto simp: decrypt_def peek_compact Let_def split: if_splits)
qed

lemma announced_fits:
  assumes "crypto_ok C" "fits mem (in_data inp) (in_size inp)"
    and "open_frame C b (mem_read mem (in_data inp) (in_size inp)) \<noteq> More"
  shows "pk_encryptedSize (peek C b mem inp) \<le> in_size inp"
proof (cases b rule: protocol_cases)
  case 1
  have "mem_read mem (in_data inp) 34 = take 34 (mem_read mem (in_data inp) (in_size inp))"
    if "34 \<le> in_size inp" using that by (simp add: mem_read_def)
  then show ?thesis using 1 assms
    by (auto simp: peek_def decryptBoxStreamHeader_eq open_frame_def fits_def Let_def
        split: if_splits option.splits)
next
  case 2
  then show ?thesis using assms
    by (auto simp: peek_compact open_frame_def fits_def Let_def split: if_splits option.splits)
qed

lemma announced_less:
  assumes "crypto_ok C" "fits mem (in_data inp) (in_size inp)"
    and "0 < pk_decryptedSize (peek C b mem inp)"
  shows "pk_decryptedSize (peek C b mem inp) < pk_encryptedSize (peek C b mem inp)"
  using assms
  by (cases b rule: protocol_cases)
    (auto simp: peek_boxstream peek_compact decryptBoxStreamHeader_eq Let_def
      split: if_splits option.splits)

text \<open>With an output buffer as large as the input, as the streams use it, there is always room.\<close>

lemma decrypt_same_size:
  assumes "crypto_ok C" "fits mem (in_data inp) (in_size inp)" "in_size inp \<le> out_size out"
  shows "decrypt C b mem inp out
           = decrypted C b mem inp out (open_frame C b (mem_read mem (in_data inp) (in_size inp)))"
proof (cases "pk_decryptedSize (peek C b mem inp) \<le> out_size out")
  case True
  then show ?thesis by (rule decrypt_eq [OF assms(1,2)])
next
  case False
  then have "in_size inp < pk_encryptedSize (peek C b mem inp)"
    using announced_less [OF assms(1,2), of b] assms(3) by linarith
  then show ?thesis
    using decrypt_too_small [OF assms(1,2) False] announced_fits [OF assms(1,2), of b]
    by (fastforce simp: decrypted_def)
qed

lemma decrypt_success:
  assumes "crypto_ok C" "fits mem (in_data inp) (in_size inp)"
    and "decrypt C b mem inp out = (Success, b', mem', inp', out')"
  obtains m n where "open_frame C b (mem_read mem (in_data inp) (in_size inp)) = Got m n"
    "b' = next_box C b" "mem' = mem_write mem (out_data out) m"
    "inp' = \<lparr>in_data = in_data inp + n, in_size = in_size inp - n\<rparr>"
    "out' = out\<lparr>out_size := length m\<rparr>" "length m \<le> out_size out" "n \<le> in_size inp"
proof (cases "pk_decryptedSize (peek C b mem inp) \<le> out_size out")
  case True
  then obtain m n where g: "open_frame C b (mem_read mem (in_data inp) (in_size inp)) = Got m n"
    using decrypt_eq [OF assms(1,2) True] assms(3)
    by (auto simp: decrypted_def split: opened.splits)
  then have "n \<le> in_size inp" using open_frame_Got(2) [OF assms(1) g] by simp
  then show ?thesis
    using that [OF g] decrypt_eq [OF assms(1,2) True] assms(3) g peek_announces [OF assms(1,2) g]
      True by (simp add: decrypted_def)
next
  case False
  then show ?thesis using decrypt_too_small [OF assms(1,2) False] assms(3) by (auto split: if_splits)
qed

lemma decrypt_fails_unchanged:
  assumes "crypto_ok C" "fits mem (in_data inp) (in_size inp)"
    and "decrypt C b mem inp out = (st, b', mem', inp', out')" "st \<noteq> Success"
  shows "b' = b \<and> mem' = mem \<and> inp' = inp \<and> out' = out"
proof (cases "pk_decryptedSize (peek C b mem inp) \<le> out_size out")
  case True
  show ?thesis using decrypt_eq [OF assms(1,2) True] assms(3,4)
    by (auto simp: decrypted_def split: opened.splits)
next
  case False
  show ?thesis using decrypt_too_small [OF assms(1,2) False] assms(3) by auto
qed

text \<open>\<open>peek\<close> and \<open>decrypt\<close> depend on no other memory than their input.\<close>

lemma peek_reads_input:
  assumes "crypto_ok C" "fits mem (in_data inp) (in_size inp)" "fits mem2 (in_data inp) (in_size inp)"
    and "mem_read mem2 (in_data inp) (in_size inp) = mem_read mem (in_data inp) (in_size inp)"
  shows "peek C b mem2 inp = peek C b mem inp"
proof (cases b rule: protocol_cases)
  case 1
  have "take k (mem_read m (in_data inp) (in_size inp)) = mem_read m (in_data inp) k"
    if "k \<le> in_size inp" for k m using that by (simp add: mem_read_def)
  then have "mem_read mem2 (in_data inp) k = mem_read mem (in_data inp) k" if "k \<le> in_size inp" for k
    using assms(4) that by metis
  then show ?thesis
    using 1 by (simp add: peek_boxstream decryptBoxStreamHeader_eq [OF assms(1,2)]
        decryptBoxStreamHeader_eq [OF assms(1,3)])
next
  case 2
  then show ?thesis using assms by (simp add: peek_compact)
qed

lemma decrypt_fails_other:
  assumes "crypto_ok C" "fits mem (in_data inp) (in_size inp)"
    and "decrypt C b mem inp out = (st, b', mem', inp', out')" "st \<noteq> Success"
    and "fits mem2 (in_data inp) (in_size inp)"
    and "mem_read mem2 (in_data inp) (in_size inp) = mem_read mem (in_data inp) (in_size inp)"
  shows "decrypt C b mem2 inp out = (st, b', mem2, inp', out')"
proof -
  note p = peek_reads_input [OF assms(1,2,5,6), of b]
  show ?thesis
  proof (cases "pk_decryptedSize (peek C b mem inp) \<le> out_size out")
    case True
    then show ?thesis
      using decrypt_eq [OF assms(1,2) True] decrypt_eq [OF assms(1,5), of b out] assms(3,4,6) p
      by (auto simp: decrypted_def split: opened.splits)
  next
    case False
    then show ?thesis
      using decrypt_too_small [OF assms(1,2) False] decrypt_too_small [OF assms(1,5), of b out] assms(3) p
      by auto
  qed
qed

lemma decrypt_success_other:
  assumes "crypto_ok C" "fits mem (in_data inp) (in_size inp)"
    and "open_frame C b (mem_read mem (in_data inp) (in_size inp)) = Got m n" "length m \<le> out_size out"
  shows "decrypt C b mem inp out = (Success, next_box C b, mem_write mem (out_data out) m,
    \<lparr>in_data = in_data inp + n, in_size = in_size inp - n\<rparr>, out\<lparr>out_size := length m\<rparr>)"
  using decrypt_eq [OF assms(1,2), of b out] peek_announces [OF assms(1,2,3)] assms(3,4)
  by (simp add: decrypted_def)

lemma encryptedSize_wraps:
  assumes "n < size_max"
  shows "n + overhead b < size_max \<Longrightarrow> encryptedSize b n = n + overhead b"
    "size_max \<le> n + overhead b \<Longrightarrow> encryptedSize b n < n"
proof -
  have "overhead b < size_max" by (simp add: overhead_def size_max_def)
  then have m: "(n + overhead b) mod size_max
      = (if n + overhead b < size_max then n + overhead b else n + overhead b - size_max)"
    using assms by (auto simp: mod_if)
  have e: "encryptedSize b n = (n + overhead b) mod size_max"
    by (simp add: encryptedSize_def overhead_def size_add_def box_sizes add.commute)
  show "n + overhead b < size_max \<Longrightarrow> encryptedSize b n = n + overhead b" using m e by simp
  show "size_max \<le> n + overhead b \<Longrightarrow> encryptedSize b n < n"
    using m e assms \<open>overhead b < size_max\<close> by simp
qed

lemma peek_bounds:
  assumes "crypto_ok C" "fits mem (in_data inp) (in_size inp)"
  shows "pk_decryptedSize (peek C b mem inp) \<le> 0xFFFF"
    "pk_encryptedSize (peek C b mem inp) \<le> 0xFFFF + overhead b"
    "pk_status (peek C b mem inp) = Success \<Longrightarrow>
       pk_encryptedSize (peek C b mem inp) = overhead b + pk_decryptedSize (peek C b mem inp)"
proof -
  have *: "pk_decryptedSize (peek C b mem inp) \<le> 0xFFFF
    \<and> pk_encryptedSize (peek C b mem inp) \<le> 0xFFFF + overhead b
    \<and> (pk_status (peek C b mem inp) = Success \<longrightarrow>
         pk_encryptedSize (peek C b mem inp) = overhead b + pk_decryptedSize (peek C b mem inp))"
  proof (cases b rule: protocol_cases)
    case 1
    then show ?thesis
      using readUint16At_bound decryptBoxStreamHeader_eq [OF assms, of b]
      by (auto simp: peek_boxstream overhead_def split: option.splits)
  next
    case 2
    then show ?thesis
      using readUint16At_bound peek_compact [OF 2 assms(2)] by (auto simp: overhead_def Let_def)
  qed
  then show "pk_decryptedSize (peek C b mem inp) \<le> 0xFFFF"
    "pk_encryptedSize (peek C b mem inp) \<le> 0xFFFF + overhead b"
    "pk_status (peek C b mem inp) = Success \<Longrightarrow>
       pk_encryptedSize (peek C b mem inp) = overhead b + pk_decryptedSize (peek C b mem inp)"
    by blast+
qed

section \<open>Example values\<close>

definition demo_box :: "Protocol \<Rightarrow> CryptoBox" where
  "demo_box p = \<lparr>cb_key = [1, 2], cb_nonce = [3], cb_protocol = p\<rparr>"

definition demo_message :: bytes where
  "demo_message = frame toy (demo_box BoxStream) [1, 2, 3] @ [9]"

definition demo_corrupt :: bytes where
  "demo_corrupt = replicate 40 9"

lemma demo_overhead [simp]: "overhead (demo_box BoxStream) = 34" "overhead (demo_box Compact) = 18"
  by (simp_all add: overhead_def demo_box_def)

lemma length_demo_message [simp]: "length demo_message = 38"
  by (simp add: demo_message_def length_frame [OF toy_ok])

lemma demo_decrypts: "decrypt toy (demo_box BoxStream) demo_message
    \<lparr>in_data = 0, in_size = 38\<rparr> \<lparr>out_data = 0, out_size = 38\<rparr>
  = (Success, next_box toy (demo_box BoxStream), [1, 2, 3] @ drop 3 demo_message,
     \<lparr>in_data = 37, in_size = 1\<rparr>, \<lparr>out_data = 0, out_size = 3\<rparr>)"
proof -
  have "mem_read demo_message 0 38 = frame toy (demo_box BoxStream) [1, 2, 3] @ [9]"
    by (simp add: mem_read_def) (simp add: demo_message_def)
  moreover have "open_frame toy (demo_box BoxStream) (frame toy (demo_box BoxStream) [1, 2, 3] @ [9])
      = Got [1, 2, 3] 37"
    using open_frame_frame [OF toy_ok, of "[1, 2, 3]"] by (simp add: length_frame [OF toy_ok])
  ultimately show ?thesis
    by (simp add: decrypt_same_size [OF toy_ok] fits_def decrypted_def mem_write_def numeral_3_eq_3)
qed

section \<open>Properties\<close>

lemma encrypt_writes_frame:
  assumes "crypto_ok C" "fits mem (in_data inp) (in_size inp)"
    and "fits mem (out_data out) (out_size out)"
    and "in_size inp \<le> kMaxMessageSize" "encryptedSize b (in_size inp) \<le> out_size out"
  shows "\<exists>mem'. encrypt C b mem inp out = (Inr Success, next_box C b, mem',
             out\<lparr>out_size := encryptedSize b (in_size inp)\<rparr>)
    \<and> mem_read mem' (out_data out) (encryptedSize b (in_size inp))
        = frame C b (mem_read mem (in_data inp) (in_size inp))
    \<and> length mem' = length mem
    \<and> (\<forall>i < length mem. i < out_data out \<or> out_data out + encryptedSize b (in_size inp) \<le> i
         \<longrightarrow> mem' ! i = mem ! i)"
proof -
  let ?f = "frame C b (mem_read mem (in_data inp) (in_size inp))"
  have n: "in_size inp \<le> 0xFFFF" using assms(4) by (simp add: kMaxMessageSize_def)
  then have e: "encryptedSize b (in_size inp) = overhead b + in_size inp" by (rule encryptedSize_eq)
  have l: "length ?f = overhead b + in_size inp"
    using assms(1,2) by (simp add: length_frame fits_def)
  show ?thesis
    using encrypt_eq [OF assms(1-3) n] assms(3,5) e l
    by (auto simp: mem_read_write_same fits_def mem_write_outside)
qed

text \<open>
  C36: what \<open>encrypt\<close> does, in every case. A message of more than 65535 bytes makes it throw
  \<open>invalid_argument\<close>, and a buffer smaller than the encrypted size makes it return \<open>OutTooSmall\<close>; in
  both cases the nonce, memory and the output buffer's size are as before. Otherwise it succeeds,
  sets the output size to the encrypted size, leaves exactly the protocol's frame for the message
  in the output buffer, advances the nonce, and changes no other byte of memory. The input and
  the output may overlap in any way: the frame is that of the message as it was before the call.
\<close>

theorem encrypt_outcome:
  assumes "crypto_ok C" "fits mem (in_data inp) (in_size inp)"
    and "fits mem (out_data out) (out_size out)"
  shows "if kMaxMessageSize < in_size inp then encrypt C b mem inp out = (Inl InvalidArgument, b, mem, out)
    else if out_size out < encryptedSize b (in_size inp)
    then encrypt C b mem inp out = (Inr OutTooSmall, b, mem, out)
    else \<exists>mem'. encrypt C b mem inp out = (Inr Success, next_box C b, mem',
             out\<lparr>out_size := encryptedSize b (in_size inp)\<rparr>)
    \<and> mem_read mem' (out_data out) (encryptedSize b (in_size inp))
        = frame C b (mem_read mem (in_data inp) (in_size inp))
    \<and> length mem' = length mem
    \<and> (\<forall>i < length mem. i < out_data out \<or> out_data out + encryptedSize b (in_size inp) \<le> i
         \<longrightarrow> mem' ! i = mem ! i)"
  using encrypt_writes_frame [OF assms, of b]
  by (auto simp: encrypt_def Let_def kMaxMessageSize_def)

theorem encrypt_outcome_witness:
  "(\<exists>mem'. encrypt toy (demo_box BoxStream) (replicate 60 4)
       \<lparr>in_data = 0, in_size = 3\<rparr> \<lparr>out_data = 1, out_size = 50\<rparr>
     = (Inr Success, next_box toy (demo_box BoxStream), mem', \<lparr>out_data = 1, out_size = 37\<rparr>)
   \<and> mem_read mem' 1 37 = frame toy (demo_box BoxStream) [4, 4, 4] \<and> mem' ! 59 = 4)
   \<and> encrypt toy (demo_box BoxStream) (replicate 60 4)
       \<lparr>in_data = 0, in_size = 3\<rparr> \<lparr>out_data = 1, out_size = 36\<rparr>
     = (Inr OutTooSmall, demo_box BoxStream, replicate 60 4, \<lparr>out_data = 1, out_size = 36\<rparr>)"
  using encrypt_outcome [OF toy_ok, of "replicate 60 4" "\<lparr>in_data = 0, in_size = 3\<rparr>"
      "\<lparr>out_data = 1, out_size = 50\<rparr>" "demo_box BoxStream"]
    encrypt_outcome [OF toy_ok, of "replicate 60 4" "\<lparr>in_data = 0, in_size = 3\<rparr>"
      "\<lparr>out_data = 1, out_size = 36\<rparr>" "demo_box BoxStream"]
  by (auto simp: fits_def encryptedSize_eq kMaxMessageSize_def mem_read_def numeral_3_eq_3)

text \<open>
  C9: a message that \<open>encrypt\<close> wrote decrypts at the receiver. If the receiver's box is in the
  sender's state and its input begins with the bytes that were produced, whatever follows them,
  then \<open>decrypt\<close> into a buffer with room for the message succeeds, leaves the message there,
  consumes exactly the encrypted message, and brings the box to the sender's new state. On
  either side the buffers may overlap.
\<close>

theorem decrypt_encrypt:
  assumes "crypto_ok C" "fits mem (in_data inp) (in_size inp)"
    and "fits mem (out_data out) (out_size out)"
    and "encrypt C b mem inp out = (Inr Success, b', mem', out')"
    and "fits rmem (in_data rinp) (in_size rinp)" "fits rmem (out_data rout) (out_size rout)"
    and "prefix (mem_read mem' (out_data out') (out_size out'))
           (mem_read rmem (in_data rinp) (in_size rinp))"
    and "in_size inp \<le> out_size rout"
  shows "\<exists>rmem'. decrypt C b rmem rinp rout = (Success, b', rmem',
      \<lparr>in_data = in_data rinp + out_size out', in_size = in_size rinp - out_size out'\<rparr>,
      rout\<lparr>out_size := in_size inp\<rparr>)
    \<and> mem_read rmem' (out_data rout) (in_size inp) = mem_read mem (in_data inp) (in_size inp)"
proof -
  note enc = encrypt_success [OF assms(1-4)]
  let ?m = "mem_read mem (in_data inp) (in_size inp)"
  have len: "length ?m = in_size inp" using assms(2) by (simp add: fits_def)
  obtain rest where "mem_read rmem (in_data rinp) (in_size rinp) = frame C b ?m @ rest"
    using assms(7) enc(6) by (auto simp: prefix_def)
  then have g: "open_frame C b (mem_read rmem (in_data rinp) (in_size rinp)) = Got ?m (out_size out')"
    using open_frame_frame [OF assms(1), of ?m b rest] enc(1,5) len assms(1)
    by (simp add: length_frame)
  have "pk_decryptedSize (peek C b rmem rinp) \<le> out_size rout"
    using peek_announces [OF assms(1,5) g] len assms(8) by simp
  then show ?thesis
    using decrypt_eq [OF assms(1,5)] g enc(3) len assms(6,8)
    by (auto simp: decrypted_def fits_def mem_read_write_same)
qed

theorem decrypt_encrypt_witness:
  "\<exists>b' mem' rmem'. encrypt toy (demo_box Compact) ([1, 2, 3] @ replicate 40 0)
       \<lparr>in_data = 0, in_size = 3\<rparr> \<lparr>out_data = 3, out_size = 40\<rparr>
     = (Inr Success, b', mem', \<lparr>out_data = 3, out_size = 21\<rparr>)
   \<and> decrypt toy (demo_box Compact) mem' \<lparr>in_data = 3, in_size = 40\<rparr> \<lparr>out_data = 3, out_size = 40\<rparr>
     = (Success, b', rmem', \<lparr>in_data = 24, in_size = 19\<rparr>, \<lparr>out_data = 3, out_size = 3\<rparr>)
   \<and> mem_read rmem' 3 3 = [1, 2, 3]"
proof -
  let ?mem = "[1, 2, 3] @ replicate 40 0" and ?inp = "\<lparr>in_data = 0, in_size = 3\<rparr>"
    and ?out = "\<lparr>out_data = 3, out_size = 40\<rparr>"
  obtain mem' where e: "encrypt toy (demo_box Compact) ?mem ?inp ?out
      = (Inr Success, next_box toy (demo_box Compact), mem', \<lparr>out_data = 3, out_size = 21\<rparr>)"
    "length mem' = 43"
    using encrypt_eq [OF toy_ok, of ?mem ?inp ?out "demo_box Compact"] by (simp add: fits_def)
  have "prefix (mem_read mem' 3 21) (mem_read mem' 3 40)"
    using take_is_prefix [of 21 "mem_read mem' 3 40"] by (simp add: mem_read_def)
  then show ?thesis
    using decrypt_encrypt [OF toy_ok _ _ e(1), of mem' "\<lparr>in_data = 3, in_size = 40\<rparr>" ?out] e
    by (auto simp: fits_def mem_read_def)
qed

lemma decrypt_incomplete:
  assumes "crypto_ok C" "length m \<le> kMaxMessageSize" "fits mem (in_data inp) (in_size inp)"
    and "strict_prefix (mem_read mem (in_data inp) (in_size inp)) (frame C b m)"
  shows "decrypt C b mem inp out = (IncompleteInput, b, mem, inp, out)"
proof (cases "pk_decryptedSize (peek C b mem inp) \<le> out_size out")
  case True
  have "open_frame C b (mem_read mem (in_data inp) (in_size inp)) = More"
    using open_frame_prefix assms by (simp add: kMaxMessageSize_def)
  then show ?thesis using decrypt_eq [OF assms(1,3) True] by (simp add: decrypted_def)
next
  case False
  have more: "open_frame C b (mem_read mem (in_data inp) (in_size inp)) = More"
    using open_frame_prefix assms by (simp add: kMaxMessageSize_def)
  let ?inf = "out\<lparr>out_size := pk_decryptedSize (peek C b mem inp)\<rparr>"
  have "decrypt C b mem inp ?inf = (IncompleteInput, b, mem, inp, ?inf)"
    using decrypt_eq [OF assms(1,3), of b ?inf] more by (simp add: decrypted_def)
  then have "in_size inp < pk_encryptedSize (peek C b mem inp)"
    using False assms(1,3)
    by (cases b rule: protocol_cases)
      (auto simp: decrypt_def peek_boxstream peek_compact decryptBoxStreamHeader_eq Let_def
        split: if_splits option.splits)
  then show ?thesis using decrypt_too_small [OF assms(1,3) False] by simp
qed

text \<open>
  C10: \<open>decrypt\<close> accepts only genuine messages. When it succeeds, with the BoxStream protocol or
  with a message that is not empty, the bytes it consumed are exactly the frame that a sender in
  the same state makes of the message it delivered, and the nonce has advanced past it.
\<close>

theorem decrypt_authentic:
  assumes "crypto_ok C" "fits mem (in_data inp) (in_size inp)"
    and "fits mem (out_data out) (out_size out)"
    and "decrypt C b mem inp out = (Success, b', mem', inp', out')"
    and "cb_protocol b = BoxStream \<or> out_size out' \<noteq> 0"
  shows "mem_read mem (in_data inp) (in_data inp' - in_data inp)
           = frame C b (mem_read mem' (out_data out') (out_size out'))
    \<and> in_data inp' + in_size inp' = in_data inp + in_size inp \<and> b' = next_box C b"
proof -
  from decrypt_success [OF assms(1,2,4)] obtain m n where
    g: "open_frame C b (mem_read mem (in_data inp) (in_size inp)) = Got m n" and
    d: "b' = next_box C b" "mem' = mem_write mem (out_data out) m"
      "inp' = \<lparr>in_data = in_data inp + n, in_size = in_size inp - n\<rparr>"
      "out' = out\<lparr>out_size := length m\<rparr>" "length m \<le> out_size out" "n \<le> in_size inp" .
  have "take n (mem_read mem (in_data inp) (in_size inp)) = frame C b m"
    using open_frame_sound [OF assms(1) g] assms(5) d(4) by auto
  then have "mem_read mem (in_data inp) n = frame C b m"
    using mem_read_within [of 0 n "in_size inp" mem "in_data inp"] d(6) by simp
  moreover have "mem_read mem' (out_data out') (out_size out') = m"
    using d(2,4,5) assms(3) by (simp add: mem_read_write_same fits_def)
  ultimately show ?thesis using d by simp
qed

theorem decrypt_authentic_witness:
  "mem_read demo_message 0 37
     = frame toy (demo_box BoxStream) (mem_read ([1, 2, 3] @ drop 3 demo_message) 0 3)"
  using decrypt_authentic [OF toy_ok _ _ demo_decrypts] by (simp add: fits_def demo_box_def)

text \<open>
  C37: \<open>decrypt\<close> stays within its buffers, whatever the input holds. The memory keeps its size and no
  byte outside the output buffer changes; the output size never grows; what is consumed is an
  initial part of the input. A call that does not return \<open>Success\<close> consumes nothing and changes
  nothing at all. And it reads nothing but the input: in another memory with the same input, at
  the same place, it has the same result and writes the same output.
\<close>

theorem decrypt_in_bounds:
  assumes "crypto_ok C" "fits mem (in_data inp) (in_size inp)" "fits mem (out_data out) (out_size out)"
    and "decrypt C b mem inp out = (st, b', mem', inp', out')"
  shows "length mem' = length mem
    \<and> (\<forall>i < length mem. i < out_data out \<or> out_data out + out_size out' \<le> i \<longrightarrow> mem' ! i = mem ! i)
    \<and> out_data out' = out_data out \<and> out_size out' \<le> out_size out
    \<and> in_data inp \<le> in_data inp' \<and> in_data inp' + in_size inp' = in_data inp + in_size inp
    \<and> (st \<noteq> Success \<longrightarrow> b' = b \<and> mem' = mem \<and> inp' = inp \<and> out' = out)
    \<and> (\<forall>mem2. length mem2 = length mem
         \<and> mem_read mem2 (in_data inp) (in_size inp) = mem_read mem (in_data inp) (in_size inp) \<longrightarrow>
         (\<exists>mem2'. decrypt C b mem2 inp out = (st, b', mem2', inp', out')
            \<and> (st = Success \<longrightarrow> mem_read mem2' (out_data out') (out_size out')
                 = mem_read mem' (out_data out') (out_size out'))))"
proof (cases "st = Success")
  case True
  with assms(4) have "decrypt C b mem inp out = (Success, b', mem', inp', out')" by simp
  from decrypt_success [OF assms(1,2) this] obtain m n where
    g: "open_frame C b (mem_read mem (in_data inp) (in_size inp)) = Got m n" and
    d: "b' = next_box C b" "mem' = mem_write mem (out_data out) m"
      "inp' = \<lparr>in_data = in_data inp + n, in_size = in_size inp - n\<rparr>"
      "out' = out\<lparr>out_size := length m\<rparr>" "length m \<le> out_size out" "n \<le> in_size inp" .
  have other: "decrypt C b mem2 inp out = (st, b', mem_write mem2 (out_data out) m, inp', out')"
    "mem_read (mem_write mem2 (out_data out) m) (out_data out') (out_size out') = m"
    if "length mem2 = length mem"
      "mem_read mem2 (in_data inp) (in_size inp) = mem_read mem (in_data inp) (in_size inp)" for mem2
    using decrypt_success_other [OF assms(1), of mem2 inp b m n out] that g d True assms(2,3)
    by (simp_all add: fits_def mem_read_write_same)
  have "\<forall>i < length mem. i < out_data out \<or> out_data out + out_size out' \<le> i \<longrightarrow> mem' ! i = mem ! i"
    using d(2,4) by (simp add: mem_write_outside)
  moreover have "\<exists>mem2'. decrypt C b mem2 inp out = (st, b', mem2', inp', out')
      \<and> mem_read mem2' (out_data out') (out_size out') = mem_read mem' (out_data out') (out_size out')"
    if "length mem2 = length mem"
      "mem_read mem2 (in_data inp) (in_size inp) = mem_read mem (in_data inp) (in_size inp)" for mem2
    using other [OF that] other(2) [OF refl refl] d(2) by simp
  moreover have "length mem' = length mem" "out_data out' = out_data out" "out_size out' \<le> out_size out"
    "in_data inp \<le> in_data inp'" "in_data inp' + in_size inp' = in_data inp + in_size inp"
    using d by simp_all
  ultimately show ?thesis using True by blast
next
  case False
  then show ?thesis
    using decrypt_fails_unchanged [OF assms(1,2,4)] decrypt_fails_other [OF assms(1,2,4)] assms(2)
    by (auto simp: fits_def)
qed

theorem decrypt_in_bounds_witness:
  "decrypt toy (demo_box BoxStream) demo_corrupt \<lparr>in_data = 0, in_size = 40\<rparr>
     \<lparr>out_data = 0, out_size = 40\<rparr>
   = (CorruptData, demo_box BoxStream, demo_corrupt, \<lparr>in_data = 0, in_size = 40\<rparr>,
      \<lparr>out_data = 0, out_size = 40\<rparr>)" (is "?d = _")
proof -
  obtain st b' mem' inp' out' where d: "?d = (st, b', mem', inp', out')" by (cases ?d)
  have "fst ?d = CorruptData" by code_simp
  then have st: "st = CorruptData" using d by (simp only: fst_conv)
  then have "st \<noteq> Success" by simp
  moreover have "length demo_corrupt = 40" by (simp add: demo_corrupt_def)
  ultimately show ?thesis
    using decrypt_in_bounds [OF toy_ok _ _ d] d st by (simp add: fits_def)
qed

text \<open>
  C38: sizes do not wrap around. \<open>encryptedSize\<close> is computed in \<open>size_t\<close>; it is the message size and
  the overhead of the protocol, 34 or 18 bytes, for every message but one within that distance of
  \<open>2\<close> to the power of 64, for which it wraps to less than the message; in particular it is
  exact for every message that may be encrypted, up to 65535 bytes. Whatever bytes a peer sends,
  \<open>peek\<close> never announces a message of more than 65535 bytes, nor an encrypted size other than the one
  that belongs to it.
\<close>

theorem box_sizes_bounded:
  assumes "crypto_ok C" "fits mem (in_data inp) (in_size inp)" "n < size_max"
  shows "(encryptedSize b n = n + overhead b \<longleftrightarrow> n + overhead b < size_max)
    \<and> (encryptedSize b n < n \<longleftrightarrow> size_max \<le> n + overhead b)
    \<and> (n \<le> kMaxMessageSize \<longrightarrow> encryptedSize b n = n + overhead b)
    \<and> overhead b = (if cb_protocol b = BoxStream then 34 else 18)
    \<and> pk_decryptedSize (peek C b mem inp) \<le> kMaxMessageSize
    \<and> pk_encryptedSize (peek C b mem inp) \<le> kMaxMessageSize + overhead b
    \<and> (pk_status (peek C b mem inp) = Success \<longrightarrow>
         pk_encryptedSize (peek C b mem inp) = encryptedSize b (pk_decryptedSize (peek C b mem inp)))"
proof -
  have "size_max \<le> n + overhead b \<or> n + overhead b < size_max" by linarith
  then have "(encryptedSize b n = n + overhead b \<longleftrightarrow> n + overhead b < size_max)
    \<and> (encryptedSize b n < n \<longleftrightarrow> size_max \<le> n + overhead b)"
    using encryptedSize_wraps [OF assms(3), of b] by auto
  then show ?thesis
    using peek_bounds [OF assms(1,2), of b] encryptedSize_eq [of _ b]
    by (auto simp: overhead_def kMaxMessageSize_def)
qed

theorem box_sizes_bounded_witness:
  "encryptedSize (demo_box BoxStream) (2 ^ 64 - 1) < 2 ^ 64 - 1
   \<and> pk_decryptedSize (peek toy (demo_box Compact) [255, 255] \<lparr>in_data = 0, in_size = 2\<rparr>) \<le> 65535"
  using box_sizes_bounded [OF toy_ok, of "[255, 255]" "\<lparr>in_data = 0, in_size = 2\<rparr>" "2 ^ 64 - 1" "demo_box BoxStream"]
    box_sizes_bounded [OF toy_ok, of "[255, 255]" "\<lparr>in_data = 0, in_size = 2\<rparr>" 0 "demo_box Compact"]
  by (simp add: fits_def size_max_def kMaxMessageSize_def)

text \<open>
  With the compact protocol an empty message is accepted without authentication. Any input
  that begins with two zero bytes followed by 16 arbitrary bytes makes \<open>decrypt\<close> return \<open>Success\<close>
  with an empty message and advances the nonce, because the empty result of the failed \<open>unbox\<close>
  has the expected size.
\<close>

lemma forged_empty_accepted:
  assumes "crypto_ok C" "cb_protocol b = Compact" "fits mem (in_data inp) (in_size inp)"
    and "18 \<le> in_size inp" "mem_read mem (in_data inp) 2 = [0, 0]"
  shows "decrypt C b mem inp out = (Success, next_box C b, mem,
           \<lparr>in_data = in_data inp + 18, in_size = in_size inp - 18\<rparr>, out\<lparr>out_size := 0\<rparr>)"
proof -
  let ?bs = "mem_read mem (in_data inp) (in_size inp)"
  have "take 2 ?bs = [0, 0]" using assms(4,5) by (simp add: mem_read_def)
  moreover have "readUint16At (take 2 ?bs) = readUint16At ?bs" by (rule readUint16At_take) simp
  ultimately have z: "readUint16At ?bs = 0" by (simp add: readUint16At_eq)
  have len: "length ?bs = in_size inp" using assms(3) by (simp add: fits_def)
  have "length m = 0" if "unbox (xchacha C) (cb_key b) (cb_nonce b) (take 16 (drop 2 ?bs)) = Some m"
    for m using unbox_length [OF xchacha_ok [OF assms(1)] that] len assms(4) by simp
  then have g: "open_frame C b ?bs = Got [] 18"
    using assms(2,4) z len by (auto simp: open_frame_def split: option.splits)
  show ?thesis
    using decrypt_eq [OF assms(1,3), of b out] peek_announces [OF assms(1,3) g] g
    by (simp add: decrypted_def)
qed

lemma forged_empty_example:
  "decrypt toy (demo_box Compact) (0 # 0 # replicate 16 9) \<lparr>in_data = 0, in_size = 18\<rparr>
     \<lparr>out_data = 0, out_size = 0\<rparr>
   = (Success, next_box toy (demo_box Compact), 0 # 0 # replicate 16 9,
      \<lparr>in_data = 18, in_size = 0\<rparr>, \<lparr>out_data = 0, out_size = 0\<rparr>)"
  using forged_empty_accepted [OF toy_ok, of "demo_box Compact" "0 # 0 # replicate 16 9"
      "\<lparr>in_data = 0, in_size = 18\<rparr>" "\<lparr>out_data = 0, out_size = 0\<rparr>"]
  by (simp add: demo_box_def fits_def mem_read_def numeral_2_eq_2)

text \<open>Too short an input: the length that is needed is in \<open>encryptedSize\<close>.\<close>

lemma peek_incomplete:
  "in_size inp < minPeekSize b \<Longrightarrow> peek C b mem inp
     = \<lparr>pk_status = IncompleteInput, pk_decryptedSize = 0, pk_encryptedSize = minPeekSize b\<rparr>"
  by (simp add: peek_def minPeekSize_def decryptBoxStreamHeader_def Let_def split: if_splits)

lemma peek_incomplete_iff:
  assumes "crypto_ok C" "fits mem (in_data inp) (in_size inp)"
  shows "pk_status (peek C b mem inp) = IncompleteInput \<longleftrightarrow> in_size inp < minPeekSize b"
  using assms
  by (cases b rule: protocol_cases)
    (auto simp: peek_boxstream peek_compact decryptBoxStreamHeader_eq minPeekSize_def box_sizes
      Let_def split: option.splits)

lemma decrypt_as_peeked:
  assumes "crypto_ok C" "fits mem (in_data inp) (in_size inp)"
    and "decrypt C b mem inp out = (Success, b', mem', inp', out')"
  shows "getDecryptedSize C b mem inp = (Success, out_size out')
    \<and> in_data inp' = in_data inp + pk_encryptedSize (peek C b mem inp)
    \<and> in_size inp = in_size inp' + pk_encryptedSize (peek C b mem inp)"
proof -
  obtain m n where
    g: "open_frame C b (mem_read mem (in_data inp) (in_size inp)) = Got m n" and
    d: "inp' = \<lparr>in_data = in_data inp + n, in_size = in_size inp - n\<rparr>"
      "out' = out\<lparr>out_size := length m\<rparr>" "n \<le> in_size inp"
    using decrypt_success [OF assms] .
  then show ?thesis using peek_announces [OF assms(1,2) g] by (simp add: getDecryptedSize_def)
qed

text \<open>
  C39: a receiver can wait for the rest of a message without losing anything, and knows how much
  to wait for. Input that holds only part of an encrypted message, however little is missing,
  makes \<open>decrypt\<close> return \<open>IncompleteInput\<close> with the nonce, the memory, the input and the output as
  before, so that the call can be repeated when more has arrived. \<open>peek\<close> reports \<open>IncompleteInput\<close>
  exactly when there are fewer bytes than \<open>minPeekSize\<close>, and whenever \<open>decrypt\<close> succeeds, \<open>peek\<close> (and
  \<open>getDecryptedSize\<close>) on the same input have announced the size of the message it delivers and the
  number of bytes it consumes.
\<close>

theorem peek_predicts_decrypt:
  assumes "crypto_ok C" "fits mem (in_data inp) (in_size inp)"
  shows "(\<forall>m out. length m \<le> kMaxMessageSize
        \<and> strict_prefix (mem_read mem (in_data inp) (in_size inp)) (frame C b m) \<longrightarrow>
         decrypt C b mem inp out = (IncompleteInput, b, mem, inp, out))
    \<and> (pk_status (peek C b mem inp) = IncompleteInput \<longleftrightarrow> in_size inp < minPeekSize b)
    \<and> (\<forall>out b' mem' inp' out'. decrypt C b mem inp out = (Success, b', mem', inp', out') \<longrightarrow>
         getDecryptedSize C b mem inp = (Success, out_size out')
         \<and> in_data inp' = in_data inp + pk_encryptedSize (peek C b mem inp)
         \<and> in_size inp = in_size inp' + pk_encryptedSize (peek C b mem inp))"
  using decrypt_incomplete [OF assms(1) _ assms(2)] peek_incomplete_iff [OF assms]
    decrypt_as_peeked [OF assms]
  by blast

lemma demo_incomplete:
  "strict_prefix (take 36 demo_message) (frame toy (demo_box BoxStream) [1, 2, 3])"
  "length (take 36 demo_message) = 36"
proof -
  let ?f = "frame toy (demo_box BoxStream) [1, 2, 3]"
  have "length ?f = 37" by (simp add: length_frame [OF toy_ok])
  then show "strict_prefix (take 36 demo_message) ?f" "length (take 36 demo_message) = 36"
    by (auto simp: strict_prefix_def take_is_prefix demo_message_def dest!: arg_cong [where f = length])
qed

theorem peek_predicts_decrypt_witness:
  "getDecryptedSize toy (demo_box BoxStream) demo_message \<lparr>in_data = 0, in_size = 38\<rparr> = (Success, 3)
   \<and> decrypt toy (demo_box BoxStream) (take 36 demo_message) \<lparr>in_data = 0, in_size = 36\<rparr>
     \<lparr>out_data = 0, out_size = 0\<rparr>
   = (IncompleteInput, demo_box BoxStream, take 36 demo_message, \<lparr>in_data = 0, in_size = 36\<rparr>,
      \<lparr>out_data = 0, out_size = 0\<rparr>)"
proof
  show "getDecryptedSize toy (demo_box BoxStream) demo_message \<lparr>in_data = 0, in_size = 38\<rparr> = (Success, 3)"
    using peek_predicts_decrypt [OF toy_ok, of demo_message "\<lparr>in_data = 0, in_size = 38\<rparr>"
        "demo_box BoxStream"] demo_decrypts
    by (fastforce simp: fits_def)
  show "decrypt toy (demo_box BoxStream) (take 36 demo_message) \<lparr>in_data = 0, in_size = 36\<rparr>
     \<lparr>out_data = 0, out_size = 0\<rparr>
   = (IncompleteInput, demo_box BoxStream, take 36 demo_message, \<lparr>in_data = 0, in_size = 36\<rparr>,
      \<lparr>out_data = 0, out_size = 0\<rparr>)"
    using peek_predicts_decrypt [OF toy_ok, of "take 36 demo_message"
        "\<lparr>in_data = 0, in_size = 36\<rparr>" "demo_box BoxStream", THEN conjunct1, THEN spec, of "[1, 2, 3]"]
      demo_incomplete
    by (simp add: kMaxMessageSize_def fits_def mem_read_def)
qed

end
