(* ===== verification/CryptoStream_Safety.thy ===== *)
theory CryptoStream_Safety
  imports CryptoStream CryptoBox_Safety
begin

text \<open>
  The properties of the byte streams. A stream is seen as its processed bytes (\<open>availableData\<close>)
  and its pending bytes. Encryption is a sequence of sealed messages that splits the pushed bytes;
  decryption implements \<open>parses\<close>, so the lemmas of the locales \<open>frame_codec\<close> and \<open>authentic_codec\<close>
  carry over to it.
\<close>

section \<open>The state of a stream\<close>

definition pending :: "CryptoStream \<Rightarrow> bytes" where
  "pending s = drop (cs_processedBytes s) (cs_buffer s)"

definition stream_ok :: "CryptoStream \<Rightarrow> bool" where
  "stream_ok s \<longleftrightarrow> cs_processedBytes s \<le> length (cs_buffer s)"

definition encryption_ok :: "CryptoStream \<Rightarrow> bool" where
  "encryption_ok s \<longleftrightarrow> stream_ok s \<and> length (pending s) \<le> kMaxMessageSize"

definition stream :: "bytes \<Rightarrow> bytes \<Rightarrow> CryptoBox \<Rightarrow> CryptoStream" where
  "stream ready todo b = \<lparr>cs_buffer = ready @ todo, cs_processedBytes = length ready, cs_box = b\<rparr>"

lemma stream_simps [simp]:
  "availableData (stream r t b) = r" "pending (stream r t b) = t" "cs_box (stream r t b) = b"
  "stream_ok (stream r t b)" "cs_buffer (stream r t b) = r @ t"
  "cs_processedBytes (stream r t b) = length r" "bytesAvailable (stream r t b) = length r"
  "encryption_ok (stream r t b) \<longleftrightarrow> length t \<le> 0xFFFF"
  by (simp_all add: stream_def availableData_def pending_def stream_ok_def encryption_ok_def
      bytesAvailable_def kMaxMessageSize_def)

lemma stream_eq_iff [simp]: "stream r t b = stream r' t' b' \<longleftrightarrow> r = r' \<and> t = t' \<and> b = b'"
  by (metis stream_simps(1-3))

lemma stream_view: "stream_ok s \<Longrightarrow> s = stream (availableData s) (pending s) (cs_box s)"
  by (simp add: stream_def availableData_def pending_def stream_ok_def)

lemma stream_cases:
  assumes "stream_ok s"
  obtains r t b where "s = stream r t b"
  using stream_view [OF assms] that by blast

lemma session_streams:
  "EncryptionStream_of_session s p = stream [] [] (EncryptoBox_of_session s p)"
  "DecryptionStream_of_session s p = stream [] [] (DecryptoBox_of_session s p)"
  by (simp_all add: stream_def EncryptionStream_of_session_def DecryptionStream_of_session_def)

lemma skip_stream: "skip (stream r t b) n = (min n (length r), stream (drop n r) t b)"
  by (auto simp: skip_def stream_def min_def Let_def)

lemma pull_stream: "pull (stream r t b) n = (take n r, stream (drop n r) t b)"
  by (auto simp: pull_def skip_stream min_def Let_def)

lemma push_data_stream:
  "(stream r t b)\<lparr>cs_buffer := r @ t @ xs\<rparr> = stream r (t @ xs) b"
  by (simp add: stream_def)

section \<open>Encryption\<close>

definition flushed :: "crypto \<Rightarrow> bytes \<Rightarrow> bytes \<Rightarrow> CryptoBox \<Rightarrow> CryptoStream" where
  "flushed C r t b = (if t = [] then stream r t b else stream (r @ frame C b t) [] (next_box C b))"

lemma flush_stream:
  assumes "crypto_ok C" "length t \<le> 0xFFFF"
  shows "flush C (stream r t b) = (Inr (), flushed C r t b)"
proof (cases "t = []")
  case True
  then show ?thesis by (simp add: flush_def flushed_def size_sub_le)
next
  case False
  let ?n = "overhead b + length t"
  let ?buf = "resize (length r + ?n) (r @ t)"
  let ?inp = "\<lparr>in_data = length r, in_size = length t\<rparr>"
  let ?out = "\<lparr>out_data = length r, out_size = ?n\<rparr>"
  have buf: "?buf = r @ t @ replicate (overhead b) 0" by (simp add: resize_def)
  have read: "mem_read ?buf (length r) (length t) = t" by (simp add: buf mem_read_def)
  have stored: "mem_write ?buf (length r) (frame C b t) = r @ frame C b t"
    using assms(1) by (simp add: mem_write_def buf length_frame)
  have "encrypt C b ?buf ?inp ?out = (Inr Success, next_box C b, r @ frame C b t, ?out)"
    using encrypt_eq [OF assms(1), of ?buf ?inp ?out b] assms(2) read stored by (simp add: fits_def)
  moreover have "resize (length r + ?n) (r @ frame C b t) = r @ frame C b t"
    using assms(1) by (simp add: resize_same length_frame)
  ultimately show ?thesis
    using False assms
    by (simp add: flush_def flushed_def size_sub_le encryptedSize_eq Let_def)
      (simp add: stream_def length_frame)
qed

lemma room_stream: "length t \<le> 0xFFFF \<Longrightarrow> room (stream r t b) = 0xFFFF - length t"
  by (simp add: room_def size_sub_le kMaxMessageSize_def)

text \<open>A list of messages that is a way to cut some bytes into frames.\<close>

definition messages :: "bytes list \<Rightarrow> bool" where
  "messages ms \<longleftrightarrow> list_all (\<lambda>m. m \<noteq> [] \<and> length m \<le> 0xFFFF) ms"

lemma messages_simps [simp]:
  "messages []" "messages (m # ms) \<longleftrightarrow> m \<noteq> [] \<and> length m \<le> 0xFFFF \<and> messages ms"
  "messages (ms @ ns) \<longleftrightarrow> messages ms \<and> messages ns"
  by (simp_all add: messages_def)

lemma messages_limit: "messages ms \<Longrightarrow> list_all (\<lambda>m. length m \<le> 0xFFFF) ms"
  by (auto simp: messages_def list_all_iff)

abbreviation seal_messages :: "crypto \<Rightarrow> CryptoBox \<Rightarrow> bytes list \<Rightarrow> bytes" where
  "seal_messages C \<equiv> seal_all (frame C) (next_box C)"

lemma pushPartial_stream:
  assumes "crypto_ok C"
  shows "length t \<le> 0xFFFF \<Longrightarrow> \<exists>ms t'. pushPartial C (stream r t b) data
      = (Inr (), stream (r @ seal_messages C b ms) t' ((next_box C ^^ length ms) b))
    \<and> messages ms \<and> concat ms @ t' = t @ data \<and> length t' \<le> 0xFFFF"
proof (induction "length data + (0xFFFF - (0xFFFF - length t))" arbitrary: r t b data
    rule: less_induct)
  case less
  let ?k = "min (length data) (room (stream r t b))"
  let ?t = "t @ take ?k data"
  have room: "room (stream r t b) = 0xFFFF - length t" using less.prems by (rule room_stream)
  have t: "length ?t \<le> 0xFFFF" using less.prems by (auto simp: room min_def)
  have step: "pushPartial C (stream r t b) data = (if drop ?k data = [] then (Inr (), stream r ?t b)
      else pushPartial C (flushed C r ?t b) (drop ?k data))"
    using flush_stream [OF assms t, of r b]
    by (subst pushPartial.simps) (auto simp: Let_def push_data_stream)
  show ?case
  proof (cases "drop ?k data = []")
    case True
    then show ?thesis using t step
      by (intro exI [of _ "[]"] exI [of _ ?t]) (simp add: min_def split: if_splits)
  next
    case False
    then have full: "length ?t = 0xFFFF" using less.prems by (auto simp: room min_def split: if_splits)
    then have ne: "?t \<noteq> []" by auto
    have "length (drop ?k data) + 0 < length data + length t"
      using full False by (auto simp: min_def split: if_splits)
    then have "\<exists>ms t'. pushPartial C (stream (r @ frame C b ?t) [] (next_box C b)) (drop ?k data)
      = (Inr (), stream ((r @ frame C b ?t) @ seal_messages C (next_box C b) ms) t'
          ((next_box C ^^ length ms) (next_box C b)))
      \<and> messages ms \<and> concat ms @ t' = [] @ drop ?k data \<and> length t' \<le> 0xFFFF"
      using less.prems by (intro less.hyps) simp_all
    then obtain ms t' where *: "pushPartial C (stream (r @ frame C b ?t) [] (next_box C b)) (drop ?k data)
      = (Inr (), stream ((r @ frame C b ?t) @ seal_messages C (next_box C b) ms) t'
          ((next_box C ^^ length ms) (next_box C b)))"
      "messages ms" "concat ms @ t' = drop ?k data" "length t' \<le> 0xFFFF" by auto
    have "flushed C r ?t b = stream (r @ frame C b ?t) [] (next_box C b)"
      using ne by (simp only: flushed_def if_False)
    then have "pushPartial C (stream r t b) data
      = (Inr (), stream (r @ seal_messages C b (?t # ms)) t' ((next_box C ^^ length (?t # ms)) b))"
      using step False *(1) by (simp only: if_False) (simp add: funpow_swap1)
    moreover have "messages (?t # ms)" "concat (?t # ms) @ t' = t @ data"
      using ne t * by (simp_all del: append_is_Nil_conv)
    ultimately show ?thesis using *(4) by blast
  qed
qed

lemma encryption_push_stream:
  assumes "crypto_ok C" "length t \<le> 0xFFFF"
  shows "\<exists>ms. encryption_push C (stream r t b) data
      = (Inr (), stream (r @ seal_messages C b ms) [] ((next_box C ^^ length ms) b))
    \<and> messages ms \<and> concat ms = t @ data"
proof -
  from pushPartial_stream [OF assms] obtain ms t' where
    p: "pushPartial C (stream r t b) data
      = (Inr (), stream (r @ seal_messages C b ms) t' ((next_box C ^^ length ms) b))"
      "messages ms" "concat ms @ t' = t @ data" "length t' \<le> 0xFFFF" by metis
  show ?thesis
  proof (cases "t' = []")
    case True
    then show ?thesis using p flush_stream [OF assms(1), of "[]"]
      by (intro exI [of _ ms]) (simp add: encryption_push_def flushed_def)
  next
    case False
    then show ?thesis using p flush_stream [OF assms(1), of t']
      by (intro exI [of _ "ms @ [t']"])
        (simp add: encryption_push_def flushed_def seal_all_append)
  qed
qed

section \<open>Decryption\<close>

abbreviation parses_frames :: "crypto \<Rightarrow> CryptoBox \<Rightarrow> bytes \<Rightarrow> bytes \<Rightarrow> CryptoBox \<Rightarrow> bytes
    \<Rightarrow> bool \<Rightarrow> bool" where
  "parses_frames C \<equiv> parses (open_frame C) (next_box C)"

lemma decrypt_loop_step:
  assumes "crypto_ok C"
  shows "decrypt_loop C (stream r t b) = (case open_frame C b t of
      More \<Rightarrow> (Inr True, stream r t b)
    | Bad \<Rightarrow> (Inr False, stream r t b)
    | Got m n \<Rightarrow> decrypt_loop C (stream (r @ m) (drop n t) (next_box C b)))"
proof -
  let ?inp = "\<lparr>in_data = length r, in_size = length t\<rparr>"
  let ?out = "\<lparr>out_data = length r, out_size = length t\<rparr>"
  have f: "fits (r @ t) (in_data ?inp) (in_size ?inp)" by (simp add: fits_def)
  have read: "mem_read (r @ t) (length r) (length t) = t" by (simp add: mem_read_def)
  have d: "decrypt C b (r @ t) ?inp ?out = decrypted C b (r @ t) ?inp ?out (open_frame C b t)"
    using decrypt_same_size [OF assms f, of ?out b] read by simp
  show ?thesis
  proof (cases "open_frame C b t")
    case (Got m n)
    have n: "length m < n" "n \<le> length t"
      using box_codec.unseal_Got [of C b t m n] Got assms by (simp_all add: codec_ok_def)
    then have "take (length r + length m) (mem_write (r @ t) (length r) m)
        @ drop (length r + n) (mem_write (r @ t) (length r) m) = r @ m @ drop n t"
      by (simp add: mem_write_split)
    then show ?thesis using d Got n
      by (subst decrypt_loop.simps) (simp add: decrypted_def size_sub_le Let_def stream_def)
  qed (use d in \<open>subst decrypt_loop.simps, simp add: decrypted_def size_sub_le stream_def\<close>)+
qed

lemma decrypt_loop_parses:
  assumes "crypto_ok C" "parses_frames C b t p b' t' g"
  shows "decrypt_loop C (stream r t b) = (Inr g, stream (r @ p) t' b')"
  using assms(2)
proof (induction arbitrary: r rule: parses.induct)
  case (take_one s bs m n p s' rest g)
  then show ?case using decrypt_loop_step [OF assms(1), of r bs s] by simp
qed (simp_all add: decrypt_loop_step [OF assms(1)])



lemma parses_frames_total: "crypto_ok C \<Longrightarrow> \<exists>p b' t' g. parses_frames C b t p b' t' g"
  by (rule box_codec.parses_total) (simp add: codec_ok_def)

lemma decryption_push_parses:
  assumes "crypto_ok C" "parses_frames C b (t @ xs) p b' t' g"
  shows "decryption_push C (stream r t b) xs = (Inr g, stream (r @ p) t' b')"
  using decrypt_loop_parses [OF assms] by (simp add: decryption_push_def push_data_stream)

lemma decryption_push_cases:
  assumes "crypto_ok C" "stream_ok s"
  obtains p b' t' g where "parses_frames C (cs_box s) (pending s @ xs) p b' t' g"
    "decryption_push C s xs = (Inr g, stream (availableData s @ p) t' b')"
proof -
  obtain p b' t' g where "parses_frames C (cs_box s) (pending s @ xs) p b' t' g"
    using parses_frames_total [OF assms(1)] by blast
  then show ?thesis
    using that decryption_push_parses [OF assms(1)] stream_view [OF assms(2)] by metis
qed

lemma parses_frames_bad:
  assumes "crypto_ok C"
  shows "parses_frames C b bs p b' rest False \<Longrightarrow> parses_frames C b (bs @ xs) p b' (rest @ xs) False"
proof (induction b bs p b' rest False rule: parses.induct)
  case (take_one s bs m n p s' rest)
  then show ?case
    using parses.take_one [of "open_frame C" s "bs @ xs" m n] open_frame_extend [of C s bs xs]
      open_frame_Got(2) [OF assms, of s bs m n]
    by simp
qed (auto intro: parses.give_up simp: open_frame_extend)

lemma parses_frames_bad_again:
  "parses_frames C b bs p b' rest False \<Longrightarrow> parses_frames C b' rest [] b' rest False"
  by (induction b bs p b' rest False rule: parses.induct) (auto intro: parses.give_up)

lemma decryption_push_split:
  assumes "crypto_ok C" "stream_ok s"
  shows "decryption_push C s (xs @ ys)
    = ebind (decryption_push C s xs) (\<lambda>_ s'. decryption_push C s' ys) (\<lambda>s'. s')"
proof -
  from decryption_push_cases [OF assms] obtain p b' t' g where
    1: "parses_frames C (cs_box s) (pending s @ xs) p b' t' g"
      "decryption_push C s xs = (Inr g, stream (availableData s @ p) t' b')" .
  have s: "s = stream (availableData s) (pending s) (cs_box s)" by (rule stream_view [OF assms(2)])
  obtain q b2 t2 g2 where q: "parses_frames C b' (t' @ ys) q b2 t2 g2"
    using parses_frames_total [OF assms(1)] by blast
  then have 2: "decryption_push C (stream (availableData s @ p) t' b') ys
      = (Inr g2, stream (availableData s @ p @ q) t2 b2)"
    using decryption_push_parses [OF assms(1) q] by simp
  have "parses_frames C (cs_box s) (pending s @ (xs @ ys)) (p @ q) b2 t2 g2"
  proof (cases g)
    case True
    then have "parses_frames C (cs_box s) (pending s @ xs) p b' t' True" using 1(1) by simp
    moreover have "codec_ok C (cs_box s)" using assms(1) by (simp add: codec_ok_def)
    ultimately show ?thesis using box_codec.parses_append [OF _ q] by fastforce
  next
    case False
    then have "parses_frames C (cs_box s) (pending s @ xs) p b' t' False" using 1(1) by simp
    then have "parses_frames C b' (t' @ ys) [] b' (t' @ ys) False"
      by (intro parses_frames_bad [OF assms(1)] parses_frames_bad_again)
    with q have "q = [] \<and> b2 = b' \<and> t2 = t' @ ys \<and> g2 = False" by (metis parses_det)
    then show ?thesis using parses_frames_bad [OF assms(1), of "cs_box s" "pending s @ xs" p b' t' ys]
        1(1) False by simp
  qed
  then have "decryption_push C s (xs @ ys) = (Inr g2, stream (availableData s @ p @ q) t2 b2)"
    using decryption_push_parses [OF assms(1)] s by metis
  then show ?thesis using 1(2) 2 by simp
qed

section \<open>Example values\<close>

definition demo_session :: Session where
  "demo_session = \<lparr>encryptionKey = [1, 2], encryptionNonce = [3], decryptionKey = [1, 2],
     decryptionNonce = [3], peerPublicKey = []\<rparr>"

section \<open>Properties\<close>

lemma encryption_push_seals:
  assumes "crypto_ok C" "encryption_ok s"
  shows "\<exists>ms s'. encryption_push C s data = (Inr (), s')
    \<and> availableData s' = availableData s @ seal_all (frame C) (next_box C) (cs_box s) ms
    \<and> messages ms \<and> concat ms = pending s @ data \<and> pending s' = []
    \<and> cs_box s' = (next_box C ^^ length ms) (cs_box s) \<and> encryption_ok s'"
proof -
  have t: "length (pending s) \<le> 0xFFFF" "s = stream (availableData s) (pending s) (cs_box s)"
    using assms(2) stream_view by (auto simp: encryption_ok_def kMaxMessageSize_def)
  from encryption_push_stream [OF assms(1) t(1), of "availableData s" "cs_box s" data] t(2)
  obtain ms where "encryption_push C s data
      = (Inr (), stream (availableData s @ seal_messages C (cs_box s) ms) []
          ((next_box C ^^ length ms) (cs_box s)))" "messages ms" "concat ms = pending s @ data"
    by metis
  then show ?thesis by (intro exI [of _ ms]) simp
qed

lemma partial_push_and_flush:
  assumes "crypto_ok C" "encryption_ok s"
  shows "(\<exists>ms s'. pushPartial C s data = (Inr (), s') \<and> encryption_ok s'
      \<and> availableData s' = availableData s @ seal_all (frame C) (next_box C) (cs_box s) ms
      \<and> concat ms @ pending s' = pending s @ data)
    \<and> (\<exists>s'. flush C s = (Inr (), s') \<and> encryption_ok s' \<and> pending s' = []
      \<and> availableData s' = availableData s
          @ (if pending s = [] then [] else frame C (cs_box s) (pending s)))"
proof -
  have t: "length (pending s) \<le> 0xFFFF" "s = stream (availableData s) (pending s) (cs_box s)"
    using assms(2) stream_view by (auto simp: encryption_ok_def kMaxMessageSize_def)
  from pushPartial_stream [OF assms(1) t(1), of "availableData s" "cs_box s" data] t(2)
  have "\<exists>ms t'. pushPartial C s data = (Inr (), stream (availableData s @ seal_messages C (cs_box s) ms)
      t' ((next_box C ^^ length ms) (cs_box s))) \<and> concat ms @ t' = pending s @ data
      \<and> length t' \<le> 0xFFFF"
    by metis
  moreover have "flush C s = (Inr (), flushed C (availableData s) (pending s) (cs_box s))"
    using flush_stream [OF assms(1) t(1)] t(2) by metis
  ultimately show ?thesis by (auto simp: flushed_def)
qed

text \<open>
  C12: pushing data into an \<open>EncryptionStream\<close> always succeeds and cuts it into messages. Whatever
  was still unencrypted and the new data appear at the end of the output as consecutive frames,
  under consecutive nonces, of messages that are not empty, at most 65535 bytes long, and whose
  concatenation is exactly that data. Nothing stays behind unencrypted. In particular the
  encryption in place inside the stream's buffer destroys nothing. \<open>pushPartial\<close> and \<open>flush\<close> never
  throw either, never trip the assertion in \<open>flush\<close>, and keep the stream's invariant that at most
  65535 bytes are waiting; \<open>pushPartial\<close> loses nothing, it only moves whole messages to the
  output, and \<open>flush\<close> leaves nothing waiting.
\<close>

theorem encryption_stream_seals:
  assumes "crypto_ok C" "encryption_ok s"
  shows "(\<exists>ms s'. encryption_push C s data = (Inr (), s')
      \<and> availableData s' = availableData s @ seal_all (frame C) (next_box C) (cs_box s) ms
      \<and> messages ms \<and> concat ms = pending s @ data \<and> pending s' = []
      \<and> cs_box s' = (next_box C ^^ length ms) (cs_box s) \<and> encryption_ok s')
    \<and> (\<exists>ms s'. pushPartial C s data = (Inr (), s') \<and> encryption_ok s'
      \<and> availableData s' = availableData s @ seal_all (frame C) (next_box C) (cs_box s) ms
      \<and> concat ms @ pending s' = pending s @ data)
    \<and> (\<exists>s'. flush C s = (Inr (), s') \<and> encryption_ok s' \<and> pending s' = []
      \<and> availableData s' = availableData s
          @ (if pending s = [] then [] else frame C (cs_box s) (pending s)))"
  using encryption_push_seals [OF assms] partial_push_and_flush [OF assms] by (rule conjI)

theorem encryption_stream_seals_witness:
  "(\<exists>ms s'. encryption_push toy (stream [8] [1, 2] (demo_box Compact)) [3] = (Inr (), s')
     \<and> pending s' = [] \<and> concat ms = [1, 2, 3]
     \<and> availableData s' = [8] @ seal_messages toy (demo_box Compact) ms)
   \<and> (\<exists>s'. flush toy (stream [8] [1, 2] (demo_box Compact)) = (Inr (), s')
     \<and> availableData s' = 8 # frame toy (demo_box Compact) [1, 2])"
proof -
  have "encryption_ok (stream [8] [1, 2] (demo_box Compact))" by simp
  note seals = encryption_stream_seals [OF toy_ok this, of "[3]"]
  from seals [THEN conjunct1]
  have "\<exists>ms s'. encryption_push toy (stream [8] [1, 2] (demo_box Compact)) [3] = (Inr (), s')
      \<and> pending s' = [] \<and> concat ms = [1, 2, 3]
      \<and> availableData s' = [8] @ seal_messages toy (demo_box Compact) ms"
    by (elim exE conjE) (intro exI conjI, assumption, simp_all)
  moreover from seals [THEN conjunct2, THEN conjunct2]
  have "\<exists>s'. flush toy (stream [8] [1, 2] (demo_box Compact)) = (Inr (), s')
      \<and> availableData s' = 8 # frame toy (demo_box Compact) [1, 2]"
    by (elim exE conjE) (intro exI conjI, assumption, simp_all)
  ultimately show ?thesis by (rule conjI)
qed

text \<open>
  C13: how the network cuts the ciphertext does not matter. Pushing two pieces into a
  \<open>DecryptionStream\<close> one after the other gives the same result and the same state as pushing them
  at once, and once a push has reported corrupt data all later ones do.
\<close>

theorem decryption_push_append:
  assumes "crypto_ok C" "stream_ok s"
  shows "decryption_push C s (xs @ ys)
    = ebind (decryption_push C s xs) (\<lambda>_ s'. decryption_push C s' ys) (\<lambda>s'. s')"
  using assms by (rule decryption_push_split)

theorem decryption_push_append_witness:
  "decryption_push toy (DecryptionStream_of_session demo_session BoxStream) (take 5 demo_message @ drop 5 demo_message)
    = ebind (decryption_push toy (DecryptionStream_of_session demo_session BoxStream) (take 5 demo_message))
        (\<lambda>_ s'. decryption_push toy s' (drop 5 demo_message)) (\<lambda>s'. s')"
  by (rule decryption_push_append [OF toy_ok]) (simp add: session_streams)



text \<open>
  C15: \<open>close\<close> detects truncation. If the bytes pushed into a new \<open>DecryptionStream\<close> are some initial
  part of what the sender produced, the push succeeds, and \<open>close\<close> then reports a clean end if and
  only if that part ends between two messages.
\<close>

theorem close_detects_truncation:
  assumes "crypto_ok C" "messages ms"
    and "prefix bs (seal_all (frame C) (next_box C) (DecryptoBox_of_session ses p) ms)"
  shows "\<exists>s'. decryption_push C (DecryptionStream_of_session ses p) bs = (Inr True, s')
    \<and> (fst (close s') \<longleftrightarrow>
        (\<exists>k. bs = seal_all (frame C) (next_box C) (DecryptoBox_of_session ses p) (take k ms)))"
proof -
  let ?b = "DecryptoBox_of_session ses p"
  have ok: "codec_ok C ?b" using assms(1) by (simp add: codec_ok_def)
  note lim = messages_limit [OF assms(2)]
  from box_codec.parses_seal_all_prefix [OF ok lim assms(3)] obtain k rest where
    k: "bs = seal_messages C ?b (take k ms) @ rest"
      "parses_frames C ?b bs (concat (take k ms)) ((next_box C ^^ k) ?b) rest True" by blast
  have push: "decryption_push C (DecryptionStream_of_session ses p) bs
      = (Inr True, stream (concat (take k ms)) rest ((next_box C ^^ k) ?b))"
    using decryption_push_parses [OF assms(1), of ?b "[]"] k(2) by (simp add: session_streams)
  have "rest = []" if "bs = seal_messages C ?b (take j ms)" for j
  proof -
    have "list_all (\<lambda>m. length m \<le> 0xFFFF) (take j ms)"
      using lim by (meson in_set_takeD list_all_iff)
    from box_codec.parses_seal_all [OF ok this] k(2) that show ?thesis by (metis parses_det)
  qed
  then show ?thesis using push k(1) by (auto simp: close_def)
qed

theorem close_detects_truncation_witness:
  "\<exists>s'. decryption_push toy (DecryptionStream_of_session demo_session Compact) [0, 2, 3] = (Inr True, s')
     \<and> \<not> fst (close s')"
proof -
  let ?b = "DecryptoBox_of_session demo_session Compact"
  have f: "frame toy ?b [1, 2] = [0, 2, 3, 3, 9] @ replicate 13 7 @ [4, 5]" by code_simp
  have "prefix [0, 2, 3] (seal_messages toy ?b [[1, 2]])" by (simp add: f)
  moreover have "[0, 2, 3] \<noteq> seal_messages toy ?b (take k [[1, 2]])" for k
    by (cases k) (simp_all add: f)
  ultimately show ?thesis
    using close_detects_truncation [OF toy_ok, of "[[1, 2]]" "[0, 2, 3]" demo_session Compact] by auto
qed

text \<open>
  C14: with the BoxStream protocol a \<open>DecryptionStream\<close> delivers nothing but what was sealed under
  its key, in order and from the beginning. For any bytes pushed into a new stream, also ones an
  attacker made, the decrypted output is the concatenation of messages whose frames, under
  consecutive nonces, are exactly the bytes consumed.
\<close>

theorem boxstream_output_genuine:
  assumes "crypto_ok C"
    and "decryption_push C (DecryptionStream_of_session ses BoxStream) bs = (Inr g, s')"
  shows "\<exists>ms. availableData s' = concat ms
    \<and> bs = seal_all (frame C) (next_box C) (DecryptoBox_of_session ses BoxStream) ms @ pending s'"
proof -
  let ?b = "DecryptoBox_of_session ses BoxStream"
  have ok: "boxstream_ok C ?b" using assms(1) by (simp add: boxstream_ok_def DecryptoBox_of_session_def)
  obtain p b' t' g' where p: "parses_frames C ?b bs p b' t' g'"
    using parses_frames_total [OF assms(1)] by blast
  then have "s' = stream p t' b'"
    using decryption_push_parses [OF assms(1), of ?b "[]"] assms(2) by (simp add: session_streams)
  with boxstream_codec.parses_genuine [OF p ok] show ?thesis by auto
qed

theorem boxstream_output_genuine_witness:
  "\<exists>s' ms. decryption_push toy (DecryptionStream_of_session demo_session BoxStream) demo_message = (Inr True, s')
     \<and> demo_message = seal_messages toy (DecryptoBox_of_session demo_session BoxStream) ms @ pending s'
     \<and> availableData s' = concat ms"
proof -
  have "case decryption_push toy (DecryptionStream_of_session demo_session BoxStream) demo_message of
      (Inr g, s') \<Rightarrow> g | _ \<Rightarrow> False"
    by code_simp
  then obtain s' where p: "decryption_push toy (DecryptionStream_of_session demo_session BoxStream)
      demo_message = (Inr True, s')"
    by (auto split: prod.splits sum.splits)
  from boxstream_output_genuine [OF toy_ok p] obtain ms where "availableData s' = concat ms"
    "demo_message = seal_messages toy (DecryptoBox_of_session demo_session BoxStream) ms @ pending s'"
    by (elim exE conjE)
  with p show ?thesis by (intro exI conjI)
qed

end
