(* ===== verification/Channel.thy ===== *)
theory Channel
  imports CryptoStream_Safety
begin

text \<open>
  One direction of an encrypted connection: an \<open>EncryptionStream\<close>, the bytes in transit, and the
  peer's \<open>DecryptionStream\<close>. The step relation lets both programs call the streams' operations in
  any order and with any sizes, and lets the network deliver the bytes in pieces of any size. The
  bytes pushed in and pulled out are recorded. The invariant says that at every moment the wire
  carries sealed messages of what was pushed, and the receiver has opened the ones that are
  complete.
\<close>

section \<open>The system\<close>

record channel =
  ch_enc :: CryptoStream
  ch_wire :: bytes
  ch_dec :: CryptoStream
  ch_sent :: bytes
  ch_received :: bytes

inductive channel_step :: "crypto \<Rightarrow> channel \<Rightarrow> channel \<Rightarrow> bool" for C where
  push: "encryption_push C (ch_enc c) data = (Inr (), e)
    \<Longrightarrow> channel_step C c (c\<lparr>ch_enc := e, ch_sent := ch_sent c @ data\<rparr>)"
| push_partial: "pushPartial C (ch_enc c) data = (Inr (), e)
    \<Longrightarrow> channel_step C c (c\<lparr>ch_enc := e, ch_sent := ch_sent c @ data\<rparr>)"
| flush: "flush C (ch_enc c) = (Inr (), e) \<Longrightarrow> channel_step C c (c\<lparr>ch_enc := e\<rparr>)"
| transmit: "pull (ch_enc c) n = (out, e)
    \<Longrightarrow> channel_step C c (c\<lparr>ch_enc := e, ch_wire := ch_wire c @ out\<rparr>)"
| deliver: "decryption_push C (ch_dec c) (take n (ch_wire c)) = (Inr True, d)
    \<Longrightarrow> channel_step C c (c\<lparr>ch_dec := d, ch_wire := drop n (ch_wire c)\<rparr>)"
| receive: "pull (ch_dec c) n = (out, d)
    \<Longrightarrow> channel_step C c (c\<lparr>ch_dec := d, ch_received := ch_received c @ out\<rparr>)"

definition new_channel :: "Session \<Rightarrow> Session \<Rightarrow> Protocol \<Rightarrow> channel" where
  "new_channel s t p = \<lparr>ch_enc = EncryptionStream_of_session s p, ch_wire = [],
     ch_dec = DecryptionStream_of_session t p, ch_sent = [], ch_received = []\<rparr>"

text \<open>The sender's encryption key and nonce are the receiver's decryption key and nonce.\<close>

definition paired :: "Session \<Rightarrow> Session \<Rightarrow> bool" where
  "paired s t \<longleftrightarrow> encryptionKey s = decryptionKey t \<and> encryptionNonce s = decryptionNonce t"

inductive channel_run :: "crypto \<Rightarrow> channel \<Rightarrow> channel \<Rightarrow> bool" for C where
  start: "channel_run C c c"
| step: "channel_run C c c' \<Longrightarrow> channel_step C c' c'' \<Longrightarrow> channel_run C c c''"

section \<open>The invariant\<close>

definition channel_inv :: "crypto \<Rightarrow> CryptoBox \<Rightarrow> channel \<Rightarrow> bool" where
  "channel_inv C b c \<longleftrightarrow> (\<exists>ms re te w b' rd td. messages ms
     \<and> ch_enc c = stream re te ((next_box C ^^ length ms) b) \<and> length te \<le> 0xFFFF
     \<and> ch_sent c = concat ms @ te
     \<and> seal_messages C b ms = w @ ch_wire c @ re
     \<and> ch_dec c = stream rd td b'
     \<and> parses_frames C b w (ch_received c @ rd) b' td True)"

lemma channel_invE:
  assumes "channel_inv C b c"
  obtains ms re te w b' rd td where "messages ms"
    "ch_enc c = stream re te ((next_box C ^^ length ms) b)" "length te \<le> 0xFFFF"
    "ch_sent c = concat ms @ te" "seal_messages C b ms = w @ ch_wire c @ re"
    "ch_dec c = stream rd td b'" "parses_frames C b w (ch_received c @ rd) b' td True"
  using assms unfolding channel_inv_def by blast

lemma parses_extend_sealed:
  assumes "crypto_ok C" "messages ms" "prefix (w @ x) (seal_messages C b ms)"
    and "parses_frames C b w p b' t True"
  obtains q b'' t' where "parses_frames C b' (t @ x) q b'' t' True"
    "parses_frames C b (w @ x) (p @ q) b'' t' True"
proof -
  have ok: "codec_ok C b" using assms(1) by (simp add: codec_ok_def)
  obtain q b'' t' g where q: "parses_frames C b' (t @ x) q b'' t' g"
    using parses_frames_total [OF assms(1)] by blast
  from box_codec.parses_append [OF assms(4) q ok]
  have "parses_frames C b (w @ x) (p @ q) b'' t' g" .
  moreover obtain k r where "parses_frames C b (w @ x) (concat (take k ms)) ((next_box C ^^ k) b) r True"
    using box_codec.parses_seal_all_prefix [OF ok messages_limit [OF assms(2)] assms(3)] by blast
  ultimately have "g = True" by (metis parses_det)
  then show ?thesis using that q \<open>parses_frames C b (w @ x) (p @ q) b'' t' g\<close> by simp
qed

lemma channel_inv_push:
  assumes "channel_inv C b c" "crypto_ok C"
    and "\<And>r t bx. length t \<le> 0xFFFF \<Longrightarrow> \<exists>ms t'. op (stream r t bx)
      = (Inr (), stream (r @ seal_messages C bx ms) t' ((next_box C ^^ length ms) bx))
      \<and> messages ms \<and> concat ms @ t' = t @ data \<and> length t' \<le> 0xFFFF"
    and "op (ch_enc c) = (Inr (), e)"
  shows "channel_inv C b (c\<lparr>ch_enc := e, ch_sent := ch_sent c @ data\<rparr>)"
proof -
  from assms(1) obtain ms re te w b' rd td where i: "messages ms"
    "ch_enc c = stream re te ((next_box C ^^ length ms) b)" "length te \<le> 0xFFFF"
    "ch_sent c = concat ms @ te" "seal_messages C b ms = w @ ch_wire c @ re"
    "ch_dec c = stream rd td b'" "parses_frames C b w (ch_received c @ rd) b' td True"
    by (rule channel_invE)
  from assms(3) [OF i(3), of re "(next_box C ^^ length ms) b"] obtain ns t' where n:
    "op (ch_enc c) = (Inr (), stream (re @ seal_messages C ((next_box C ^^ length ms) b) ns) t'
       ((next_box C ^^ length ns) ((next_box C ^^ length ms) b)))"
    "messages ns" "concat ns @ t' = te @ data" "length t' \<le> 0xFFFF"
    using i(2) by auto
  have "(next_box C ^^ length ns) ((next_box C ^^ length ms) b)
      = (next_box C ^^ length (ms @ ns)) b"
    by (simp add: funpow_add [symmetric, THEN fun_cong, simplified] add.commute)
  with n(1) assms(4) have "e = stream (re @ seal_messages C ((next_box C ^^ length ms) b) ns) t'
      ((next_box C ^^ length (ms @ ns)) b)" by simp
  moreover have "seal_messages C b (ms @ ns)
      = w @ ch_wire c @ re @ seal_messages C ((next_box C ^^ length ms) b) ns"
    using i(5) by (simp add: seal_all_append)
  ultimately show ?thesis using i n unfolding channel_inv_def
    by (intro exI [of _ "ms @ ns"]) fastforce
qed

lemma flush_pushes_nothing:
  assumes "crypto_ok C" "length t \<le> 0xFFFF"
  shows "\<exists>ms t'. flush C (stream r t bx)
      = (Inr (), stream (r @ seal_messages C bx ms) t' ((next_box C ^^ length ms) bx))
    \<and> messages ms \<and> concat ms @ t' = t @ [] \<and> length t' \<le> 0xFFFF"
proof -
  let ?ms = "if t = [] then [] else [t]"
  have "flush C (stream r t bx)
      = (Inr (), stream (r @ seal_messages C bx ?ms) [] ((next_box C ^^ length ?ms) bx))"
    using flush_stream [OF assms] by (simp add: flushed_def)
  moreover have "messages ?ms" "concat ?ms @ [] = t @ []" using assms(2) by simp_all
  ultimately show ?thesis by (metis (no_types, lifting) list.size(3) zero_le)
qed

lemma channel_inv_transmit:
  assumes "channel_inv C b c" "pull (ch_enc c) n = (out, e)"
  shows "channel_inv C b (c\<lparr>ch_enc := e, ch_wire := ch_wire c @ out\<rparr>)"
proof -
  from assms(1) obtain ms re te w b' rd td where i: "messages ms"
    "ch_enc c = stream re te ((next_box C ^^ length ms) b)" "length te \<le> 0xFFFF"
    "ch_sent c = concat ms @ te" "seal_messages C b ms = w @ ch_wire c @ re"
    "ch_dec c = stream rd td b'" "parses_frames C b w (ch_received c @ rd) b' td True"
    by (rule channel_invE)
  have "e = stream (drop n re) te ((next_box C ^^ length ms) b)" "out = take n re"
    using assms(2) i(2) by (auto simp: pull_stream)
  then show ?thesis using i unfolding channel_inv_def
    by (intro exI [of _ ms] exI [of _ "drop n re"] exI [of _ te] exI [of _ w] exI [of _ b']
        exI [of _ rd] exI [of _ td]) simp
qed

lemma channel_inv_deliver:
  assumes "channel_inv C b c" "crypto_ok C"
    and "decryption_push C (ch_dec c) (take n (ch_wire c)) = (Inr True, d)"
  shows "channel_inv C b (c\<lparr>ch_dec := d, ch_wire := drop n (ch_wire c)\<rparr>)"
proof -
  from assms(1) obtain ms re te w b' rd td where i: "messages ms"
    "ch_enc c = stream re te ((next_box C ^^ length ms) b)" "length te \<le> 0xFFFF"
    "ch_sent c = concat ms @ te" "seal_messages C b ms = w @ ch_wire c @ re"
    "ch_dec c = stream rd td b'" "parses_frames C b w (ch_received c @ rd) b' td True"
    by (rule channel_invE)
  have "prefix (w @ take n (ch_wire c)) (seal_messages C b ms)"
    unfolding i(5) by (simp add: prefix_def) (metis append.assoc append_take_drop_id)
  from parses_extend_sealed [OF assms(2) i(1) this i(7)] obtain q b'' t' where
    q: "parses_frames C b' (td @ take n (ch_wire c)) q b'' t' True"
    "parses_frames C b (w @ take n (ch_wire c)) ((ch_received c @ rd) @ q) b'' t' True" .
  have "d = stream (rd @ q) t' b''"
    using decryption_push_parses [OF assms(2) q(1), of rd] assms(3) i(6) by simp
  then show ?thesis using i q(2) unfolding channel_inv_def
    by (intro exI [of _ ms] exI [of _ re] exI [of _ te] exI [of _ "w @ take n (ch_wire c)"]
        exI [of _ b''] exI [of _ "rd @ q"] exI [of _ t']) simp
qed

lemma channel_inv_receive:
  assumes "channel_inv C b c" "pull (ch_dec c) n = (out, d)"
  shows "channel_inv C b (c\<lparr>ch_dec := d, ch_received := ch_received c @ out\<rparr>)"
proof -
  from assms(1) obtain ms re te w b' rd td where i: "messages ms"
    "ch_enc c = stream re te ((next_box C ^^ length ms) b)" "length te \<le> 0xFFFF"
    "ch_sent c = concat ms @ te" "seal_messages C b ms = w @ ch_wire c @ re"
    "ch_dec c = stream rd td b'" "parses_frames C b w (ch_received c @ rd) b' td True"
    by (rule channel_invE)
  have "d = stream (drop n rd) td b'" "out = take n rd"
    using assms(2) i(6) by (auto simp: pull_stream)
  then show ?thesis using i unfolding channel_inv_def
    by (intro exI [of _ ms] exI [of _ re] exI [of _ te] exI [of _ w] exI [of _ b']
        exI [of _ "drop n rd"] exI [of _ td]) simp
qed

lemma channel_step_inv:
  assumes "channel_step C c c'" "channel_inv C b c" and C: "crypto_ok C"
  shows "channel_inv C b c'"
  using assms(1)
proof cases
  case (push data e)
  have "channel_inv C b (c\<lparr>ch_enc := e, ch_sent := ch_sent c @ data\<rparr>)"
    using encryption_push_stream [OF C]
    by (intro channel_inv_push [where op = "\<lambda>s. encryption_push C s data", OF assms(2) C _ push(2)])
      fastforce
  then show ?thesis using push(1) by simp
next
  case (push_partial data e)
  have "channel_inv C b (c\<lparr>ch_enc := e, ch_sent := ch_sent c @ data\<rparr>)"
    using pushPartial_stream [OF C]
    by (intro channel_inv_push [where op = "\<lambda>s. pushPartial C s data", OF assms(2) C _ push_partial(2)]) blast
  then show ?thesis using push_partial(1) by simp
next
  case (flush e)
  have "channel_inv C b (c\<lparr>ch_enc := e, ch_sent := ch_sent c @ []\<rparr>)"
    using channel_inv_push [where op = "flush C", OF assms(2) C flush_pushes_nothing [OF C] flush(2)] .
  then show ?thesis using flush(1) by simp
qed (simp_all add: assms(2) C channel_inv_transmit channel_inv_deliver channel_inv_receive)

lemma channel_run_inv:
  assumes "channel_run C c c'" "crypto_ok C" "channel_inv C b c"
  shows "channel_inv C b c'"
  using assms by (induction rule: channel_run.induct) (blast intro: channel_step_inv)+

lemma new_channel_inv:
  assumes "crypto_ok C" "paired s t"
  shows "channel_inv C (EncryptoBox_of_session s p) (new_channel s t p)"
proof -
  let ?b = "EncryptoBox_of_session s p"
  have "DecryptoBox_of_session t p = ?b"
    using assms(2) by (simp add: paired_def EncryptoBox_of_session_def DecryptoBox_of_session_def)
  moreover have "parses_frames C ?b [] [] ?b [] True"
    using assms(1) by (intro parses.wait box_codec.unseal_Nil) (simp add: codec_ok_def)
  ultimately show ?thesis
    unfolding channel_inv_def new_channel_def
    by (intro exI [of _ "[]"] exI [of _ "?b"]) (simp add: session_streams)
qed

lemma channel_received_prefix:
  assumes "crypto_ok C" "channel_inv C b c"
  shows "prefix (ch_received c @ availableData (ch_dec c)) (ch_sent c)"
proof -
  from assms(2) obtain ms re te w b' rd td where i: "messages ms"
    "ch_enc c = stream re te ((next_box C ^^ length ms) b)" "length te \<le> 0xFFFF"
    "ch_sent c = concat ms @ te" "seal_messages C b ms = w @ ch_wire c @ re"
    "ch_dec c = stream rd td b'" "parses_frames C b w (ch_received c @ rd) b' td True"
    by (rule channel_invE)
  have ok: "codec_ok C b" using assms(1) by (simp add: codec_ok_def)
  have "prefix w (seal_messages C b ms)" using i(5) by simp
  from box_codec.parses_seal_all_prefix [OF ok messages_limit [OF i(1)] this] obtain k r where
    "parses_frames C b w (concat (take k ms)) ((next_box C ^^ k) b) r True" by blast
  with i(7) have "ch_received c @ rd = concat (take k ms)" by (metis parses_det)
  moreover have "concat ms = concat (take k ms) @ concat (drop k ms)"
    by (metis append_take_drop_id concat_append)
  ultimately show ?thesis using i(4,6) by simp
qed

lemma channel_ops_succeed:
  assumes C: "crypto_ok C" and "channel_inv C b c"
  shows "\<exists>e. encryption_push C (ch_enc c) data = (Inr (), e)"
    "\<exists>e. pushPartial C (ch_enc c) data = (Inr (), e)" "\<exists>e. flush C (ch_enc c) = (Inr (), e)"
    "\<exists>d. decryption_push C (ch_dec c) (take n (ch_wire c)) = (Inr True, d)"
proof -
  from assms(2) obtain ms re te w b' rd td where i: "messages ms"
    "ch_enc c = stream re te ((next_box C ^^ length ms) b)" "length te \<le> 0xFFFF"
    "ch_sent c = concat ms @ te" "seal_messages C b ms = w @ ch_wire c @ re"
    "ch_dec c = stream rd td b'" "parses_frames C b w (ch_received c @ rd) b' td True"
    by (rule channel_invE)
  show "\<exists>e. encryption_push C (ch_enc c) data = (Inr (), e)"
    using encryption_push_stream [OF C i(3)] i(2) by metis
  show "\<exists>e. pushPartial C (ch_enc c) data = (Inr (), e)"
    using pushPartial_stream [OF C i(3)] i(2) by metis
  show "\<exists>e. flush C (ch_enc c) = (Inr (), e)" using flush_stream [OF C i(3)] i(2) by metis
  have "prefix (w @ take n (ch_wire c)) (seal_messages C b ms)"
    unfolding i(5) by (simp add: prefix_def) (metis append.assoc append_take_drop_id)
  from parses_extend_sealed [OF C i(1) this i(7)] obtain q b'' t' where
    "parses_frames C b' (td @ take n (ch_wire c)) q b'' t' True" by blast
  from decryption_push_parses [OF C this, of rd] i(6)
  show "\<exists>d. decryption_push C (ch_dec c) (take n (ch_wire c)) = (Inr True, d)" by auto
qed

lemma channel_all_delivered:
  assumes C: "crypto_ok C" and "channel_inv C b c"
    and "pending (ch_enc c) = []" "availableData (ch_enc c) = []" "ch_wire c = []"
  shows "ch_received c @ availableData (ch_dec c) = ch_sent c \<and> fst (close (ch_dec c))"
proof -
  from assms(2) obtain ms re te w b' rd td where i: "messages ms"
    "ch_enc c = stream re te ((next_box C ^^ length ms) b)" "length te \<le> 0xFFFF"
    "ch_sent c = concat ms @ te" "seal_messages C b ms = w @ ch_wire c @ re"
    "ch_dec c = stream rd td b'" "parses_frames C b w (ch_received c @ rd) b' td True"
    by (rule channel_invE)
  have "te = []" "w = seal_messages C b ms" using i(2,5) assms(3-5) by simp_all
  moreover have "parses_frames C b (seal_messages C b ms) (concat ms) ((next_box C ^^ length ms) b) [] True"
    using C by (intro box_codec.parses_seal_all messages_limit [OF i(1)]) (simp add: codec_ok_def)
  ultimately have "ch_received c @ rd = concat ms" "td = []" using i(7) parses_det by fast+
  then show ?thesis using i(4,6) \<open>te = []\<close> by (simp add: close_def)
qed

section \<open>An example run\<close>

lemma demo_paired: "paired demo_session demo_session"
  by (simp add: paired_def demo_session_def)

text \<open>Three bytes are pushed, transmitted and delivered.\<close>

lemma demo_channel:
  "\<exists>c. channel_run toy (new_channel demo_session demo_session p) c \<and> ch_sent c = [1, 2, 3]
     \<and> pending (ch_enc c) = [] \<and> availableData (ch_enc c) = [] \<and> ch_wire c = []"
proof -
  let ?c0 = "new_channel demo_session demo_session p"
  let ?b = "EncryptoBox_of_session demo_session p"
  note inv0 = new_channel_inv [OF toy_ok demo_paired, of p]
  have start: "ch_enc ?c0 = stream [] [] ?b" "ch_wire ?c0 = []" "ch_sent ?c0 = []"
    by (simp_all add: new_channel_def session_streams)
  obtain r b' where e: "encryption_push toy (ch_enc ?c0) [1, 2, 3] = (Inr (), stream r [] b')"
    using encryption_push_stream [OF toy_ok, of "[]" "[]" ?b "[1, 2, 3]"] start by auto
  let ?c1 = "?c0\<lparr>ch_enc := stream r [] b', ch_sent := [1, 2, 3]\<rparr>"
  let ?c2 = "?c1\<lparr>ch_enc := stream [] [] b', ch_wire := r\<rparr>"
  have "channel_run toy ?c0 ?c1"
    using channel_run.step [OF channel_run.start channel_step.push [OF e]] start(3) by simp
  moreover have "channel_step toy ?c1 ?c2"
    using channel_step.transmit [of ?c1 "length r" r "stream [] [] b'" toy] start(2)
    by (simp add: pull_stream)
  ultimately have run: "channel_run toy ?c0 ?c2" by (rule channel_run.step)
  from channel_ops_succeed(4) [OF toy_ok channel_run_inv [OF run toy_ok inv0], of "length r"]
  obtain d where "decryption_push toy (ch_dec ?c2) (take (length r) (ch_wire ?c2)) = (Inr True, d)"
    by blast
  from channel_run.step [OF run channel_step.deliver [OF this]]
  have "channel_run toy ?c0 (?c2\<lparr>ch_dec := d, ch_wire := []\<rparr>)" by simp
  then show ?thesis by (intro exI [of _ "?c2\<lparr>ch_dec := d, ch_wire := []\<rparr>"] conjI) simp_all
qed

section \<open>Properties\<close>

text \<open>
  C7: the encrypted stream delivers what was sent. Between two peers whose sessions match, after
  any sequence of pushes, partial pushes, flushes and pulls of any sizes on either side and with
  the ciphertext delivered in pieces of any size, the bytes the receiver has pulled, followed by
  those it could pull now, are a prefix of the bytes that were pushed by the sender. When
  everything has been flushed, transmitted and delivered they are all of them, and \<open>close\<close> reports
  a clean end.
\<close>

theorem channel_delivers:
  assumes "crypto_ok C" "paired s t" "channel_run C (new_channel s t p) c"
  shows "prefix (ch_received c @ availableData (ch_dec c)) (ch_sent c)
    \<and> (pending (ch_enc c) = [] \<and> availableData (ch_enc c) = [] \<and> ch_wire c = []
         \<longrightarrow> ch_received c @ availableData (ch_dec c) = ch_sent c \<and> fst (close (ch_dec c)))"
  using channel_run_inv [OF assms(3,1) new_channel_inv [OF assms(1,2)]]
    channel_received_prefix [OF assms(1)] channel_all_delivered [OF assms(1)]
  by blast

theorem channel_delivers_witness:
  "\<exists>c. channel_run toy (new_channel demo_session demo_session Compact) c
     \<and> ch_received c @ availableData (ch_dec c) = [1, 2, 3] \<and> fst (close (ch_dec c))"
proof -
  obtain c where c: "channel_run toy (new_channel demo_session demo_session Compact) c"
    "ch_sent c = [1, 2, 3]" "pending (ch_enc c) = []" "availableData (ch_enc c) = []" "ch_wire c = []"
    using demo_channel by blast
  then show ?thesis using channel_delivers [OF toy_ok demo_paired c(1)] by auto
qed

text \<open>
  No operation on either end of such a connection can fail: whatever has happened before, pushing, partial pushing and flushing succeed, and the receiver accepts any further part of what
  is in transit.
\<close>

lemma channel_never_fails:
  assumes "crypto_ok C" "paired s t" "channel_run C (new_channel s t p) c"
  shows "(\<exists>e. encryption_push C (ch_enc c) data = (Inr (), e))
    \<and> (\<exists>e. pushPartial C (ch_enc c) data = (Inr (), e)) \<and> (\<exists>e. flush C (ch_enc c) = (Inr (), e))
    \<and> (\<exists>d. decryption_push C (ch_dec c) (take n (ch_wire c)) = (Inr True, d))"
  using channel_ops_succeed [OF assms(1) channel_run_inv [OF assms(3,1) new_channel_inv [OF assms(1,2)]]]
  by blast

end
