(* ===== verification/C_Api.thy ===== *)
theory C_Api
  imports Handshake_Types CryptoBox
begin

text \<open>
  The C interface, \<open>include/SecretHandshake.h\<close> and \<open>include/SecretStream.h\<close>, implemented at the
  end of \<open>src/SecretHandshake.cc\<close> and \<open>src/SecretStream.cc\<close>. A C program holds opaque pointers, so
  there is a heap of objects; an object's constructor is its dynamic type. The caller's memory is
  a byte array that the buffers passed in point into. The C structs have the layout of the C++
  ones and are the same types here. An address that holds no object of the expected class is
  undefined behaviour.
\<close>

section \<open>Objects\<close>

datatype c_object = ClientObj handshake | ServerObj handshake
  | EncryptoObj CryptoBox | DecryptoObj CryptoBox

record c_world =
  cw_next :: nat
  cw_heap :: "nat \<Rightarrow> c_object option"
  cw_mem :: bytes

text \<open>\<open>new\<close>; addresses are never reused and 0 is the null pointer. \<open>delete\<close> ignores it.\<close>

definition c_new :: "c_object \<Rightarrow> c_world \<Rightarrow> nat \<times> c_world" where
  "c_new obj w = (Suc (cw_next w),
     w\<lparr>cw_next := Suc (cw_next w), cw_heap := (cw_heap w)(Suc (cw_next w) \<mapsto> obj)\<rparr>)"

definition c_delete :: "(c_object \<Rightarrow> bool) \<Rightarrow> nat \<Rightarrow> c_world \<Rightarrow> (unit, c_world) outcome" where
  "c_delete is_class p w =
     (if p = 0 then (Inr (), w)
      else case cw_heap w p of
             None \<Rightarrow> (Inl UndefinedBehaviour, w)
           | Some obj \<Rightarrow> if is_class obj then (Inr (), w\<lparr>cw_heap := (cw_heap w)(p := None)\<rparr>)
                         else (Inl UndefinedBehaviour, w))"

text \<open>\<open>internal(h)->f()\<close>: the member function \<open>f\<close> of the object at address \<open>p\<close>.\<close>

definition on_handshake :: "crypto \<Rightarrow> (vtable \<Rightarrow> handshake \<Rightarrow> ('r, handshake) outcome) \<Rightarrow> nat
    \<Rightarrow> c_world \<Rightarrow> ('r, c_world) outcome" where
  "on_handshake C f p w =
     (case cw_heap w p of
        Some (ClientObj h) \<Rightarrow>
          (case f (client_vt C) h of (r, h') \<Rightarrow> (r, w\<lparr>cw_heap := (cw_heap w)(p \<mapsto> ClientObj h')\<rparr>))
      | Some (ServerObj h) \<Rightarrow>
          (case f (server_vt C) h of (r, h') \<Rightarrow> (r, w\<lparr>cw_heap := (cw_heap w)(p \<mapsto> ServerObj h')\<rparr>))
      | _ \<Rightarrow> (Inl UndefinedBehaviour, w))"

section \<open>Enumerations\<close>

text \<open>The enumerations of the C headers are types of their own; the C functions cast to and from the
  C++ ones, which carries the numeric value over. Out of the range of the enumerators the result
  is the last of them, which no call depends on.\<close>

datatype SHSError = SHSNoError | SHSProtocolError | SHSAuthError

datatype SHSStatus = SHSSuccess | SHSOutTooSmall | SHSIncompleteInput | SHSCorruptData

datatype SHSCryptoBoxProtocol = SHSCompact | SHSBoxStream

record SHSPeekResult =
  spk_status :: SHSStatus
  spk_decryptedSize :: nat
  spk_encryptedSize :: nat

fun error_value :: "hs_error \<Rightarrow> nat" where
  "error_value NoError = 0" | "error_value ProtocolError = 1" | "error_value AuthError = 2"

fun status_value :: "status_t \<Rightarrow> nat" where
  "status_value Success = 0" | "status_value OutTooSmall = 1"
| "status_value IncompleteInput = 2" | "status_value CorruptData = 3"

fun protocol_value :: "SHSCryptoBoxProtocol \<Rightarrow> nat" where
  "protocol_value SHSCompact = 0" | "protocol_value SHSBoxStream = 1"

definition SHSError_cast :: "hs_error \<Rightarrow> SHSError" where
  "SHSError_cast e = (let v = error_value e
     in if v = 0 then SHSNoError else if v = 1 then SHSProtocolError else SHSAuthError)"

definition SHSStatus_cast :: "status_t \<Rightarrow> SHSStatus" where
  "SHSStatus_cast st = (let v = status_value st
     in if v = 0 then SHSSuccess else if v = 1 then SHSOutTooSmall
        else if v = 2 then SHSIncompleteInput else SHSCorruptData)"

definition Protocol_cast :: "SHSCryptoBoxProtocol \<Rightarrow> Protocol" where
  "Protocol_cast p = (if protocol_value p = 0 then Compact else BoxStream)"

text \<open>The casts keep the meaning of the enumerators.\<close>

lemma casts_agree:
  "SHSError_cast e = (case e of NoError \<Rightarrow> SHSNoError | ProtocolError \<Rightarrow> SHSProtocolError | AuthError \<Rightarrow> SHSAuthError)"
  "SHSStatus_cast st = (case st of Success \<Rightarrow> SHSSuccess | OutTooSmall \<Rightarrow> SHSOutTooSmall
     | IncompleteInput \<Rightarrow> SHSIncompleteInput | CorruptData \<Rightarrow> SHSCorruptData)"
  "Protocol_cast p = (case p of SHSCompact \<Rightarrow> Compact | SHSBoxStream \<Rightarrow> BoxStream)"
  by (cases e; cases st; cases p; simp add: SHSError_cast_def SHSStatus_cast_def Protocol_cast_def)+

section \<open>SecretHandshake.h\<close>

definition SHSErase :: "nat \<Rightarrow> nat \<Rightarrow> c_world \<Rightarrow> c_world" where
  "SHSErase dst n w = w\<lparr>cw_mem := mem_write (cw_mem w) dst (replicate n 0)\<rparr>"

text \<open>
  The structs of \<open>SecretHandshake.h\<close> as they lie in memory: byte arrays, one after the other. The
  inline functions erase the secrets in a struct at an address.
\<close>

definition SHSKeyPair :: "KeyPair \<Rightarrow> bytes" where
  "SHSKeyPair kp = signingKey kp @ publicKey kp"

definition SHSSession :: "Session \<Rightarrow> bytes" where
  "SHSSession s = encryptionKey s @ encryptionNonce s @ decryptionKey s @ decryptionNonce s @ peerPublicKey s"

definition SHSSession_read :: "bytes \<Rightarrow> Session" where
  "SHSSession_read bs = \<lparr>encryptionKey = range_of 0 32 bs, encryptionNonce = range_of 32 24 bs,
     decryptionKey = range_of 56 32 bs, decryptionNonce = range_of 88 24 bs, peerPublicKey = range_of 112 32 bs\<rparr>"

definition SHSSigningKey_Erase :: "nat \<Rightarrow> c_world \<Rightarrow> c_world" where
  "SHSSigningKey_Erase key w = SHSErase key 32 w"

definition SHSKeyPair_Erase :: "nat \<Rightarrow> c_world \<Rightarrow> c_world" where
  "SHSKeyPair_Erase kp w = SHSErase kp 32 w"

definition SHSSession_Erase :: "nat \<Rightarrow> c_world \<Rightarrow> c_world" where
  "SHSSession_Erase s w = SHSErase s 144 w"

text \<open>\<open>drawn\<close> is the 64-byte key pair that Monocypher generates.\<close>

definition KeyPair_generate :: "bytes \<Rightarrow> KeyPair" where
  "KeyPair_generate drawn = KeyPair_of_bytes drawn"

definition SHSKeyPair_Generate :: "bytes \<Rightarrow> KeyPair" where
  "SHSKeyPair_Generate drawn = KeyPair_generate drawn"

definition SHSKeyPair_Regenerate :: "crypto \<Rightarrow> bytes \<Rightarrow> KeyPair" where
  "SHSKeyPair_Regenerate C sk = KeyPair_of_signing C sk"

definition SHSAppID_FromString :: "crypto \<Rightarrow> bytes \<Rightarrow> bytes" where
  "SHSAppID_FromString C str = appIDFromString C str"

definition SHSHandshake_CreateClient :: "crypto \<Rightarrow> bytes \<Rightarrow> KeyPair \<Rightarrow> bytes \<Rightarrow> bytes
    \<Rightarrow> c_world \<Rightarrow> nat \<times> c_world" where
  "SHSHandshake_CreateClient C app kp serverPublicKey x w =
     c_new (ClientObj (ClientHandshake C \<lparr>appID = app, keyPair = kp\<rparr> serverPublicKey x)) w"

definition SHSHandshake_CreateServer :: "crypto \<Rightarrow> bytes \<Rightarrow> KeyPair \<Rightarrow> bytes
    \<Rightarrow> c_world \<Rightarrow> nat \<times> c_world" where
  "SHSHandshake_CreateServer C app kp x w =
     c_new (ServerObj (ServerHandshake C \<lparr>appID = app, keyPair = kp\<rparr> x)) w"

definition SHSHandshake_Free :: "nat \<Rightarrow> c_world \<Rightarrow> (unit, c_world) outcome" where
  "SHSHandshake_Free p w =
     c_delete (\<lambda>obj. case obj of ClientObj _ \<Rightarrow> True | ServerObj _ \<Rightarrow> True | _ \<Rightarrow> False) p w"

definition SHSHandshake_GetBytesNeeded :: "crypto \<Rightarrow> nat \<Rightarrow> c_world \<Rightarrow> (nat, c_world) outcome" where
  "SHSHandshake_GetBytesNeeded C p w = on_handshake C (\<lambda>V h. (Inr (byteCountNeeded V h), h)) p w"

text \<open>The pointer returned is to the object's input buffer; the effect is the buffer's new size.\<close>

definition SHSHandshake_GetInputBuffer :: "crypto \<Rightarrow> nat \<Rightarrow> c_world \<Rightarrow> (unit, c_world) outcome" where
  "SHSHandshake_GetInputBuffer C p w = on_handshake C (\<lambda>V h. (Inr (), snd (bytesToRead V h))) p w"

definition SHSHandshake_GetBytesToRead :: "crypto \<Rightarrow> nat \<Rightarrow> c_world \<Rightarrow> (nat, c_world) outcome" where
  "SHSHandshake_GetBytesToRead C p w =
     ebind (SHSHandshake_GetInputBuffer C p w)
       (\<lambda>_ w1. SHSHandshake_GetBytesNeeded C p w1) (\<lambda>w1. w1)"

definition SHSHandshake_ReadCompleted :: "crypto \<Rightarrow> nat \<Rightarrow> c_world \<Rightarrow> (bool, c_world) outcome" where
  "SHSHandshake_ReadCompleted C p w = on_handshake C readCompleted p w"

definition SHSHandshake_ReceivedBytes :: "crypto \<Rightarrow> nat \<Rightarrow> nat \<Rightarrow> nat \<Rightarrow> c_world
    \<Rightarrow> (int, c_world) outcome" where
  "SHSHandshake_ReceivedBytes C p src count w =
     on_handshake C (\<lambda>V. receivedBytes V (mem_read (cw_mem w) src count)) p w"

definition SHSHandshake_GetBytesToSend :: "crypto \<Rightarrow> nat \<Rightarrow> c_world \<Rightarrow> (bytes, c_world) outcome" where
  "SHSHandshake_GetBytesToSend C p w = on_handshake C bytesToSend p w"

definition SHSHandshake_SendCompleted :: "crypto \<Rightarrow> nat \<Rightarrow> c_world \<Rightarrow> (unit, c_world) outcome" where
  "SHSHandshake_SendCompleted C p w = on_handshake C (\<lambda>V. sendCompleted) p w"

definition SHSHandshake_CopyBytesToSend :: "crypto \<Rightarrow> nat \<Rightarrow> nat \<Rightarrow> nat \<Rightarrow> c_world
    \<Rightarrow> (int, c_world) outcome" where
  "SHSHandshake_CopyBytesToSend C p dst capacity w =
     ebind (on_handshake C (\<lambda>V. copyBytesToSend V capacity) p w)
       (\<lambda>(count, copied) w1. (Inr count, w1\<lparr>cw_mem := mem_write (cw_mem w1) dst copied\<rparr>)) (\<lambda>w1. w1)"

definition SHSHandshake_GetError :: "crypto \<Rightarrow> nat \<Rightarrow> c_world \<Rightarrow> (SHSError, c_world) outcome" where
  "SHSHandshake_GetError C p w = on_handshake C (\<lambda>V h. (Inr (SHSError_cast (h_error h)), h)) p w"

definition SHSHandshake_Finished :: "crypto \<Rightarrow> nat \<Rightarrow> c_world \<Rightarrow> (bool, c_world) outcome" where
  "SHSHandshake_Finished C p w = on_handshake C (\<lambda>V h. (Inr (finished h), h)) p w"

definition SHSHandshake_GetSession :: "crypto \<Rightarrow> nat \<Rightarrow> c_world \<Rightarrow> (Session, c_world) outcome" where
  "SHSHandshake_GetSession C p w = on_handshake C (\<lambda>V h. (get_session C h, h)) p w"

section \<open>SecretStream.h\<close>

definition SHSEncryptoBox_Create :: "Session \<Rightarrow> SHSCryptoBoxProtocol \<Rightarrow> c_world \<Rightarrow> nat \<times> c_world" where
  "SHSEncryptoBox_Create session protocol w =
     c_new (EncryptoObj (EncryptoBox_of_session session (Protocol_cast protocol))) w"

definition SHSEncryptoBox_Free :: "nat \<Rightarrow> c_world \<Rightarrow> (unit, c_world) outcome" where
  "SHSEncryptoBox_Free p w = c_delete (\<lambda>obj. case obj of EncryptoObj _ \<Rightarrow> True | _ \<Rightarrow> False) p w"

definition SHSEncryptoBox_GetEncryptedSize :: "nat \<Rightarrow> nat \<Rightarrow> c_world \<Rightarrow> (nat, c_world) outcome" where
  "SHSEncryptoBox_GetEncryptedSize p inputSize w =
     (case cw_heap w p of Some (EncryptoObj b) \<Rightarrow> (Inr (encryptedSize b inputSize), w)
      | _ \<Rightarrow> (Inl UndefinedBehaviour, w))"

text \<open>The output buffer's struct is returned with its new size, as is the input's by \<open>Decrypt\<close>.\<close>

definition SHSEncryptoBox_Encrypt :: "crypto \<Rightarrow> nat \<Rightarrow> input_data \<Rightarrow> output_buffer \<Rightarrow> c_world
    \<Rightarrow> (SHSStatus \<times> output_buffer, c_world) outcome" where
  "SHSEncryptoBox_Encrypt C p inp out w =
     (case cw_heap w p of
        Some (EncryptoObj b) \<Rightarrow>
          (case encrypt C b (cw_mem w) inp out of (r, b', mem', out') \<Rightarrow>
             (case r of Inl e \<Rightarrow> Inl e | Inr st \<Rightarrow> Inr (SHSStatus_cast st, out'),
              w\<lparr>cw_heap := (cw_heap w)(p \<mapsto> EncryptoObj b'), cw_mem := mem'\<rparr>))
      | _ \<Rightarrow> (Inl UndefinedBehaviour, w))"

definition SHSDecryptoBox_Create :: "Session \<Rightarrow> SHSCryptoBoxProtocol \<Rightarrow> c_world \<Rightarrow> nat \<times> c_world" where
  "SHSDecryptoBox_Create session protocol w =
     c_new (DecryptoObj (DecryptoBox_of_session session (Protocol_cast protocol))) w"

definition SHSDecryptoBox_Free :: "nat \<Rightarrow> c_world \<Rightarrow> (unit, c_world) outcome" where
  "SHSDecryptoBox_Free p w = c_delete (\<lambda>obj. case obj of DecryptoObj _ \<Rightarrow> True | _ \<Rightarrow> False) p w"

definition SHSDecryptoBox_MinPeekSize :: "nat \<Rightarrow> c_world \<Rightarrow> (nat, c_world) outcome" where
  "SHSDecryptoBox_MinPeekSize p w =
     (case cw_heap w p of Some (DecryptoObj b) \<Rightarrow> (Inr (minPeekSize b), w)
      | _ \<Rightarrow> (Inl UndefinedBehaviour, w))"

definition SHSDecryptoBox_Peek :: "crypto \<Rightarrow> nat \<Rightarrow> input_data \<Rightarrow> c_world
    \<Rightarrow> (SHSPeekResult, c_world) outcome" where
  "SHSDecryptoBox_Peek C p inp w =
     (case cw_heap w p of
        Some (DecryptoObj b) \<Rightarrow>
          let ir = peek C b (cw_mem w) inp
          in (Inr \<lparr>spk_status = SHSStatus_cast (pk_status ir), spk_decryptedSize = pk_decryptedSize ir,
                   spk_encryptedSize = pk_encryptedSize ir\<rparr>, w)
      | _ \<Rightarrow> (Inl UndefinedBehaviour, w))"

definition SHSDecryptoBox_Decrypt :: "crypto \<Rightarrow> nat \<Rightarrow> input_data \<Rightarrow> output_buffer \<Rightarrow> c_world
    \<Rightarrow> (SHSStatus \<times> input_data \<times> output_buffer, c_world) outcome" where
  "SHSDecryptoBox_Decrypt C p inp out w =
     (case cw_heap w p of
        Some (DecryptoObj b) \<Rightarrow>
          (case decrypt C b (cw_mem w) inp out of (st, b', mem', inp', out') \<Rightarrow>
             (Inr (SHSStatus_cast st, inp', out'),
              w\<lparr>cw_heap := (cw_heap w)(p \<mapsto> DecryptoObj b'), cw_mem := mem'\<rparr>))
      | _ \<Rightarrow> (Inl UndefinedBehaviour, w))"

section \<open>Structs and secrets\<close>

text \<open>What the destructors leave in the memory of their objects.\<close>

definition KeyPair_destroyed :: "KeyPair \<Rightarrow> KeyPair" where
  "KeyPair_destroyed kp = kp\<lparr>signingKey := replicate 32 0\<rparr>"

definition Session_destroyed :: "Session \<Rightarrow> Session" where
  "Session_destroyed s = SHSSession_read (replicate 144 0)"

definition CryptoBox_destroyed :: "CryptoBox \<Rightarrow> CryptoBox" where
  "CryptoBox_destroyed b = b\<lparr>cb_key := replicate 32 0\<rparr>"

lemma mem_erased:
  assumes "p + n \<le> length (cw_mem w)"
  shows "mem_read (cw_mem (SHSErase p n w)) p n = replicate n 0"
    "i < length (cw_mem w) \<Longrightarrow> i < p \<or> p + n \<le> i \<Longrightarrow> cw_mem (SHSErase p n w) ! i = cw_mem w ! i"
  using assms by (simp_all add: SHSErase_def mem_read_write_same mem_write_outside)

text \<open>A session of the declared sizes survives its passage through the C struct, whose layout is that
  of the C++ one; erasing the struct leaves what the destructor leaves, and touches nothing else.\<close>

lemma session_struct:
  assumes "session_typed s"
  shows "length (SHSSession s) = 144" "SHSSession_read (SHSSession s) = s"
  using assms by (simp_all add: session_typed_def SHSSession_def SHSSession_read_def range_of_def)

lemma session_erased:
  assumes "p + 144 \<le> length (cw_mem w)"
  shows "SHSSession_read (mem_read (cw_mem (SHSSession_Erase p w)) p 144) = Session_destroyed s"
    "i < length (cw_mem w) \<Longrightarrow> i < p \<or> p + 144 \<le> i \<Longrightarrow> cw_mem (SHSSession_Erase p w) ! i = cw_mem w ! i"
  using mem_erased [OF assms] by (simp_all add: SHSSession_Erase_def Session_destroyed_def)

text \<open>Of an erased key pair the public key is left, as by the destructor.\<close>

lemma key_pair_erased:
  assumes "length (signingKey kp) = 32" "length (publicKey kp) = 32"
    and "p + 64 \<le> length (cw_mem w)" "mem_read (cw_mem w) p 64 = SHSKeyPair kp"
  shows "mem_read (cw_mem (SHSKeyPair_Erase p w)) p 64 = SHSKeyPair (KeyPair_destroyed kp)"
proof (rule nth_equalityI)
  show "length (mem_read (cw_mem (SHSKeyPair_Erase p w)) p 64) = length (SHSKeyPair (KeyPair_destroyed kp))"
    using assms by (simp add: SHSKeyPair_Erase_def SHSErase_def SHSKeyPair_def KeyPair_destroyed_def)
  fix i
  assume "i < length (mem_read (cw_mem (SHSKeyPair_Erase p w)) p 64)"
  then have i: "i < 64" by simp
  have k: "cw_mem w ! (p + i) = SHSKeyPair kp ! i"
    using i assms(3,4) by (metis mem_read_def nth_drop nth_take add_leD1)
  have "mem_read (cw_mem (SHSKeyPair_Erase p w)) p 64 ! i = cw_mem (SHSKeyPair_Erase p w) ! (p + i)"
    using i assms(3) by (simp add: mem_read_def SHSKeyPair_Erase_def SHSErase_def)
  also have "\<dots> = (if i < 32 then 0 else SHSKeyPair kp ! i)"
    using i assms(3) k by (simp add: SHSKeyPair_Erase_def SHSErase_def nth_mem_write)
  also have "\<dots> = SHSKeyPair (KeyPair_destroyed kp) ! i"
    using assms(1) by (simp add: SHSKeyPair_def KeyPair_destroyed_def nth_append)
  finally show "mem_read (cw_mem (SHSKeyPair_Erase p w)) p 64 ! i = SHSKeyPair (KeyPair_destroyed kp) ! i" .
qed

section \<open>Programs\<close>

text \<open>
  One call made by a C program that returns, or the program's own writing: to its memory, or to
  the input buffer that it was given a pointer to.
\<close>

definition store_input :: "crypto \<Rightarrow> nat \<Rightarrow> bytes \<Rightarrow> c_world \<Rightarrow> (unit, c_world) outcome" where
  "store_input C p bs w = on_handshake C (\<lambda>V h.
     if length bs \<le> length (h_inputBuffer h)
     then (Inr (), h\<lparr>h_inputBuffer := mem_write (h_inputBuffer h) 0 bs\<rparr>)
     else (Inl UndefinedBehaviour, h)) p w"

inductive c_step :: "crypto \<Rightarrow> c_world \<Rightarrow> c_world \<Rightarrow> bool" for C where
  create_client: "SHSHandshake_CreateClient C app kp pk x w = (p, w') \<Longrightarrow> c_step C w w'"
| create_server: "SHSHandshake_CreateServer C app kp x w = (p, w') \<Longrightarrow> c_step C w w'"
| free_handshake: "SHSHandshake_Free p w = (Inr (), w') \<Longrightarrow> c_step C w w'"
| get_input_buffer: "SHSHandshake_GetInputBuffer C p w = (Inr (), w') \<Longrightarrow> c_step C w w'"
| fill_input_buffer: "store_input C p bs w = (Inr (), w') \<Longrightarrow> c_step C w w'"
| read_completed: "SHSHandshake_ReadCompleted C p w = (Inr ok, w') \<Longrightarrow> c_step C w w'"
| received_bytes: "SHSHandshake_ReceivedBytes C p src count w = (Inr n, w') \<Longrightarrow> c_step C w w'"
| get_bytes_to_send: "SHSHandshake_GetBytesToSend C p w = (Inr bs, w') \<Longrightarrow> c_step C w w'"
| send_completed: "SHSHandshake_SendCompleted C p w = (Inr (), w') \<Longrightarrow> c_step C w w'"
| copy_bytes_to_send: "SHSHandshake_CopyBytesToSend C p dst capacity w = (Inr n, w') \<Longrightarrow> c_step C w w'"
| create_encrypto: "SHSEncryptoBox_Create session protocol w = (p, w') \<Longrightarrow> c_step C w w'"
| free_encrypto: "SHSEncryptoBox_Free p w = (Inr (), w') \<Longrightarrow> c_step C w w'"
| encrypt: "SHSEncryptoBox_Encrypt C p inp out w = (Inr s, w') \<Longrightarrow> c_step C w w'"
| create_decrypto: "SHSDecryptoBox_Create session protocol w = (p, w') \<Longrightarrow> c_step C w w'"
| free_decrypto: "SHSDecryptoBox_Free p w = (Inr (), w') \<Longrightarrow> c_step C w w'"
| decrypt: "SHSDecryptoBox_Decrypt C p inp out w = (Inr t, w') \<Longrightarrow> c_step C w w'"
| write_memory: "c_step C w (w\<lparr>cw_mem := m\<rparr>)"

definition c_start :: "bytes \<Rightarrow> c_world" where
  "c_start m = \<lparr>cw_next = 0, cw_heap = (\<lambda>_. None), cw_mem = m\<rparr>"

inductive c_run :: "crypto \<Rightarrow> c_world \<Rightarrow> bool" for C where
  start: "c_run C (c_start m)"
| step: "c_run C w \<Longrightarrow> c_step C w w' \<Longrightarrow> c_run C w'"

section \<open>The invariant of the heap\<close>

text \<open>Every handshake object is in a state that calls of its member functions lead to.\<close>

definition c_object_ok :: "crypto \<Rightarrow> c_object \<Rightarrow> bool" where
  "c_object_ok C obj = (case obj of
      ClientObj h \<Rightarrow> \<exists>h0. fresh C (client_vt C) h0 \<and> api_run (client_vt C) h0 h
    | ServerObj h \<Rightarrow> \<exists>h0. fresh C (server_vt C) h0 \<and> api_run (server_vt C) h0 h
    | _ \<Rightarrow> True)"

definition c_inv :: "crypto \<Rightarrow> c_world \<Rightarrow> bool" where
  "c_inv C w \<longleftrightarrow> (\<forall>p obj. cw_heap w p = Some obj \<longrightarrow> c_object_ok C obj)"

definition handshake_at :: "crypto \<Rightarrow> c_world \<Rightarrow> nat \<Rightarrow> vtable \<Rightarrow> handshake \<Rightarrow> bool" where
  "handshake_at C w p V h \<longleftrightarrow> cw_heap w p = Some (ClientObj h) \<and> V = client_vt C
     \<or> cw_heap w p = Some (ServerObj h) \<and> V = server_vt C"

lemma fresh_server_plain: "fresh C (server_vt C) (ServerHandshake C ctx x)"
  using fresh.server [of C None ctx x]
  by (simp add: setClientAuthorizer_def ServerHandshake_def new_Handshake_def)

lemma on_handshake_at:
  assumes "handshake_at C w p V h"
  shows "\<exists>w'. on_handshake C f p w = (fst (f V h), w') \<and> handshake_at C w' p V (snd (f V h))"
  using assms by (auto simp: handshake_at_def on_handshake_def split: prod.splits)

lemma on_handshake_fst: "handshake_at C w p V h \<Longrightarrow> fst (on_handshake C f p w) = fst (f V h)"
  by (auto simp: handshake_at_def on_handshake_def split: prod.splits)

lemma on_handshakeE:
  assumes "on_handshake C f p w = (Inr r, w')"
  obtains (client) h h' where "cw_heap w p = Some (ClientObj h)" "f (client_vt C) h = (Inr r, h')"
      "w' = w\<lparr>cw_heap := (cw_heap w)(p \<mapsto> ClientObj h')\<rparr>"
  | (server) h h' where "cw_heap w p = Some (ServerObj h)" "f (server_vt C) h = (Inr r, h')"
      "w' = w\<lparr>cw_heap := (cw_heap w)(p \<mapsto> ServerObj h')\<rparr>"
  using assms
  by (auto simp: on_handshake_def split: option.splits c_object.splits prod.splits)

lemma c_inv_update: "c_inv C w \<Longrightarrow> c_object_ok C obj \<Longrightarrow>
    c_inv C (w\<lparr>cw_heap := (cw_heap w)(p \<mapsto> obj), cw_mem := m\<rparr>)"
  by (auto simp: c_inv_def)

lemma on_handshake_inv:
  assumes "on_handshake C f p w = (Inr r, w')" "c_inv C w"
    and f: "\<And>V h h'. f V h = (Inr r, h') \<Longrightarrow> api_step V h h'"
  shows "c_inv C w'"
  using assms(1)
proof (cases rule: on_handshakeE)
  case (client h h')
  have "c_object_ok C (ClientObj h')"
    using assms(2) client(1) f [OF client(2)]
    by (fastforce simp: c_inv_def c_object_ok_def intro: api_run.step)
  then show ?thesis using c_inv_update [OF assms(2), where p = p and m = "cw_mem w"] client(3) by simp
next
  case (server h h')
  have "c_object_ok C (ServerObj h')"
    using assms(2) server(1) f [OF server(2)]
    by (fastforce simp: c_inv_def c_object_ok_def intro: api_run.step)
  then show ?thesis using c_inv_update [OF assms(2), where p = p and m = "cw_mem w"] server(3) by simp
qed

lemma c_new_inv: "c_inv C w \<Longrightarrow> c_object_ok C obj \<Longrightarrow> c_new obj w = (p, w') \<Longrightarrow> c_inv C w'"
  by (auto simp: c_new_def c_inv_def split: if_splits)

lemma c_delete_inv: "c_inv C w \<Longrightarrow> c_delete cl p w = (Inr (), w') \<Longrightarrow> c_inv C w'"
  by (auto simp: c_delete_def c_inv_def split: if_splits option.splits)

lemma c_inv_mem: "c_inv C (w\<lparr>cw_mem := m\<rparr>) = c_inv C w"
  by (simp add: c_inv_def)

lemma c_copy_inv:
  assumes "SHSHandshake_CopyBytesToSend C p dst capacity w = (Inr n, w')" "c_inv C w"
  shows "c_inv C w'"
proof -
  obtain c w1 where "on_handshake C (\<lambda>V. copyBytesToSend V capacity) p w = (Inr c, w1)"
    "w' = w1\<lparr>cw_mem := mem_write (cw_mem w1) dst (snd c)\<rparr>"
    using assms(1) by (auto simp: SHSHandshake_CopyBytesToSend_def ebind_def
        split: prod.splits sum.splits)
  moreover from this(1) assms(2) have "c_inv C w1"
    by (rule on_handshake_inv) (auto intro: api_step.copyBytesToSend)
  ultimately show ?thesis by (simp add: c_inv_mem)
qed

lemma c_box_inv:
  "SHSEncryptoBox_Encrypt C p inp out w = (Inr s, w') \<Longrightarrow> c_inv C w \<Longrightarrow> c_inv C w'"
  "SHSDecryptoBox_Decrypt C p inp out w = (Inr t, w') \<Longrightarrow> c_inv C w \<Longrightarrow> c_inv C w'"
  by (auto simp: SHSEncryptoBox_Encrypt_def SHSDecryptoBox_Decrypt_def c_object_ok_def
      split: option.splits c_object.splits prod.splits intro: c_inv_update)

lemmas c_handshake_defs = SHSHandshake_GetInputBuffer_def SHSHandshake_ReadCompleted_def
  SHSHandshake_ReceivedBytes_def SHSHandshake_GetBytesToSend_def SHSHandshake_SendCompleted_def
  store_input_def

lemmas c_create_defs = SHSHandshake_CreateClient_def SHSHandshake_CreateServer_def
  SHSEncryptoBox_Create_def SHSDecryptoBox_Create_def

lemmas c_free_defs = SHSHandshake_Free_def SHSEncryptoBox_Free_def SHSDecryptoBox_Free_def

lemma c_created_ok:
  "c_object_ok C (ClientObj (ClientHandshake C ctx pk x))"
  "c_object_ok C (ServerObj (ServerHandshake C ctx x))"
  "c_object_ok C (EncryptoObj b)" "c_object_ok C (DecryptoObj b)"
  unfolding c_object_ok_def using fresh.client fresh_server_plain api_run.start
  by (simp_all, blast+)

lemma c_handshake_inv:
  "SHSHandshake_GetInputBuffer C p w = (Inr (), w') \<Longrightarrow> c_inv C w \<Longrightarrow> c_inv C w'"
  "store_input C p bs w = (Inr (), w') \<Longrightarrow> c_inv C w \<Longrightarrow> c_inv C w'"
  "SHSHandshake_ReadCompleted C p w = (Inr ok, w') \<Longrightarrow> c_inv C w \<Longrightarrow> c_inv C w'"
  "SHSHandshake_ReceivedBytes C p src count w = (Inr n, w') \<Longrightarrow> c_inv C w \<Longrightarrow> c_inv C w'"
  "SHSHandshake_GetBytesToSend C p w = (Inr out, w') \<Longrightarrow> c_inv C w \<Longrightarrow> c_inv C w'"
  "SHSHandshake_SendCompleted C p w = (Inr (), w') \<Longrightarrow> c_inv C w \<Longrightarrow> c_inv C w'"
  unfolding c_handshake_defs
  by (erule (1) on_handshake_inv, force split: if_splits intro: api_step.intros prod_eqI)+

lemma c_create_inv:
  "SHSHandshake_CreateClient C app kp pk x w = (p, w') \<Longrightarrow> c_inv C w \<Longrightarrow> c_inv C w'"
  "SHSHandshake_CreateServer C app kp x w = (p, w') \<Longrightarrow> c_inv C w \<Longrightarrow> c_inv C w'"
  "SHSEncryptoBox_Create session protocol w = (p, w') \<Longrightarrow> c_inv C w \<Longrightarrow> c_inv C w'"
  "SHSDecryptoBox_Create session protocol w = (p, w') \<Longrightarrow> c_inv C w \<Longrightarrow> c_inv C w'"
  unfolding c_create_defs by (erule (1) c_new_inv [OF _ c_created_ok(1), rotated]
      c_new_inv [OF _ c_created_ok(2), rotated] c_new_inv [OF _ c_created_ok(3), rotated]
      c_new_inv [OF _ c_created_ok(4), rotated])+

lemma c_free_inv:
  "SHSHandshake_Free p w = (Inr (), w') \<Longrightarrow> c_inv C w \<Longrightarrow> c_inv C w'"
  "SHSEncryptoBox_Free p w = (Inr (), w') \<Longrightarrow> c_inv C w \<Longrightarrow> c_inv C w'"
  "SHSDecryptoBox_Free p w = (Inr (), w') \<Longrightarrow> c_inv C w \<Longrightarrow> c_inv C w'"
  unfolding c_free_defs by (erule (1) c_delete_inv [rotated])+

lemma c_step_inv: "c_step C w w' \<Longrightarrow> c_inv C w \<Longrightarrow> c_inv C w'"
  by (erule c_step.cases; hypsubst?;
      (erule (1) c_handshake_inv c_copy_inv c_box_inv c_create_inv c_free_inv
       | simp add: c_inv_mem))

lemma c_run_inv: "c_run C w \<Longrightarrow> c_inv C w"
proof (induction rule: c_run.induct)
  case (start m)
  show ?case by (simp add: c_start_def c_inv_def)
next
  case (step w w')
  then show ?case using c_step_inv by blast
qed

lemma c_run_handshake:
  assumes "c_run C w" "handshake_at C w p V h"
  obtains h0 where "fresh C V h0" "api_run V h0 h"
  using c_run_inv [OF assms(1)] assms(2)
  by (fastforce simp: c_inv_def handshake_at_def c_object_ok_def)

lemma read_after_bytesToRead:
  assumes "fresh C V h0" "api_run V h0 h" "bytesToRead V h = (n, h1)" "length bs = n"
  shows "\<exists>ok. fst (readCompleted V (h1\<lparr>h_inputBuffer := mem_write (h_inputBuffer h1) 0 bs\<rparr>)) = Inr ok"
proof -
  let ?h = "h1\<lparr>h_inputBuffer := mem_write (h_inputBuffer h1) 0 bs\<rparr>"
  have l: "length (h_inputBuffer h1) = n" and n: "n = byteCountNeeded V h"
    using assms(3) by (auto simp: bytesToRead_def Let_def resize_def)
  have "byteCountNeeded V ?h = n"
    using assms(1,3) n by (auto elim!: fresh.cases simp: bytesToRead_def Let_def client_vt_def
        server_vt_def client_byteCountNeeded_def server_byteCountNeeded_def)
  moreover have "length (h_inputBuffer ?h) = n" using l assms(4) by (simp add: mem_write_def)
  moreover have "api_run V h0 ?h"
    using api_run.step [OF api_run.step [OF assms(2) api_step.bytesToRead [OF assms(3)]]]
      api_step.fill_input [of bs h1 V] l assms(4) by simp
  note calls = fresh_calls [OF assms(1) this, of "[]" 0]
  have "fst (readCompleted V ?h) \<noteq> Inl LogicError"
    using calls [THEN conjunct2, THEN conjunct1] calculation by metis
  then show ?thesis using calls [THEN conjunct1] by blast
qed

lemma c_read:
  assumes "fresh C V h0" "api_run V h0 h" "handshake_at C w p V h"
  shows "\<exists>n w1. SHSHandshake_GetBytesToRead C p w = (Inr n, w1) \<and> (\<forall>bs. length bs = n \<longrightarrow>
    (\<exists>w2 ok. store_input C p bs w1 = (Inr (), w2) \<and> fst (SHSHandshake_ReadCompleted C p w2) = Inr ok))"
proof -
  obtain n h1 where r: "bytesToRead V h = (n, h1)" by fastforce
  obtain w1 where w1: "SHSHandshake_GetInputBuffer C p w = (Inr (), w1)" "handshake_at C w1 p V h1"
    using on_handshake_at [OF assms(3), of "\<lambda>V h. (Inr (), snd (bytesToRead V h))"] r
    by (auto simp: SHSHandshake_GetInputBuffer_def)
  have n: "byteCountNeeded V h1 = n" "length (h_inputBuffer h1) = n"
    using assms(1) r by (auto elim!: fresh.cases simp: bytesToRead_def Let_def resize_def
        client_vt_def server_vt_def client_byteCountNeeded_def server_byteCountNeeded_def)
  obtain w2 where w2: "SHSHandshake_GetBytesNeeded C p w1 = (Inr n, w2)" "handshake_at C w2 p V h1"
    using on_handshake_at [OF w1(2), of "\<lambda>V h. (Inr (byteCountNeeded V h), h)"] n(1)
    by (auto simp: SHSHandshake_GetBytesNeeded_def)
  have st: "\<exists>w3 ok. store_input C p bs w2 = (Inr (), w3) \<and> fst (SHSHandshake_ReadCompleted C p w3) = Inr ok"
    if len: "length bs = n" for bs
  proof -
    obtain w3 where "store_input C p bs w2 = (Inr (), w3)"
      "handshake_at C w3 p V (h1\<lparr>h_inputBuffer := mem_write (h_inputBuffer h1) 0 bs\<rparr>)"
      using on_handshake_at [OF w2(2), where f = "\<lambda>V h. if length bs \<le> length (h_inputBuffer h)
          then (Inr (), h\<lparr>h_inputBuffer := mem_write (h_inputBuffer h) 0 bs\<rparr>)
          else (Inl UndefinedBehaviour, h)"] n(2) len
      by (auto simp: store_input_def)
    moreover from this(2) have "\<exists>ok. fst (SHSHandshake_ReadCompleted C p w3) = Inr ok"
      using read_after_bytesToRead [OF assms(1,2) r len]
      by (simp add: SHSHandshake_ReadCompleted_def on_handshake_fst)
    ultimately show ?thesis by blast
  qed
  have rd: "SHSHandshake_GetBytesToRead C p w = (Inr n, w2)"
    using w1(1) w2(1) by (simp add: SHSHandshake_GetBytesToRead_def ebind_def)
  show ?thesis
    by (rule exI [of _ n], rule exI [of _ w2], rule conjI [OF rd], intro allI impI) (rule st)
qed

lemma send_after_bytesToSend:
  assumes "fresh C V h0" "api_run V h0 h" "bytesToSend V h = (Inr out, h1)" "out \<noteq> []"
  shows "fst (sendCompleted h1) = Inr ()"
proof -
  have "live (h_step h1) \<and> h_outputBuffer h1 = out"
    using assms(1,2)
  proof (cases rule: fresh_run_cases)
    case (client i0 pk)
    then show ?thesis
      using client.bytesToSend_live(1,3,4) [OF client_run.inv_buffers [OF client(2)] _ assms(4)]
        assms(3) unfolding client(1) by metis
  next
    case (server i0 auth)
    then show ?thesis
      using server.bytesToSend_live(1,3,4) [OF server_run.inv_buffers [OF server(2)] _ assms(4)]
        assms(3) unfolding server(1) by metis
  qed
  then show ?thesis
    using assms(4) nextStep_live [of "h1\<lparr>h_outputBuffer := []\<rparr>"] by (simp add: sendCompleted_def)
qed

lemma session_iff_finished:
  assumes "fresh C V h0" "api_run V h0 h"
  shows "(\<exists>s. get_session C h = Inr s) \<longleftrightarrow> finished h"
  using fresh_session [OF assms] by (auto simp: get_session_def finished_def)

section \<open>Properties\<close>

text \<open>
  C35: a C program that uses the handshake as documented never has a C++ exception thrown through
  it. Whatever calls were made before, on this and on other objects: \<open>ReceivedBytes\<close>,
  \<open>CopyBytesToSend\<close> and \<open>GetBytesToSend\<close> return; \<open>ReadCompleted\<close> returns when the program has filled
  the buffer that \<open>GetBytesToRead\<close> gave it; \<open>SendCompleted\<close> returns when \<open>GetBytesToSend\<close> had
  something to send; and \<open>GetSession\<close> returns a session exactly when \<open>Finished\<close> says so.
\<close>

theorem c_calls_return:
  assumes "c_run C w" "cw_heap w p = Some obj" "obj = ClientObj h \<or> obj = ServerObj h"
  shows "(\<exists>n. fst (SHSHandshake_ReceivedBytes C p src count w) = Inr n)
    \<and> (\<exists>n. fst (SHSHandshake_CopyBytesToSend C p dst capacity w) = Inr n)
    \<and> (\<exists>n w1. SHSHandshake_GetBytesToRead C p w = (Inr n, w1) \<and> (\<forall>bs. length bs = n \<longrightarrow>
         (\<exists>w2 ok. store_input C p bs w1 = (Inr (), w2) \<and> fst (SHSHandshake_ReadCompleted C p w2) = Inr ok)))
    \<and> (\<exists>bs w1. SHSHandshake_GetBytesToSend C p w = (Inr bs, w1)
         \<and> (bs \<noteq> [] \<longrightarrow> fst (SHSHandshake_SendCompleted C p w1) = Inr ()))
    \<and> (\<exists>b. fst (SHSHandshake_Finished C p w) = Inr b
         \<and> (b \<longleftrightarrow> (\<exists>s. fst (SHSHandshake_GetSession C p w) = Inr s)))"
proof -
  obtain V where at: "handshake_at C w p V h"
    using assms(2,3) by (auto simp: handshake_at_def)
  obtain h0 where run: "fresh C V h0" "api_run V h0 h" using c_run_handshake [OF assms(1) at] .
  note calls = fresh_calls [OF run, of "mem_read (cw_mem w) src count" capacity, THEN conjunct2,
      THEN conjunct2]
  have calls': "\<exists>n. fst (receivedBytes V (mem_read (cw_mem w) src count) h) = Inr n"
    "\<exists>out. fst (bytesToSend V h) = Inr out" "\<exists>v. fst (copyBytesToSend V capacity h) = Inr v"
    using calls by blast+
  have recv: "\<exists>n. fst (SHSHandshake_ReceivedBytes C p src count w) = Inr n"
    using calls'(1) by (simp add: SHSHandshake_ReceivedBytes_def on_handshake_fst [OF at])
  have copy: "\<exists>n. fst (SHSHandshake_CopyBytesToSend C p dst capacity w) = Inr n"
    using calls'(3) on_handshake_fst [OF at, of "\<lambda>V. copyBytesToSend V capacity"]
    by (cases "on_handshake C (\<lambda>V. copyBytesToSend V capacity) p w")
      (auto simp: SHSHandshake_CopyBytesToSend_def ebind_def)
  obtain bs h1 where send: "bytesToSend V h = (Inr bs, h1)"
    using calls'(2) by (cases "bytesToSend V h") auto
  obtain w1 where w1: "SHSHandshake_GetBytesToSend C p w = (Inr bs, w1)" "handshake_at C w1 p V h1"
    using on_handshake_at [OF at, of bytesToSend] send by (auto simp: SHSHandshake_GetBytesToSend_def)
  have sent: "bs \<noteq> [] \<longrightarrow> fst (SHSHandshake_SendCompleted C p w1) = Inr ()"
    using send_after_bytesToSend [OF run send]
    by (simp add: SHSHandshake_SendCompleted_def on_handshake_fst [OF w1(2)])
  have fin: "fst (SHSHandshake_Finished C p w) = Inr (finished h)
      \<and> fst (SHSHandshake_GetSession C p w) = get_session C h"
    by (simp add: SHSHandshake_Finished_def SHSHandshake_GetSession_def on_handshake_fst [OF at])
  have "\<exists>bs w1. SHSHandshake_GetBytesToSend C p w = (Inr bs, w1)
      \<and> (bs \<noteq> [] \<longrightarrow> fst (SHSHandshake_SendCompleted C p w1) = Inr ())"
    by (rule exI [of _ bs], rule exI [of _ w1], rule conjI [OF w1(1) sent])
  moreover have "\<exists>b. fst (SHSHandshake_Finished C p w) = Inr b
      \<and> (b \<longleftrightarrow> (\<exists>s. fst (SHSHandshake_GetSession C p w) = Inr s))"
    by (rule exI [of _ "finished h"]) (simp add: fin session_iff_finished [OF run])
  ultimately show ?thesis by (rule conjI [OF recv conjI [OF copy conjI [OF c_read [OF run at] conjI]]])
qed

text \<open>A program that creates a client and asks it what to send.\<close>

definition demo_world :: c_world where
  "demo_world = snd (SHSHandshake_CreateClient toy (replicate 32 5) (SHSKeyPair_Regenerate toy [1, 2])
     (ed_public toy [3]) [7] (c_start (replicate 100 0)))"

lemma demo_world_run: "c_run toy demo_world"
  unfolding demo_world_def
  by (rule c_run.step [OF c_run.start c_step.create_client]) (rule prod.collapse [symmetric])

lemma demo_world_client: "cw_heap demo_world 1 = Some (ClientObj demo_c0)"
  by (simp add: demo_world_def SHSHandshake_CreateClient_def c_new_def c_start_def demo_c0_def
      demo_ctx_def SHSKeyPair_Regenerate_def)

lemma demo_c0_sends: "case bytesToSend (client_vt toy) demo_c0 of (Inr bs, _) \<Rightarrow> bs \<noteq> [] | _ \<Rightarrow> False"
  by code_simp

theorem c_calls_return_witness:
  "\<exists>bs w1. SHSHandshake_GetBytesToSend toy 1 demo_world = (Inr bs, w1) \<and> bs \<noteq> []
     \<and> fst (SHSHandshake_SendCompleted toy 1 w1) = Inr ()"
proof -
  obtain bs w1 where b: "SHSHandshake_GetBytesToSend toy 1 demo_world = (Inr bs, w1)"
    "bs \<noteq> [] \<longrightarrow> fst (SHSHandshake_SendCompleted toy 1 w1) = Inr ()"
    using c_calls_return [OF demo_world_run demo_world_client disjI1 [OF refl], of 0 0 0 0, THEN conjunct2,
        THEN conjunct2, THEN conjunct2, THEN conjunct1] by (elim exE conjE) rule
  moreover have "bs \<noteq> []"
    using b(1) demo_c0_sends demo_world_client
    by (auto simp: SHSHandshake_GetBytesToSend_def on_handshake_def split: prod.splits)
  ultimately show ?thesis by simp
qed

end
