(* ===== verification/Crouton_Stream.thy ===== *)
theory Crouton_Stream
  imports Handshake_Safety CryptoStream_Safety
begin

text \<open>
  The adapter for the Crouton library, \<open>crouton/SecretHandshakeStream.cc\<close> and \<open>.hh\<close>: classes
  \<open>SecretHandshake\<close>, which runs the handshake over an \<open>io::IStream\<close>, and \<open>SecretHandshakeStream\<close>,
  which then encrypts and decrypts over it. The wrapped stream is not the repository's code: its
  operations are the fields of a record \<open>io_stream\<close> over some state type, and \<open>io_ok\<close> states what is
  documented of them. A coroutine is the sequence of its steps, an \<open>AWAIT\<close> being a call that may
  return an error; C++ exceptions end a coroutine with an error, too.

  Loops whose length depends on the wrapped stream take fuel; \<open>None\<close> means that it ran out.
\<close>

section \<open>The wrapped stream\<close>

datatype io_error = Thrown cpp_exn | StreamError nat | HandshakeError hs_error | DataError
  | InvalidState

text \<open>The error codes of \<open>SecretHandshakeError\<close>, and the table of their descriptions; an index beyond
  its end is undefined behaviour.\<close>

definition error_code :: "io_error \<Rightarrow> nat option" where
  "error_code e = (case e of HandshakeError ProtocolError \<Rightarrow> Some 1 | HandshakeError AuthError \<Rightarrow> Some 2
     | DataError \<Rightarrow> Some 3 | _ \<Rightarrow> None)"

definition error_description :: "nat \<Rightarrow> cpp_exn + string" where
  "error_description code =
     (let kErrorNames = ['''', ''protocol error'', ''authentication error'', ''data error''] in
      if code < length kErrorNames then Inr (kErrorNames ! code) else Inl UndefinedBehaviour)"

record 'w io_stream =
  io_isOpen :: "'w \<Rightarrow> bool"
  io_open :: "'w \<Rightarrow> (io_error + unit) \<times> 'w"
  io_write :: "bytes \<Rightarrow> 'w \<Rightarrow> (io_error + unit) \<times> 'w"
  io_read :: "nat \<Rightarrow> 'w \<Rightarrow> (io_error + bytes) \<times> 'w"
  io_readNoCopy :: "'w \<Rightarrow> (io_error + bytes) \<times> 'w"
  io_close :: "'w \<Rightarrow> (io_error + unit) \<times> 'w"
  io_closeWrite :: "'w \<Rightarrow> (io_error + unit) \<times> 'w"

text \<open>A read into a buffer returns at most as many bytes as fit; the stream's own errors are not
  C++ exceptions of this code.\<close>

definition io_ok :: "'w io_stream \<Rightarrow> bool" where
  "io_ok io \<longleftrightarrow> (\<forall>n w bs w'. io_read io n w = (Inr bs, w') \<longrightarrow> length bs \<le> n)
     \<and> (\<forall>n w e w'. io_read io n w = (Inl e, w') \<longrightarrow> (\<exists>c. e = StreamError c))
     \<and> (\<forall>bs w e w'. io_write io bs w = (Inl e, w') \<longrightarrow> (\<exists>c. e = StreamError c))
     \<and> (\<forall>w e w'. io_open io w = (Inl e, w') \<longrightarrow> (\<exists>c. e = StreamError c))"

section \<open>SecretHandshake\<close>

definition handshake_vt :: "crypto \<Rightarrow> bool \<Rightarrow> vtable" where
  "handshake_vt C isClient = (if isClient then client_vt C else server_vt C)"

definition SecretHandshake :: "crypto \<Rightarrow> Context \<Rightarrow> bytes option \<Rightarrow> bytes \<Rightarrow> bool \<times> handshake" where
  "SecretHandshake C ctx serverKey x =
     (case serverKey of
        Some pk \<Rightarrow> (True, ClientHandshake C ctx pk x)
      | None \<Rightarrow> (False, ServerHandshake C ctx x))"

definition send_pending :: "vtable \<Rightarrow> 'w io_stream \<Rightarrow> handshake \<Rightarrow> 'w
    \<Rightarrow> (io_error + unit) \<times> handshake \<times> 'w" where
  "send_pending V io h w =
     (case bytesToSend V h of
        (Inl e, h1) \<Rightarrow> (Inl (Thrown e), h1, w)
      | (Inr toSend, h1) \<Rightarrow>
          if toSend \<noteq> [] then
            (case io_write io toSend w of
               (Inl e, w1) \<Rightarrow> (Inl e, h1, w1)
             | (Inr _, w1) \<Rightarrow>
                 (case sendCompleted h1 of
                    (Inl e, h2) \<Rightarrow> (Inl (Thrown e), h2, w1)
                  | (Inr _, h2) \<Rightarrow> (Inr (), h2, w1)))
          else (Inr (), h1, w))"

definition read_needed :: "vtable \<Rightarrow> 'w io_stream \<Rightarrow> handshake \<Rightarrow> 'w
    \<Rightarrow> (io_error + unit) \<times> handshake \<times> 'w" where
  "read_needed V io h w =
     (case bytesToRead V h of (sizeToRead, h1) \<Rightarrow>
        if 0 < sizeToRead then
          (case io_read io sizeToRead w of
             (Inl e, w1) \<Rightarrow> (Inl e, h1, w1)
           | (Inr bs, w1) \<Rightarrow>
               let h2 = h1\<lparr>h_inputBuffer := mem_write (h_inputBuffer h1) 0 bs\<rparr> in
               if length bs = sizeToRead then
                 (case readCompleted V h2 of
                    (Inl e, h3) \<Rightarrow> (Inl (Thrown e), h3, w1)
                  | (Inr _, h3) \<Rightarrow> (Inr (), h3, w1))
               else (Inr (), readFailed h2, w1))
        else (Inr (), h1, w))"

fun handshake_loop :: "nat \<Rightarrow> vtable \<Rightarrow> 'w io_stream \<Rightarrow> handshake \<Rightarrow> 'w
    \<Rightarrow> ((io_error + unit) \<times> handshake \<times> 'w) option" where
  "handshake_loop 0 V io h w = None"
| "handshake_loop (Suc n) V io h w =
     (case send_pending V io h w of
        (Inl e, h1, w1) \<Rightarrow> Some (Inl e, h1, w1)
      | (Inr _, h1, w1) \<Rightarrow>
          (case read_needed V io h1 w1 of
             (Inl e, h2, w2) \<Rightarrow> Some (Inl e, h2, w2)
           | (Inr _, h2, w2) \<Rightarrow>
               if \<not> finished h2 \<and> h_error h2 = NoError then handshake_loop n V io h2 w2
               else Some (Inr (), h2, w2)))"

text \<open>Returns the error or session and what \<open>_handshake\<close> then points to. A failed \<open>precondition\<close>
  ends the program, like an assertion.\<close>

definition SecretHandshake_handshake :: "nat \<Rightarrow> crypto \<Rightarrow> vtable \<Rightarrow> 'w io_stream \<Rightarrow> handshake option
    \<Rightarrow> 'w option \<Rightarrow> ((io_error + Session) \<times> handshake option \<times> 'w option) option" where
  "SecretHandshake_handshake fuel C V io hs raw =
     (case raw of
        None \<Rightarrow> Some (Inl (Thrown AssertFailed), hs, None)
      | Some w \<Rightarrow>
          (case (if io_isOpen io w then (Inr (), w) else io_open io w) of
             (Inl e, w1) \<Rightarrow> Some (Inl e, hs, Some w1)
           | (Inr _, w1) \<Rightarrow>
               (case hs of
                  None \<Rightarrow> Some (Inl (Thrown UndefinedBehaviour), None, Some w1)
                | Some h \<Rightarrow>
                    (case handshake_loop fuel V io h w1 of
                       None \<Rightarrow> None
                     | Some (Inl e, h1, w2) \<Rightarrow> Some (Inl e, Some h1, Some w2)
                     | Some (Inr _, h1, w2) \<Rightarrow>
                         if h_error h1 \<noteq> NoError
                         then Some (Inl (HandshakeError (h_error h1)), None, Some w2)
                         else (case get_session C h1 of
                                 Inl e \<Rightarrow> Some (Inl (Thrown e), Some h1, Some w2)
                               | Inr session \<Rightarrow> Some (Inr session, None, Some w2))))))"

section \<open>SecretHandshakeStream\<close>

text \<open>
  \<open>s_isClient\<close> is the dynamic type of \<open>*_handshake\<close>; \<open>s_delegate\<close> is the delegate's
  \<open>authorizeSecretHandshake\<close>, and \<open>s_notified\<close> counts the calls of its \<open>secretHandshakeStreamClosed\<close>.
\<close>

record 'w SecretHandshakeStream =
  s_stream :: "'w option"
  s_isClient :: bool
  s_handshake :: "handshake option"
  s_delegate :: "(bytes \<Rightarrow> bool) option"
  s_notified :: nat
  s_peerPublicKey :: bytes
  s_writer :: "CryptoStream option"
  s_reader :: "CryptoStream option"
  s_lastReadSize :: nat
  s_lastWriteSize :: nat
  s_open :: bool

type_synonym ('r, 'w) stream_result = "(io_error + 'r) \<times> 'w SecretHandshakeStream"

definition new_SecretHandshakeStream :: "crypto \<Rightarrow> 'w option \<Rightarrow> Context \<Rightarrow> bytes option \<Rightarrow> bytes
    \<Rightarrow> 'w SecretHandshakeStream" where
  "new_SecretHandshakeStream C w ctx serverKey x =
     \<lparr>s_stream = w, s_isClient = fst (SecretHandshake C ctx serverKey x),
      s_handshake = Some (snd (SecretHandshake C ctx serverKey x)),
      s_delegate = None, s_notified = 0, s_peerPublicKey = replicate 32 0,
      s_writer = None, s_reader = None, s_lastReadSize = 0, s_lastWriteSize = 0, s_open = False\<rparr>"

definition setDelegate :: "(bytes \<Rightarrow> bool) option \<Rightarrow> 'w SecretHandshakeStream
    \<Rightarrow> 'w SecretHandshakeStream" where
  "setDelegate d s = s\<lparr>s_delegate := d\<rparr>"

definition isOpen :: "'w SecretHandshakeStream \<Rightarrow> bool" where
  "isOpen s = s_open s"

definition setRawStream :: "'w \<Rightarrow> 'w SecretHandshakeStream \<Rightarrow> 'w SecretHandshakeStream" where
  "setRawStream w s = s\<lparr>s_stream := Some w\<rparr>"

text \<open>\<open>SecretHandshake::setClientAuthorizer\<close>: a null pointer is undefined behaviour, and the
  \<open>dynamic_cast\<close> to \<open>ServerHandshake&\<close> throws for a client.\<close>

definition SecretHandshake_setClientAuthorizer :: "(bytes \<Rightarrow> bool) \<Rightarrow> 'w SecretHandshakeStream
    \<Rightarrow> (unit, 'w) stream_result" where
  "SecretHandshake_setClientAuthorizer auth s =
     (case s_handshake s of
        None \<Rightarrow> (Inl (Thrown UndefinedBehaviour), s)
      | Some h \<Rightarrow> if s_isClient s then (Inl (Thrown BadCast), s)
                  else (Inr (), s\<lparr>s_handshake := Some (setClientAuthorizer (Some auth) h)\<rparr>))"

definition notifyClosed :: "'w SecretHandshakeStream \<Rightarrow> 'w SecretHandshakeStream" where
  "notifyClosed s = (if s_delegate s = None then s else s\<lparr>s_notified := s_notified s + 1\<rparr>)"

definition stream_open :: "nat \<Rightarrow> crypto \<Rightarrow> 'w io_stream \<Rightarrow> 'w SecretHandshakeStream
    \<Rightarrow> (unit, 'w) stream_result option" where
  "stream_open fuel C io s =
     (case (case s_delegate s of
              None \<Rightarrow> (Inr (), s)
            | Some d \<Rightarrow> SecretHandshake_setClientAuthorizer d s) of
        (Inl e, s1) \<Rightarrow> Some (Inl e, s1)
      | (Inr _, s1) \<Rightarrow>
          (case SecretHandshake_handshake fuel C (handshake_vt C (s_isClient s1)) io
                  (s_handshake s1) (s_stream s1) of
             None \<Rightarrow> None
           | Some (r, hs, w) \<Rightarrow>
               let s2 = s1\<lparr>s_handshake := hs, s_stream := w\<rparr> in
               (case r of
                  Inr session \<Rightarrow>
                    Some (Inr (), s2\<lparr>s_peerPublicKey := peerPublicKey session,
                      s_writer := Some (EncryptionStream_of_session session Compact),
                      s_reader := Some (DecryptionStream_of_session session Compact),
                      s_open := True\<rparr>)
                | Inl e \<Rightarrow>
                    (case w of
                       None \<Rightarrow> Some (Inl e, s2)
                     | Some w1 \<Rightarrow>
                         (case io_close io w1 of
                            (Inl e2, w2) \<Rightarrow> Some (Inl e2, s2\<lparr>s_stream := Some w2\<rparr>)
                          | (Inr _, w2) \<Rightarrow>
                              Some (Inl e, notifyClosed (s2\<lparr>s_stream := Some w2\<rparr>)))))))"

definition stream_peerPublicKey :: "'w SecretHandshakeStream \<Rightarrow> cpp_exn + bytes" where
  "stream_peerPublicKey s = (if s_open s then Inr (s_peerPublicKey s) else Inl AssertFailed)"

definition stream_close :: "'w io_stream \<Rightarrow> 'w SecretHandshakeStream \<Rightarrow> (unit, 'w) stream_result" where
  "stream_close io s =
     (let s1 = s\<lparr>s_open := False\<rparr> in
      case s_stream s1 of
        None \<Rightarrow> (Inr (), s1)
      | Some w \<Rightarrow> (case io_close io w of (r, w1) \<Rightarrow> (r, notifyClosed (s1\<lparr>s_stream := Some w1\<rparr>))))"

definition stream_closeWrite :: "'w io_stream \<Rightarrow> 'w SecretHandshakeStream \<Rightarrow> (unit, 'w) stream_result" where
  "stream_closeWrite io s =
     (case s_stream s of
        None \<Rightarrow> (Inl (Thrown AssertFailed), s)
      | Some w \<Rightarrow> (case io_closeWrite io w of (r, w1) \<Rightarrow> (r, s\<lparr>s_stream := Some w1\<rparr>)))"

fun peek_loop :: "nat \<Rightarrow> crypto \<Rightarrow> 'w io_stream \<Rightarrow> CryptoStream \<Rightarrow> 'w \<Rightarrow> 'w SecretHandshakeStream
    \<Rightarrow> (bytes, 'w) stream_result option" where
  "peek_loop 0 C io reader w s = None"
| "peek_loop (Suc n) C io reader w s =
     (if bytesAvailable reader = 0 then
        (case io_readNoCopy io w of
           (Inl e, w1) \<Rightarrow> Some (Inl e, s\<lparr>s_reader := Some reader, s_stream := Some w1\<rparr>)
         | (Inr encBytes, w1) \<Rightarrow>
             if encBytes = [] then
               (case close reader of (ok, r1) \<Rightarrow>
                  let s1 = s\<lparr>s_reader := Some r1, s_stream := Some w1\<rparr> in
                  if ok then Some (Inr [], s1) else Some (Inl DataError, snd (stream_close io s1)))
             else
               (case decryption_push C reader encBytes of
                  (Inl e, r1) \<Rightarrow> Some (Inl (Thrown e), s\<lparr>s_reader := Some r1, s_stream := Some w1\<rparr>)
                | (Inr ok, r1) \<Rightarrow>
                    if \<not> ok
                    then Some (Inl DataError,
                           snd (stream_close io (s\<lparr>s_reader := Some r1, s_stream := Some w1\<rparr>)))
                    else peek_loop n C io r1 w1 s))
      else Some (Inr (availableData reader), s\<lparr>s_reader := Some reader, s_stream := Some w\<rparr>))"

definition peekNoCopy :: "nat \<Rightarrow> crypto \<Rightarrow> 'w io_stream \<Rightarrow> 'w SecretHandshakeStream
    \<Rightarrow> (bytes, 'w) stream_result option" where
  "peekNoCopy fuel C io s =
     (if \<not> s_open s then Some (Inl InvalidState, s)
      else case (s_reader s, s_stream s) of
        (Some reader, Some w) \<Rightarrow>
          let reader' = (if 0 < s_lastReadSize s then snd (skip reader (s_lastReadSize s)) else reader)
          in peek_loop fuel C io reader' w (s\<lparr>s_lastReadSize := 0\<rparr>)
      | _ \<Rightarrow> Some (Inl (Thrown UndefinedBehaviour), s))"

definition readNoCopy :: "nat \<Rightarrow> crypto \<Rightarrow> 'w io_stream \<Rightarrow> nat \<Rightarrow> 'w SecretHandshakeStream
    \<Rightarrow> (bytes, 'w) stream_result option" where
  "readNoCopy fuel C io maxLen s =
     (case peekNoCopy fuel C io s of
        None \<Rightarrow> None
      | Some (Inl e, s1) \<Rightarrow> Some (Inl e, s1)
      | Some (Inr bs, s1) \<Rightarrow>
          let bs' = take maxLen bs in Some (Inr bs', s1\<lparr>s_lastReadSize := length bs'\<rparr>))"

fun push_buffers :: "crypto \<Rightarrow> CryptoStream \<Rightarrow> bytes list \<Rightarrow> (unit, CryptoStream) outcome" where
  "push_buffers C e [] = (Inr (), e)"
| "push_buffers C e (b # bs) =
     ebind (pushPartial C e b) (\<lambda>_ e1. push_buffers C e1 bs) (\<lambda>e1. e1)"

text \<open>\<open>_writer\<close> is dereferenced before \<open>_open\<close> is looked at.\<close>

definition stream_write :: "crypto \<Rightarrow> 'w io_stream \<Rightarrow> bytes list \<Rightarrow> 'w SecretHandshakeStream
    \<Rightarrow> (unit, 'w) stream_result" where
  "stream_write C io buffers s =
     (case s_writer s of
        None \<Rightarrow> (Inl (Thrown UndefinedBehaviour), s)
      | Some writer \<Rightarrow>
          let e0 = snd (skip writer (s_lastWriteSize s));
              s1 = s\<lparr>s_writer := Some e0, s_lastWriteSize := 0\<rparr> in
          if \<not> s_open s then (Inl InvalidState, s1)
          else
            (case ebind (push_buffers C e0 buffers) (\<lambda>_ e. flush C e) (\<lambda>e. e) of
               (Inl x, e1) \<Rightarrow> (Inl (Thrown x), s1\<lparr>s_writer := Some e1\<rparr>)
             | (Inr _, e1) \<Rightarrow>
                 let encBytes = availableData e1;
                     s2 = s1\<lparr>s_writer := Some e1, s_lastWriteSize := length encBytes\<rparr> in
                 (case s_stream s of
                    None \<Rightarrow> (Inl (Thrown UndefinedBehaviour), s2)
                  | Some w \<Rightarrow> (case io_write io encBytes w of (r, w1) \<Rightarrow>
                                (r, s2\<lparr>s_stream := Some w1\<rparr>)))))"

definition stream_write1 :: "crypto \<Rightarrow> 'w io_stream \<Rightarrow> bytes \<Rightarrow> 'w SecretHandshakeStream
    \<Rightarrow> (unit, 'w) stream_result" where
  "stream_write1 C io bs s = stream_write C io [bs] s"

section \<open>SecretHandshakeSocket\<close>

text \<open>
  A client socket: a \<open>SecretHandshakeStream\<close> whose raw stream is a TCP socket made on demand. The
  address that Crouton's base class \<open>ISocket\<close> was bound to is \<open>so_binding\<close>; \<open>tcp\<close> is what Crouton's
  \<open>newSocket\<close>, \<open>bind\<close> and \<open>stream\<close> make of it.
\<close>

record ('b, 'w) SecretHandshakeSocket =
  so_stream :: "'w SecretHandshakeStream"
  so_binding :: "'b option"

definition new_SecretHandshakeSocket :: "crypto \<Rightarrow> Context \<Rightarrow> bytes \<Rightarrow> bytes
    \<Rightarrow> ('b, 'w) SecretHandshakeSocket" where
  "new_SecretHandshakeSocket C ctx serverKey x =
     \<lparr>so_stream = new_SecretHandshakeStream C None ctx (Some serverKey) x, so_binding = None\<rparr>"

definition socket_stream :: "('b \<Rightarrow> 'w) \<Rightarrow> ('b, 'w) SecretHandshakeSocket
    \<Rightarrow> ('w SecretHandshakeStream, ('b, 'w) SecretHandshakeSocket) outcome" where
  "socket_stream tcp so =
     (case s_stream (so_stream so) of
        Some _ \<Rightarrow> (Inr (so_stream so), so)
      | None \<Rightarrow>
          with_val (opt_deref (so_binding so)) so (\<lambda>b.
            let s = setRawStream (tcp b) (so_stream so) in (Inr s, so\<lparr>so_stream := s\<rparr>)))"

definition socket_open :: "nat \<Rightarrow> crypto \<Rightarrow> 'w io_stream \<Rightarrow> ('b \<Rightarrow> 'w) \<Rightarrow> ('b, 'w) SecretHandshakeSocket
    \<Rightarrow> ((io_error + unit) \<times> ('b, 'w) SecretHandshakeSocket) option" where
  "socket_open fuel C io tcp so =
     (case socket_stream tcp so of
        (Inl e, so1) \<Rightarrow> Some (Inl (Thrown e), so1)
      | (Inr s, so1) \<Rightarrow>
          (case stream_open fuel C io s of
             None \<Rightarrow> None
           | Some (r, s1) \<Rightarrow> Some (r, so1\<lparr>so_stream := s1\<rparr>)))"

end
