(* ===== verification/Secret_Connection.thy ===== *)
theory Secret_Connection
  imports Crouton_Stream
begin

text \<open>
  The adapter for Cap'n Proto's KJ library, \<open>capnproto/SecretConnection.cc\<close> and \<open>.hh\<close>: class
  \<open>WrappedStream\<close>, an \<open>AsyncIoStream\<close> that runs the handshake over an inner one and then encrypts
  and decrypts, and the factories \<open>StreamWrapper\<close>, \<open>ClientWrapper\<close> and \<open>ServerWrapper\<close>. The inner
  stream is a record of operations over a state type, as for Crouton; \<open>kj_ok\<close> states what KJ
  documents of them. A promise chain is the sequence of its steps; a call that returns a promise
  may also throw before it returns one, and the two failures have different consequences.
\<close>

section \<open>The inner stream\<close>

datatype kj_error = UnauthorizedClient | HandshakeFailed | CorruptInput | RequireFailed
  | TimedOut | BrokenPromise
  | InnerError nat | KjThrown cpp_exn

text \<open>
  \<open>read\<close> fills the whole buffer or throws; \<open>tryRead\<close> returns fewer bytes than its minimum only at
  the end of the stream. The calls on a socket's address and options return what they store in
  the caller's buffer, whose size they are given; on a stream that is not a socket they throw.
  \<open>inet_ntop\<close>, from the platform, gets an address family and the bytes of an address.
\<close>

record 'w kj_stream =
  kj_write :: "bytes \<Rightarrow> 'w \<Rightarrow> (kj_error + unit) \<times> 'w"
  kj_read :: "nat \<Rightarrow> 'w \<Rightarrow> (kj_error + bytes) \<times> 'w"
  kj_tryRead :: "nat \<Rightarrow> nat \<Rightarrow> 'w \<Rightarrow> (kj_error + bytes) \<times> 'w"
  kj_shutdownWrite :: "'w \<Rightarrow> 'w"
  kj_abortRead :: "'w \<Rightarrow> 'w"
  kj_whenWriteDisconnected :: "'w \<Rightarrow> (kj_error + unit) option"
  kj_getsockopt :: "int \<Rightarrow> int \<Rightarrow> nat \<Rightarrow> 'w \<Rightarrow> (kj_error + bytes) \<times> 'w"
  kj_setsockopt :: "int \<Rightarrow> int \<Rightarrow> bytes \<Rightarrow> 'w \<Rightarrow> (kj_error + unit) \<times> 'w"
  kj_getsockname :: "nat \<Rightarrow> 'w \<Rightarrow> (kj_error + bytes) \<times> 'w"
  kj_getpeername :: "nat \<Rightarrow> 'w \<Rightarrow> (kj_error + bytes) \<times> 'w"
  kj_getFd :: "'w \<Rightarrow> int option"
  inet_ntop :: "nat \<Rightarrow> bytes \<Rightarrow> bytes option"

definition kj_ok :: "'w kj_stream \<Rightarrow> bool" where
  "kj_ok io \<longleftrightarrow> (\<forall>n w bs w'. kj_read io n w = (Inr bs, w') \<longrightarrow> length bs = n)
     \<and> (\<forall>n w e w'. kj_read io n w = (Inl e, w') \<longrightarrow> (\<exists>c. e = InnerError c))
     \<and> (\<forall>bs w e w'. kj_write io bs w = (Inl e, w') \<longrightarrow> (\<exists>c. e = InnerError c))
     \<and> (\<forall>n w e w'. kj_getpeername io n w = (Inl e, w') \<longrightarrow> (\<exists>c. e = InnerError c))"

text \<open>
  What a call that returns a promise has done: it has thrown, or the promise is rejected or
  resolved in the end. For a continuation, and for whoever waits, a call that throws inside
  another continuation is a rejected promise.
\<close>

datatype 'r kj_promise = Throws kj_error | Rejected kj_error | Resolved 'r

fun settle :: "'r kj_promise \<Rightarrow> kj_error + 'r" where
  "settle (Throws e) = Inl e"
| "settle (Rejected e) = Inl e"
| "settle (Resolved r) = Inr r"

fun in_then :: "'r kj_promise \<Rightarrow> 'r kj_promise" where
  "in_then (Throws e) = Rejected e"
| "in_then p = p"

text \<open>
  \<open>getPeerName\<close> of a stream with the given \<open>getpeername\<close>. A \<open>sockaddr_in6\<close> has 28 bytes: the family in
  the first two, the port, the flow label, and \<open>sin6_addr\<close> in 16 bytes at offset 8. If
  \<open>inet_ntop\<close> does not know the family the name stays empty.
\<close>

definition sin6_family :: "bytes \<Rightarrow> nat" where
  "sin6_family addr = unat (addr ! 0) + 256 * unat (addr ! 1)"

definition sin6_addr :: "bytes \<Rightarrow> bytes" where
  "sin6_addr addr = mem_read addr 8 16"

definition getPeerName :: "(nat \<Rightarrow> bytes \<Rightarrow> bytes option) \<Rightarrow> (nat \<Rightarrow> 'w \<Rightarrow> (kj_error + bytes) \<times> 'w) \<Rightarrow> 'w
    \<Rightarrow> (kj_error + bytes) \<times> 'w" where
  "getPeerName ntop getpeername w =
     (case getpeername 28 w of
        (Inl e, w1) \<Rightarrow> (Inl e, w1)
      | (Inr sockaddr, w1) \<Rightarrow>
          let addr = mem_write (replicate 28 0) 0 sockaddr in
          (Inr (case ntop (sin6_family addr) (sin6_addr addr) of None \<Rightarrow> [] | Some name \<Rightarrow> name), w1))"

section \<open>WrappedStream\<close>

record WrappedStream =
  ws_handshake :: "handshake option"
  ws_authorizer :: "(bytes \<Rightarrow> bool) option"
  ws_session :: "Session option"
  ws_encryptor :: "CryptoStream option"
  ws_decryptor :: "CryptoStream option"
  ws_isSocket :: bool

text \<open>The constructor, for the handshake that the factory makes.\<close>

definition new_WrappedStream :: "handshake \<Rightarrow> (bytes \<Rightarrow> bool) option \<Rightarrow> bool \<Rightarrow> WrappedStream" where
  "new_WrappedStream h auth isSocket = \<lparr>ws_handshake = Some h, ws_authorizer = auth, ws_session = None,
     ws_encryptor = None, ws_decryptor = None, ws_isSocket = isSocket\<rparr>"

type_synonym ('r, 'w) kj_result = "(kj_error + 'r) \<times> WrappedStream \<times> 'w"
type_synonym ('r, 'w) kj_call = "'r kj_promise \<times> WrappedStream \<times> 'w"

text \<open>The calls that are passed on to the inner stream.\<close>

definition shutdownWrite :: "'w kj_stream \<Rightarrow> WrappedStream \<Rightarrow> 'w \<Rightarrow> 'w" where
  "shutdownWrite io s w = kj_shutdownWrite io w"

definition whenWriteDisconnected :: "'w kj_stream \<Rightarrow> WrappedStream \<Rightarrow> 'w \<Rightarrow> (kj_error + unit) option" where
  "whenWriteDisconnected io s w = kj_whenWriteDisconnected io w"

definition abortRead :: "'w kj_stream \<Rightarrow> WrappedStream \<Rightarrow> 'w \<Rightarrow> 'w" where
  "abortRead io s w = kj_abortRead io w"

definition getsockopt :: "'w kj_stream \<Rightarrow> WrappedStream \<Rightarrow> int \<Rightarrow> int \<Rightarrow> nat \<Rightarrow> 'w \<Rightarrow> (kj_error + bytes) \<times> 'w" where
  "getsockopt io s level opt len w = kj_getsockopt io level opt len w"

definition setsockopt :: "'w kj_stream \<Rightarrow> WrappedStream \<Rightarrow> int \<Rightarrow> int \<Rightarrow> bytes \<Rightarrow> 'w \<Rightarrow> (kj_error + unit) \<times> 'w" where
  "setsockopt io s level opt v w = kj_setsockopt io level opt v w"

definition getsockname :: "'w kj_stream \<Rightarrow> WrappedStream \<Rightarrow> nat \<Rightarrow> 'w \<Rightarrow> (kj_error + bytes) \<times> 'w" where
  "getsockname io s len w = kj_getsockname io len w"

definition getpeername :: "'w kj_stream \<Rightarrow> WrappedStream \<Rightarrow> nat \<Rightarrow> 'w \<Rightarrow> (kj_error + bytes) \<times> 'w" where
  "getpeername io s len w = kj_getpeername io len w"

definition getFd :: "'w kj_stream \<Rightarrow> WrappedStream \<Rightarrow> 'w \<Rightarrow> int option" where
  "getFd io s w = kj_getFd io w"

definition ws_getPeerName :: "'w kj_stream \<Rightarrow> WrappedStream \<Rightarrow> 'w \<Rightarrow> (kj_error + bytes) \<times> 'w" where
  "ws_getPeerName io s w =
     (if ws_isSocket s then getPeerName (inet_ntop io) (getpeername io s) w else (Inr [], w))"

text \<open>
  A failure of \<open>write\<close> or \<open>read\<close> rejects their promise. What follows them is a continuation, so
  that an exception there, also one thrown by the next call of \<open>runHandshake\<close>, rejects the promise
  of this one. The peer's name is only logged.
\<close>

fun runHandshake :: "nat \<Rightarrow> crypto \<Rightarrow> vtable \<Rightarrow> 'w kj_stream \<Rightarrow> WrappedStream \<Rightarrow> 'w
    \<Rightarrow> (Session, 'w) kj_call option" where
  "runHandshake 0 C V io s w = None"
| "runHandshake (Suc n) C V io s w =
     (case ws_getPeerName io s w of
        (Inl e, w0) \<Rightarrow> Some (Throws e, s, w0)
      | (Inr address, w0) \<Rightarrow>
     (case ws_handshake s of
        None \<Rightarrow> Some (Throws (KjThrown UndefinedBehaviour), s, w0)
      | Some h \<Rightarrow>
          if finished h then
            (case get_session C h of
               Inl e \<Rightarrow> Some (Throws (KjThrown e), s, w0)
             | Inr result \<Rightarrow>
                 let s1 = s\<lparr>ws_handshake := None\<rparr> in
                 (case ws_authorizer s of
                    None \<Rightarrow> Some (Resolved result, s1, w0)
                  | Some auth \<Rightarrow>
                      if \<not> auth (peerPublicKey result) then Some (Rejected UnauthorizedClient, s1, w0)
                      else Some (Resolved result, s1, w0)))
          else
            (case bytesToSend V h of
               (Inl e, h1) \<Rightarrow> Some (Throws (KjThrown e), s\<lparr>ws_handshake := Some h1\<rparr>, w0)
             | (Inr toSend, h1) \<Rightarrow>
                 if toSend \<noteq> [] then
                   (case kj_write io toSend w0 of
                      (Inl e, w1) \<Rightarrow> Some (Rejected e, s\<lparr>ws_handshake := Some h1\<rparr>, w1)
                    | (Inr _, w1) \<Rightarrow>
                        (case sendCompleted h1 of
                           (Inl e, h2) \<Rightarrow> Some (Rejected (KjThrown e), s\<lparr>ws_handshake := Some h2\<rparr>, w1)
                         | (Inr _, h2) \<Rightarrow>
                             map_option (apfst in_then)
                               (runHandshake n C V io (s\<lparr>ws_handshake := Some h2\<rparr>) w1)))
                 else
                   (case bytesToRead V h1 of (readSize, h2) \<Rightarrow>
                      if 0 < readSize then
                        (case kj_read io readSize w0 of
                           (Inl e, w1) \<Rightarrow> Some (Rejected e, s\<lparr>ws_handshake := Some h2\<rparr>, w1)
                         | (Inr bs, w1) \<Rightarrow>
                             let h3 = h2\<lparr>h_inputBuffer := mem_write (h_inputBuffer h2) 0 bs\<rparr> in
                             (case readCompleted V h3 of
                                (Inl e, h4) \<Rightarrow>
                                  Some (Rejected (KjThrown e), s\<lparr>ws_handshake := Some h4\<rparr>, w1)
                              | (Inr _, h4) \<Rightarrow>
                                  map_option (apfst in_then)
                                    (runHandshake n C V io (s\<lparr>ws_handshake := Some h4\<rparr>) w1)))
                      else if h_error h2 = NoError then
                        Some (Throws (KjThrown AssertFailed), s\<lparr>ws_handshake := Some h2\<rparr>, w0)
                      else Some (Rejected HandshakeFailed, s\<lparr>ws_handshake := Some h2\<rparr>, w0)))))"

text \<open>Only a rejected promise of \<open>runHandshake\<close> reaches the error handler of \<open>connect\<close>, which shuts
  the inner stream down.\<close>

definition connect :: "nat \<Rightarrow> crypto \<Rightarrow> vtable \<Rightarrow> 'w kj_stream \<Rightarrow> WrappedStream \<Rightarrow> 'w
    \<Rightarrow> (unit, 'w) kj_call option" where
  "connect fuel C V io s w =
     (case ws_getPeerName io s w of
        (Inl e, w0) \<Rightarrow> Some (Throws e, s, w0)
      | (Inr address, w0) \<Rightarrow>
     (case runHandshake fuel C V io s w0 of
        None \<Rightarrow> None
      | Some (Resolved result, s1, w1) \<Rightarrow>
          Some (Resolved (), s1\<lparr>ws_session := Some result,
            ws_encryptor := Some \<lparr>cs_buffer = [], cs_processedBytes = 0,
              cs_box = \<lparr>cb_key = encryptionKey result, cb_nonce = encryptionNonce result,
                        cb_protocol = Compact\<rparr>\<rparr>,
            ws_decryptor := Some \<lparr>cs_buffer = [], cs_processedBytes = 0,
              cs_box = \<lparr>cb_key = decryptionKey result, cb_nonce = decryptionNonce result,
                        cb_protocol = Compact\<rparr>\<rparr>\<rparr>, w1)
      | Some (Rejected x, s1, w1) \<Rightarrow>
          Some (Rejected x, s1, kj_abortRead io (kj_shutdownWrite io w1))
      | Some (Throws x, s1, w1) \<Rightarrow> Some (Throws x, s1, w1)))"

text \<open>The identity of a peer, by its dynamic class: one of the underlying transport, or the one
  that the handshake has authenticated, with the transport's inside.\<close>

datatype 'i PeerIdentity = TransportIdentity 'i | SHSPeerIdentity bytes 'i

definition getIdentity :: "'i \<Rightarrow> WrappedStream \<Rightarrow> 'i PeerIdentity option" where
  "getIdentity inner s =
     map_option (\<lambda>keys. SHSPeerIdentity (peerPublicKey keys) inner) (ws_session s)"

definition identity_publicKey :: "'i PeerIdentity \<Rightarrow> bytes option" where
  "identity_publicKey p = (case p of SHSPeerIdentity key _ \<Rightarrow> Some key | TransportIdentity _ \<Rightarrow> None)"

definition identity_inner :: "'i PeerIdentity \<Rightarrow> 'i option" where
  "identity_inner p = (case p of SHSPeerIdentity _ i \<Rightarrow> Some i | TransportIdentity _ \<Rightarrow> None)"

definition identity_toString :: "'i PeerIdentity \<Rightarrow> string option" where
  "identity_toString p =
     (case p of SHSPeerIdentity _ _ \<Rightarrow> Some ''(public key)'' | TransportIdentity _ \<Rightarrow> None)"

text \<open>The bytes left in the caller's buffer are returned; their number is the C++ result.\<close>

fun tryRead :: "nat \<Rightarrow> crypto \<Rightarrow> 'w kj_stream \<Rightarrow> nat \<Rightarrow> nat \<Rightarrow> WrappedStream \<Rightarrow> 'w
    \<Rightarrow> (bytes, 'w) kj_result option" where
  "tryRead 0 C io minBytes maxBytes s w = None"
| "tryRead (Suc n) C io minBytes maxBytes s w =
     (case ws_decryptor s of
        None \<Rightarrow> Some (Inl RequireFailed, s, w)
      | Some decryptor \<Rightarrow>
          if minBytes \<le> bytesAvailable decryptor then
            (case pull decryptor maxBytes of (bs, d1) \<Rightarrow>
               Some (Inr bs, s\<lparr>ws_decryptor := Some d1\<rparr>, w))
          else
            (case kj_tryRead io 1 maxBytes w of
               (Inl e, w1) \<Rightarrow> Some (Inl e, s, w1)
             | (Inr bs, w1) \<Rightarrow>
                 if bs = [] then Some (Inr [], s, w1)
                 else
                   (case decryption_push C decryptor bs of
                      (Inl e, d1) \<Rightarrow> Some (Inl (KjThrown e), s\<lparr>ws_decryptor := Some d1\<rparr>, w1)
                    | (Inr ok, d1) \<Rightarrow>
                        if \<not> ok then Some (Inl CorruptInput, s\<lparr>ws_decryptor := Some d1\<rparr>, w1)
                        else tryRead n C io minBytes maxBytes (s\<lparr>ws_decryptor := Some d1\<rparr>) w1)))"

definition endWrite :: "'w kj_stream \<Rightarrow> WrappedStream \<Rightarrow> 'w \<Rightarrow> (unit, 'w) kj_result" where
  "endWrite io s w =
     (case ws_encryptor s of
        None \<Rightarrow> (Inl RequireFailed, s, w)
      | Some e \<Rightarrow>
          let avail = availableData e in
          (case kj_write io avail w of
             (Inl x, w1) \<Rightarrow> (Inl x, s, w1)
           | (Inr _, w1) \<Rightarrow>
               (Inr (), s\<lparr>ws_encryptor := Some (snd (skip e (length avail)))\<rparr>, w1)))"

definition kj_write1 :: "crypto \<Rightarrow> 'w kj_stream \<Rightarrow> bytes \<Rightarrow> WrappedStream \<Rightarrow> 'w
    \<Rightarrow> (unit, 'w) kj_result" where
  "kj_write1 C io buffer s w =
     (case ws_encryptor s of
        None \<Rightarrow> (Inl RequireFailed, s, w)
      | Some e \<Rightarrow>
          (case encryption_push C e buffer of
             (Inl x, e1) \<Rightarrow> (Inl (KjThrown x), s\<lparr>ws_encryptor := Some e1\<rparr>, w)
           | (Inr _, e1) \<Rightarrow> endWrite io (s\<lparr>ws_encryptor := Some e1\<rparr>) w))"

definition kj_writev :: "crypto \<Rightarrow> 'w kj_stream \<Rightarrow> bytes list \<Rightarrow> WrappedStream \<Rightarrow> 'w
    \<Rightarrow> (unit, 'w) kj_result" where
  "kj_writev C io pieces s w =
     (case ws_encryptor s of
        None \<Rightarrow> (Inl RequireFailed, s, w)
      | Some e \<Rightarrow>
          (case ebind (push_buffers C e pieces) (\<lambda>_ e1. flush C e1) (\<lambda>e1. e1) of
             (Inl x, e1) \<Rightarrow> (Inl (KjThrown x), s\<lparr>ws_encryptor := Some e1\<rparr>, w)
           | (Inr _, e1) \<Rightarrow> endWrite io (s\<lparr>ws_encryptor := Some e1\<rparr>) w))"

section \<open>The factories\<close>

text \<open>
  A \<open>StreamWrapper\<close>; the server's key is the member of the subclass \<open>ClientWrapper\<close> and tells the
  two apart. A timer says of a duration whether it has passed before the handshake is over.
\<close>

record StreamWrapper =
  sw_context :: Context
  sw_authorizer :: "(bytes \<Rightarrow> bool) option"
  sw_connectTimeout :: "nat option"
  sw_connectTimer :: "(nat \<Rightarrow> bool) option"
  sw_isSocket :: bool
  sw_serverPublicKey :: "bytes option"

definition new_StreamWrapper :: "Context \<Rightarrow> StreamWrapper" where
  "new_StreamWrapper ctx = \<lparr>sw_context = ctx, sw_authorizer = None, sw_connectTimeout = None,
     sw_connectTimer = None, sw_isSocket = True, sw_serverPublicKey = None\<rparr>"

text \<open>\<open>ServerWrapper\<close> gives its authorizer to the wrapped stream, not to the handshake.\<close>

definition ServerWrapper :: "Context \<Rightarrow> (bytes \<Rightarrow> bool) option \<Rightarrow> StreamWrapper" where
  "ServerWrapper ctx auth = (new_StreamWrapper ctx)\<lparr>sw_authorizer := auth\<rparr>"

definition ClientWrapper :: "Context \<Rightarrow> bytes \<Rightarrow> StreamWrapper" where
  "ClientWrapper ctx serverKey = (new_StreamWrapper ctx)\<lparr>sw_serverPublicKey := Some serverKey\<rparr>"

definition setConnectTimeout :: "nat \<Rightarrow> (nat \<Rightarrow> bool) \<Rightarrow> StreamWrapper \<Rightarrow> StreamWrapper" where
  "setConnectTimeout timeout timer W = W\<lparr>sw_connectTimeout := Some timeout, sw_connectTimer := Some timer\<rparr>"

definition setIsSocket :: "bool \<Rightarrow> StreamWrapper \<Rightarrow> StreamWrapper" where
  "setIsSocket isSocket W = W\<lparr>sw_isSocket := isSocket\<rparr>"

definition isSocket :: "StreamWrapper \<Rightarrow> bool" where
  "isSocket W = sw_isSocket W"

definition authorizer :: "StreamWrapper \<Rightarrow> (bytes \<Rightarrow> bool) option" where
  "authorizer W = sw_authorizer W"

definition serverPublicKey :: "StreamWrapper \<Rightarrow> bytes option" where
  "serverPublicKey W = sw_serverPublicKey W"

definition ServerWrapper_newHandshake :: "crypto \<Rightarrow> Context \<Rightarrow> bytes \<Rightarrow> handshake" where
  "ServerWrapper_newHandshake C ctx x = ServerHandshake C ctx x"

definition ClientWrapper_newHandshake :: "crypto \<Rightarrow> Context \<Rightarrow> bytes \<Rightarrow> bytes \<Rightarrow> handshake" where
  "ClientWrapper_newHandshake C ctx serverKey x = ClientHandshake C ctx serverKey x"

text \<open>The virtual call of \<open>newHandshake\<close>, and the vtable of the object it makes.\<close>

definition newHandshake :: "crypto \<Rightarrow> StreamWrapper \<Rightarrow> bytes \<Rightarrow> vtable \<times> handshake" where
  "newHandshake C W x =
     (case sw_serverPublicKey W of
        None \<Rightarrow> (server_vt C, ServerWrapper_newHandshake C (sw_context W) x)
      | Some pk \<Rightarrow> (client_vt C, ClientWrapper_newHandshake C (sw_context W) pk x))"

text \<open>
  The two \<open>wrap\<close> methods. The wrapped stream owns the one inside it; if the connection cannot be
  made both are destroyed and only the error is left.
\<close>

definition wrap :: "nat \<Rightarrow> crypto \<Rightarrow> 'w kj_stream \<Rightarrow> StreamWrapper \<Rightarrow> bytes \<Rightarrow> 'w
    \<Rightarrow> (WrappedStream \<times> 'w) kj_promise option" where
  "wrap fuel C io W x w =
     (case newHandshake C W x of (V, h) \<Rightarrow>
        case connect fuel C V io (new_WrappedStream h (sw_authorizer W) (sw_isSocket W)) w of
          None \<Rightarrow> None
        | Some (Throws e, _) \<Rightarrow> Some (Throws e)
        | Some (Rejected e, _) \<Rightarrow> Some (Rejected e)
        | Some (Resolved _, conn) \<Rightarrow> Some (Resolved conn))"

text \<open>A stream with its peer's identity; \<open>None\<close> is one that has not been wrapped.\<close>

record ('w, 'i) AuthenticatedStream =
  as_inner :: 'w
  as_wrapped :: "WrappedStream option"
  as_identity :: "'i PeerIdentity option"

text \<open>The timeout, and the check that there is a timer, come after \<open>connect\<close> has returned its promise.\<close>

definition wrap_authenticated :: "nat \<Rightarrow> crypto \<Rightarrow> 'w kj_stream \<Rightarrow> StreamWrapper \<Rightarrow> bytes \<Rightarrow> 'w \<Rightarrow> 'i
    \<Rightarrow> ('w, 'i) AuthenticatedStream kj_promise option" where
  "wrap_authenticated fuel C io W x w innerId =
     (case newHandshake C W x of (V, h) \<Rightarrow>
        case connect fuel C V io (new_WrappedStream h (sw_authorizer W) (sw_isSocket W)) w of
          None \<Rightarrow> None
        | Some (Throws e, _) \<Rightarrow> Some (Throws e)
        | Some (r, conn, w1) \<Rightarrow>
            (let promise = (case r of
                 Resolved _ \<Rightarrow> Resolved \<lparr>as_inner = w1, as_wrapped = Some conn,
                                as_identity = getIdentity innerId conn\<rparr>
               | Rejected e \<Rightarrow> Rejected e
               | Throws e \<Rightarrow> Throws e)
             in case sw_connectTimeout W of
                  None \<Rightarrow> Some promise
                | Some timeout \<Rightarrow>
                    (case sw_connectTimer W of
                       None \<Rightarrow> Some (Throws RequireFailed)
                     | Some elapsed \<Rightarrow>
                         if elapsed timeout then Some (Rejected TimedOut) else Some promise)))"

text \<open>The template \<open>asyncWrap\<close>, for either of the two methods as \<open>wrap_method\<close>, which a continuation of
  the promised stream calls; without a wrapper that stream is returned as it is.\<close>

definition asyncWrap :: "(StreamWrapper \<Rightarrow> 's \<Rightarrow> 't kj_promise option) \<Rightarrow> ('s \<Rightarrow> 't)
    \<Rightarrow> StreamWrapper option \<Rightarrow> kj_error + 's \<Rightarrow> (kj_error + 't) option" where
  "asyncWrap wrap_method unwrapped wrapper streamPromise =
     (case wrapper of
        None \<Rightarrow> Some (map_sum (\<lambda>e. e) unwrapped streamPromise)
      | Some W \<Rightarrow>
          (case streamPromise of Inl e \<Rightarrow> Some (Inl e) | Inr s \<Rightarrow> map_option settle (wrap_method W s)))"

end
