(* ===== verification/Crouton_Safety.thy ===== *)
theory Crouton_Safety
  imports Crouton_Stream Handshake_Network
begin

text \<open>
  The properties of the Crouton adapter. That the handshake loop ends, only makes calls that the
  handshake allows, and ends well or with the handshake's error is proved in the locale
  \<open>handshake_protocol\<close>, for any class that keeps the protocol, and holds for clients and servers
  through its interpretations.
\<close>

section \<open>The handshake loop\<close>

lemma api_run_trans: "api_run V h' h'' \<Longrightarrow> api_run V h h' \<Longrightarrow> api_run V h h''"
  by (induction rule: api_run.induct) (auto intro: api_run.step)

lemma api_run_one: "api_step V h h' \<Longrightarrow> api_run V h h'"
  using api_run.step api_run.start by blast

lemma io_okD:
  assumes "io_ok io"
  shows "io_read io n w = (Inr bs, w') \<Longrightarrow> length bs \<le> n"
    "io_read io n w = (Inl e, w') \<Longrightarrow> \<exists>c. e = StreamError c"
    "io_write io bs w = (Inl e, w') \<Longrightarrow> \<exists>c. e = StreamError c"
    "io_open io w = (Inl e, w') \<Longrightarrow> \<exists>c. e = StreamError c"
  using assms unfolding io_ok_def by metis+

text \<open>How many messages are left.\<close>

definition rank :: "step \<Rightarrow> nat" where
  "rank s = (if live s then 5 - step_num s else 0)"

lemma rank_succ: "live s \<Longrightarrow> rank (step_succ s) < rank s"
  by (cases s) (simp_all add: rank_def live_def)

lemma rank_dead: "\<not> live s \<longleftrightarrow> rank s = 0"
  by (cases s) (simp_all add: rank_def live_def)

context handshake_protocol
begin

lemma readCompleted_full:
  assumes "inv h" "needs (h_step h) \<noteq> 0" "length (h_inputBuffer h) = needs (h_step h)"
    and r: "readCompleted V h = (r, h')"
  shows "\<exists>b. r = Inr b" "h_step h' = step_succ (h_step h) \<or> h_step h' = Failed"
proof -
  have "(\<exists>b. r = Inr b) \<and> (h_step h' = step_succ (h_step h) \<or> h_step h' = Failed)"
    using r
  proof (cases rule: readCompleted_cases)
    case (throw e i)
    then show ?thesis
      using J_recv [OF inv_reading(2) [OF assms(1,2)] _ throw(2,3,1)] assms(1)
      by (auto simp: inv_def)
  qed (use assms(3) in auto)
  then show "\<exists>b. r = Inr b" "h_step h' = step_succ (h_step h) \<or> h_step h' = Failed" by simp_all
qed

lemma send_pending_inv:
  assumes "io_ok io" "inv h" "send_pending V io h w = (r, h', w')"
  shows "inv h' \<and> api_run V h h' \<and> (\<forall>e. r = Inl e \<longrightarrow> (\<exists>c. e = StreamError c))
    \<and> (r = Inr () \<longrightarrow> (if live (h_step h) \<and> needs (h_step h) = 0
         then h_step h' = step_succ (h_step h) else h_step h' = h_step h))"
proof -
  obtain b h1 where b: "bytesToSend V h = (b, h1)" by fastforce
  from bytesToSend_inv [OF assms(2) b] obtain out where
    out: "b = Inr out" "inv h1" "h_step h1 = h_step h" by blast
  then have run1: "api_run V h h1" using api_run_one [OF api_step.bytesToSend [OF b]] by simp
  show ?thesis
  proof (cases "out = []")
    case True
    have "\<not> (live (h_step h) \<and> needs (h_step h) = 0)"
      using inv_buffers [OF assms(2)] b by (cases rule: bytesToSend_cases) (use out True in auto)
    then show ?thesis using True assms(3) out b run1 by (auto simp: send_pending_def)
  next
    case False
    note l = bytesToSend_live [OF inv_buffers [OF assms(2)] b [unfolded out(1)] False]
    obtain u h2 where u: "sendCompleted h1 = (u, h2)" by fastforce
    have "u = Inr ()" "h2 = h1\<lparr>h_outputBuffer := [], h_step := step_succ (h_step h1)\<rparr>"
      using u l False nextStep_live [of "h1\<lparr>h_outputBuffer := []\<rparr>"]
      by (auto simp: sendCompleted_def)
    then have "inv h2" "api_run V h h2" "h_step h2 = step_succ (h_step h)"
      using sendCompleted_inv(2) [OF out(2) u] api_run.step [OF run1 api_step.sendCompleted [OF u]]
        out(3) by simp_all
    moreover have "\<exists>c. e = StreamError c" if "io_write io out w = (Inl e, w1)" for e w1
      using io_okD(3) [OF assms(1) that] .
    ultimately show ?thesis
      using assms(3) b out u \<open>u = Inr ()\<close> run1 l(1,2) False
      by (auto simp: send_pending_def split: prod.splits sum.splits)
  qed
qed

lemma read_bytes_inv:
  assumes "io_ok io" "inv h" "needs (h_step h) \<noteq> 0" "read_needed V io h w = (r, h', w')"
    and q: "io_read io (needs (h_step h)) w = (Inr bs, w1)"
  shows "api_run V h h' \<and> (\<forall>e. r = Inl e \<longrightarrow> (\<exists>c. e = StreamError c))
    \<and> (r = Inr () \<longrightarrow> h_step h' = step_succ (h_step h) \<or> h_step h' = Failed)"
proof -
  let ?n = "needs (h_step h)"
  let ?h1 = "h\<lparr>h_inputBuffer := resize ?n (h_inputBuffer h)\<rparr>"
  let ?h2 = "?h1\<lparr>h_inputBuffer := mem_write (h_inputBuffer ?h1) 0 bs\<rparr>"
  have b: "bytesToRead V h = (?n, ?h1)" by (simp add: bytesToRead_def needed Let_def)
  have len: "length bs \<le> ?n" using io_okD(1) [OF assms(1)] q by simp
  have run2: "api_run V h ?h2"
    using api_run.step [OF api_run_one [OF api_step.bytesToRead [OF b]] api_step.fill_input [of bs]]
      len by simp
  show ?thesis
  proof (cases "length bs = ?n")
    case True
    obtain v h3 where v: "readCompleted V ?h2 = (v, h3)" by fastforce
    note full = readCompleted_full [OF api_run_inv [OF run2 assms(2)] _ _ v]
    then have "v \<noteq> Inl AssertFailed" using assms(3) True by auto
    then have "api_run V h h3" using api_run.step [OF run2 api_step.readCompleted [OF v]] by simp
    then show ?thesis using assms(3,4) b q True v full by (auto simp: read_needed_def)
  next
    case False
    have "api_run V h (readFailed ?h2)" by (rule api_run.step [OF run2 api_step.readFailed])
    then show ?thesis using assms(3,4) b q False by (auto simp: read_needed_def readFailed_def)
  qed
qed

lemma read_needed_inv:
  assumes "io_ok io" "inv h" "read_needed V io h w = (r, h', w')"
  shows "inv h' \<and> api_run V h h' \<and> (\<forall>e. r = Inl e \<longrightarrow> (\<exists>c. e = StreamError c))
    \<and> (r = Inr () \<longrightarrow> (if needs (h_step h) \<noteq> 0
         then h_step h' = step_succ (h_step h) \<or> h_step h' = Failed else h_step h' = h_step h))"
proof -
  let ?n = "needs (h_step h)"
  let ?h1 = "h\<lparr>h_inputBuffer := resize ?n (h_inputBuffer h)\<rparr>"
  have b: "bytesToRead V h = (?n, ?h1)" by (simp add: bytesToRead_def needed Let_def)
  have run1: "api_run V h ?h1" by (rule api_run_one [OF api_step.bytesToRead [OF b]])
  obtain q w1 where q: "io_read io ?n w = (q, w1)" by fastforce
  have "api_run V h h' \<and> (\<forall>e. r = Inl e \<longrightarrow> (\<exists>c. e = StreamError c))
    \<and> (r = Inr () \<longrightarrow> (if ?n \<noteq> 0
         then h_step h' = step_succ (h_step h) \<or> h_step h' = Failed else h_step h' = h_step h))"
  proof (cases "?n = 0 \<or> (\<exists>e. q = Inl e)")
    case True
    then show ?thesis using assms(3) b q run1 io_okD(2) [OF assms(1)]
      by (auto simp: read_needed_def)
  next
    case False
    then obtain bs where "q = Inr bs" by (cases q) auto
    with False q show ?thesis using read_bytes_inv [OF assms(1,2) _ assms(3)] by simp
  qed
  then show ?thesis using api_run_inv [OF _ assms(2)] by blast
qed

lemma inv_error: "inv h \<Longrightarrow> h_error h = NoError \<longleftrightarrow> h_step h \<noteq> Failed"
  by (auto dest!: inv_buffers simp: buffers_ok_iff)

lemma handshake_loop_ends:
  assumes "io_ok io"
  shows "inv h \<Longrightarrow> rank (h_step h) \<le> n \<Longrightarrow> 0 < n \<Longrightarrow>
    \<exists>r h' w'. handshake_loop n V io h w = Some (r, h', w') \<and> inv h' \<and> api_run V h h'
      \<and> (r = Inr () \<longrightarrow> finished h' \<or> h_error h' \<noteq> NoError)
      \<and> (\<forall>e. r = Inl e \<longrightarrow> (\<exists>c. e = StreamError c))"
proof (induction n arbitrary: h w)
  case (Suc n)
  obtain r1 h1 w1 where 1: "send_pending V io h w = (r1, h1, w1)" by (rule prod_cases3)
  note s = send_pending_inv [OF assms Suc.prems(1) 1]
  show ?case
  proof (cases r1)
    case (Inl e)
    then show ?thesis using 1 s by simp
  next
    case (Inr u)
    obtain r2 h2 w2 where 2: "read_needed V io h1 w1 = (r2, h2, w2)" by (rule prod_cases3)
    from s have inv1: "inv h1" and run1: "api_run V h h1" by simp_all
    note t = read_needed_inv [OF assms inv1 2]
    from t have inv2: "inv h2" and run2: "api_run V h h2" using api_run_trans [OF _ run1] by simp_all
    show ?thesis
    proof (cases r2)
      case (Inl e)
      then show ?thesis using 1 2 \<open>r1 = Inr u\<close> t run2 by simp
    next
      case (Inr v)
      show ?thesis
      proof (cases "finished h2 \<or> h_error h2 \<noteq> NoError")
        case True
        then show ?thesis using 1 2 \<open>r1 = Inr u\<close> Inr inv2 run2 by auto
      next
        case False
        then have l2: "live (h_step h2)" using inv_error [OF inv2] by (simp add: live_def finished_def)
        have "rank (h_step h2) < rank (h_step h)"
          using s t \<open>r1 = Inr u\<close> Inr l2 rank_succ needs_live
          by (auto simp: live_def split: if_splits) (metis live_def order_less_trans rank_succ)+
        then have "rank (h_step h2) \<le> n" using Suc.prems(2) by simp
        moreover have "0 < n" using calculation l2 rank_dead by (metis gr0I le_zero_eq)
        ultimately have "\<exists>r h' w'. handshake_loop n V io h2 w2 = Some (r, h', w') \<and> inv h'
            \<and> api_run V h2 h' \<and> (r = Inr () \<longrightarrow> finished h' \<or> h_error h' \<noteq> NoError)
            \<and> (\<forall>e. r = Inl e \<longrightarrow> (\<exists>c. e = StreamError c))"
          by (rule Suc.IH [OF inv2])
        then show ?thesis
          using 1 2 \<open>r1 = Inr u\<close> Inr False api_run_trans [OF _ run2] by auto
      qed
    qed
  qed
qed simp

end

section \<open>Opening\<close>

lemma rank_fresh: "fresh C V h0 \<Longrightarrow> rank (h_step h0) = 4"
  by (auto elim!: fresh.cases simp: ClientHandshake_def ServerHandshake_def new_Handshake_def
      setClientAuthorizer_def rank_def live_def)

lemma fresh_loop_ends:
  assumes "io_ok io" "fresh C V h0" "4 \<le> n"
  shows "\<exists>r h' w'. handshake_loop n V io h0 w = Some (r, h', w') \<and> api_run V h0 h'
      \<and> (r = Inr () \<longrightarrow> finished h' \<and> h_error h' = NoError \<or> \<not> finished h' \<and> h_error h' \<noteq> NoError)
      \<and> (\<forall>e. r = Inl e \<longrightarrow> (\<exists>c. e = StreamError c))"
proof -
  have n: "rank (h_step h0) \<le> n" "0 < n" using rank_fresh [OF assms(2)] assms(3) by simp_all
  from assms(2) api_run.start show ?thesis
  proof (cases rule: fresh_run_cases)
    case (client i0 pk)
    from client_run.handshake_loop_ends [OF assms(1) client(2) n, of w] show ?thesis
      using client_run.inv_error client(1) by (fastforce simp: finished_def)
  next
    case (server i0 auth)
    from server_run.handshake_loop_ends [OF assms(1) server(2) n, of w] show ?thesis
      using server_run.inv_error server(1) by (fastforce simp: finished_def)
  qed
qed

lemma handshake_outcome:
  assumes "io_ok io" "fresh C V h0" "4 \<le> fuel"
  shows "\<exists>r hs w'. SecretHandshake_handshake fuel C V io (Some h0) (Some w) = Some (r, hs, Some w')
    \<and> (case r of
         Inr session \<Rightarrow> hs = None \<and> (\<exists>h. api_run V h0 h \<and> finished h \<and> get_session C h = Inr session)
       | Inl (HandshakeError err) \<Rightarrow> hs = None \<and> err \<noteq> NoError \<and> (\<exists>h. api_run V h0 h \<and> h_error h = err)
       | Inl e \<Rightarrow> \<exists>c. e = StreamError c)"
proof -
  obtain q w1 where q: "(if io_isOpen io w then (Inr (), w) else io_open io w) = (q, w1)" by fastforce
  show ?thesis
  proof (cases q)
    case (Inl e)
    then have "\<exists>c. e = StreamError c" using q io_okD(4) [OF assms(1)] by (auto split: if_splits)
    then show ?thesis using q Inl by (auto simp: SecretHandshake_handshake_def)
  next
    case (Inr u)
    from fresh_loop_ends [OF assms, of w1] obtain r h' w' where
      l: "handshake_loop fuel V io h0 w1 = Some (r, h', w')" "api_run V h0 h'"
        "r = Inr () \<longrightarrow> finished h' \<and> h_error h' = NoError \<or> \<not> finished h' \<and> h_error h' \<noteq> NoError"
        "\<forall>e. r = Inl e \<longrightarrow> (\<exists>c. e = StreamError c)" by blast
    have eq: "SecretHandshake_handshake fuel C V io (Some h0) (Some w) =
        (case r of Inl e \<Rightarrow> Some (Inl e, Some h', Some w')
         | Inr _ \<Rightarrow> if h_error h' \<noteq> NoError
             then Some (Inl (HandshakeError (h_error h')), None, Some w')
             else (case get_session C h' of
                     Inl e \<Rightarrow> Some (Inl (Thrown e), Some h', Some w')
                   | Inr session \<Rightarrow> Some (Inr session, None, Some w')))"
      using q Inr l(1) by (simp add: SecretHandshake_handshake_def split: sum.splits)
    show ?thesis
    proof (cases r)
      case (Inl e)
      then show ?thesis using eq l(4) by auto
    next
      case (Inr v)
      show ?thesis
      proof (cases "h_error h' = NoError")
        case True
        then have "finished h'" using l(3) Inr by simp
        moreover from this obtain s where "get_session C h' = Inr s"
          using fresh_session [OF assms(2) l(2)] by blast
        ultimately show ?thesis using eq True Inr l(2) by auto
      next
        case False
        then show ?thesis using eq Inr l(2) by auto
      qed
    qed
  qed
qed

lemma new_stream_fresh:
  assumes "SecretHandshake C ctx serverKey x = (isClient, h)"
  shows "fresh C (handshake_vt C isClient) h"
proof -
  have "setClientAuthorizer None (ServerHandshake C ctx x) = ServerHandshake C ctx x"
    by (simp add: setClientAuthorizer_def ServerHandshake_def new_Handshake_def)
  then show ?thesis
    using assms fresh.client [of C ctx] fresh.server [of C None ctx x]
    by (auto simp: SecretHandshake_def handshake_vt_def split: option.splits)
qed

section \<open>A stream in memory\<close>

text \<open>An instance of the wrapped stream for the examples: the bytes still to be received and the
  bytes sent.\<close>

definition mem_io :: "(bytes \<times> bytes) io_stream" where
  "mem_io = \<lparr>io_isOpen = (\<lambda>_. True), io_open = (\<lambda>w. (Inr (), w)),
     io_write = (\<lambda>bs (i, o'). (Inr (), (i, o' @ bs))),
     io_read = (\<lambda>n (i, o'). (Inr (take n i), (drop n i, o'))),
     io_readNoCopy = (\<lambda>(i, o'). (Inr (take 100 i), (drop 100 i, o'))),
     io_close = (\<lambda>w. (Inr (), w)), io_closeWrite = (\<lambda>w. (Inr (), w))\<rparr>"

lemma mem_io_ok: "io_ok mem_io"
  by (auto simp: io_ok_def mem_io_def)

section \<open>Properties\<close>

text \<open>
  C22: the handshake over any stream ends after at most four rounds of the loop. It returns either
  the session of a run of the handshake that has finished, or the error code of one that has
  failed, or an error of the wrapped stream; no exception of the handshake's own (misuse of its
  interface, failed assertion, empty optional) can come out of it.
\<close>

theorem crouton_handshake_outcome:
  assumes "io_ok io" "SecretHandshake C ctx serverKey x = (isClient, h0)" "4 \<le> fuel"
  shows "\<exists>r hs w'. SecretHandshake_handshake fuel C (handshake_vt C isClient) io (Some h0) (Some w)
      = Some (r, hs, Some w')
    \<and> (case r of
         Inr session \<Rightarrow> hs = None \<and> (\<exists>h. api_run (handshake_vt C isClient) h0 h \<and> finished h
           \<and> get_session C h = Inr session)
       | Inl (HandshakeError err) \<Rightarrow> hs = None \<and> err \<noteq> NoError
           \<and> (\<exists>h. api_run (handshake_vt C isClient) h0 h \<and> h_error h = err)
       | Inl e \<Rightarrow> \<exists>c. e = StreamError c)"
  using handshake_outcome [OF assms(1) new_stream_fresh [OF assms(2)] assms(3)] .


theorem crouton_handshake_outcome_witness:
  "\<exists>r hs w'. SecretHandshake_handshake 4 toy (handshake_vt toy False) mem_io
       (Some (ServerHandshake toy (demo_ctx [3]) [9])) (Some (replicate 70 1, [])) = Some (r, hs, Some w')
     \<and> (\<forall>e. r \<noteq> Inl (Thrown e))"
  using crouton_handshake_outcome [OF mem_io_ok, of toy "demo_ctx [3]" None "[9]" False
      "ServerHandshake toy (demo_ctx [3]) [9]" 4 "(replicate 70 1, [])"]
  by (fastforce simp: SecretHandshake_def split: sum.splits io_error.splits)

text \<open>The handshake object that \<open>open\<close> runs on a new stream, and the signature by which the peer has
  identified itself to it: on the client the server's, on the server the client's.\<close>

definition opened_handshake :: "crypto \<Rightarrow> Context \<Rightarrow> bytes option \<Rightarrow> (bytes \<Rightarrow> bool) option \<Rightarrow> bytes
    \<Rightarrow> handshake" where
  "opened_handshake C ctx serverKey d x =
     (case serverKey of
        Some pk \<Rightarrow> ClientHandshake C ctx pk x
      | None \<Rightarrow> setClientAuthorizer d (ServerHandshake C ctx x))"

definition peer_signed :: "crypto \<Rightarrow> Context \<Rightarrow> bytes option \<Rightarrow> handshake \<Rightarrow> bytes \<Rightarrow> bool" where
  "peer_signed C ctx serverKey h pk \<longleftrightarrow>
     (\<exists>H hashab. hs_H (h_impl h) = Some H \<and> hs_hashab (h_impl h) = Some hashab
        \<and> (if serverKey = None
           then ed_check C pk (range_of 0 64 H) (appID ctx @ publicKey (keyPair ctx) @ hashab)
           else \<exists>sig. ed_check C pk sig (appID ctx @ H @ hashab)))"

lemma opened_session:
  assumes "api_run (handshake_vt C (serverKey \<noteq> None)) (opened_handshake C ctx serverKey d x) h"
    "finished h" "get_session C h = Inr s"
  shows "serverKey = Some pk \<Longrightarrow> peerPublicKey s = pk"
    "serverKey = None \<Longrightarrow> d = Some f \<Longrightarrow> f (peerPublicKey s)"
    "peer_signed C ctx serverKey h (peerPublicKey s)"
proof -
  have c: "api_run (client_vt C) (ClientHandshake C ctx k x) h" if "serverKey = Some k" for k
    using that assms(1) by (simp add: handshake_vt_def opened_handshake_def)
  have v: "api_run (server_vt C) (setClientAuthorizer d (ServerHandshake C ctx x)) h" if "serverKey = None"
    using that assms(1) by (simp add: handshake_vt_def opened_handshake_def)
  show pk: "serverKey = Some pk \<Longrightarrow> peerPublicKey s = pk" for pk
    using client_session [OF c assms(2)] assms(3) by auto
  show "serverKey = None \<Longrightarrow> d = Some f \<Longrightarrow> f (peerPublicKey s)"
    using server_session [OF v assms(2)] assms(3) by auto
  show "peer_signed C ctx serverKey h (peerPublicKey s)"
    using client_signed [OF c assms(2)] server_signed [OF v assms(2,3)] pk
    by (cases serverKey) (auto simp: peer_signed_def)
qed

lemma opened_fresh: "fresh C (handshake_vt C (serverKey \<noteq> None)) (opened_handshake C ctx serverKey d x)"
  using fresh.client [of C ctx _ x] fresh.server [of C d ctx x]
  by (cases serverKey) (auto simp: handshake_vt_def opened_handshake_def)

text \<open>The object after \<open>open\<close> has installed the delegate; on a client that already throws.\<close>

lemma open_installs_delegate:
  assumes "s = setDelegate d (new_SecretHandshakeStream C (Some w) ctx serverKey x)"
    "stream_open fuel C io s = Some (Inr (), s')"
  shows "(case s_delegate s of None \<Rightarrow> (Inr (), s) | Some f \<Rightarrow> SecretHandshake_setClientAuthorizer f s)
    = (Inr (), s\<lparr>s_handshake := Some (opened_handshake C ctx serverKey d x)\<rparr>)"
proof -
  have "setClientAuthorizer None (ServerHandshake C ctx x) = ServerHandshake C ctx x"
    by (simp add: setClientAuthorizer_def ServerHandshake_def new_Handshake_def)
  then show ?thesis using assms
    by (auto simp: setDelegate_def new_SecretHandshakeStream_def stream_open_def SecretHandshake_def
        SecretHandshake_setClientAuthorizer_def opened_handshake_def split: option.splits)
qed

lemma stream_open_peer:
  assumes "io_ok io" "4 \<le> fuel"
    and "s = setDelegate d (new_SecretHandshakeStream C (Some w) ctx serverKey x)"
    and "stream_open fuel C io s = Some (Inr (), s')"
  shows "isOpen s' \<and> (\<forall>pk. serverKey = Some pk \<longrightarrow> s_peerPublicKey s' = pk)
    \<and> (\<forall>f. serverKey = None \<and> d = Some f \<longrightarrow> f (s_peerPublicKey s'))
    \<and> (\<exists>session h w'. SecretHandshake_handshake fuel C (handshake_vt C (serverKey \<noteq> None)) io
             (Some (opened_handshake C ctx serverKey d x)) (Some w) = Some (Inr session, None, Some w')
         \<and> api_run (handshake_vt C (serverKey \<noteq> None)) (opened_handshake C ctx serverKey d x) h
         \<and> finished h \<and> get_session C h = Inr session
         \<and> peer_signed C ctx serverKey h (s_peerPublicKey s')
         \<and> s_writer s' = Some (EncryptionStream_of_session session Compact)
         \<and> s_reader s' = Some (DecryptionStream_of_session session Compact)
         \<and> s_peerPublicKey s' = peerPublicKey session
         \<and> s_handshake s' = None \<and> s_stream s' = Some w')"
proof -
  let ?V = "handshake_vt C (serverKey \<noteq> None)" and ?h0 = "opened_handshake C ctx serverKey d x"
  from handshake_outcome [OF assms(1) opened_fresh assms(2), of C serverKey ctx d x w] obtain r hs' w' where
    o: "SecretHandshake_handshake fuel C ?V io (Some ?h0) (Some w) = Some (r, hs', Some w')"
    "case r of Inr session \<Rightarrow> hs' = None \<and> (\<exists>h. api_run ?V ?h0 h \<and> finished h \<and> get_session C h = Inr session)
       | Inl (HandshakeError err) \<Rightarrow> hs' = None \<and> err \<noteq> NoError \<and> (\<exists>h. api_run ?V ?h0 h \<and> h_error h = err)
       | Inl e \<Rightarrow> \<exists>c. e = StreamError c" by blast
  have st: "s_isClient s = (serverKey \<noteq> None)" "s_stream s = Some w"
    using assms(3) by (auto simp: setDelegate_def new_SecretHandshakeStream_def SecretHandshake_def
        split: option.splits)
  from assms(4) open_installs_delegate [OF assms(3,4)] o(1) st obtain session where r: "r = Inr session"
    and s': "s' = s\<lparr>s_handshake := hs', s_stream := Some w', s_peerPublicKey := peerPublicKey session,
      s_writer := Some (EncryptionStream_of_session session Compact),
      s_reader := Some (DecryptionStream_of_session session Compact), s_open := True\<rparr>"
    by (auto simp: stream_open_def Let_def split: sum.splits prod.splits)
  from o(2) r obtain h' where h': "hs' = None" "api_run ?V ?h0 h'" "finished h'" "get_session C h' = Inr session"
    by auto
  show ?thesis using opened_session [OF h'(2-4)] s' h' o(1) r
    by (intro conjI exI [of _ session] exI [of _ h'] exI [of _ w']) (auto simp: isOpen_def)
qed

lemma socket_open_stream:
  assumes "so = (new_SecretHandshakeSocket C ctx pk x)\<lparr>so_binding := Some b\<rparr>"
  shows "socket_open fuel C io tcp so = map_option (\<lambda>(r, s). (r, so\<lparr>so_stream := s\<rparr>))
      (stream_open fuel C io (new_SecretHandshakeStream C (Some (tcp b)) ctx (Some pk) x))"
  by (simp add: assms socket_open_def socket_stream_def new_SecretHandshakeSocket_def setRawStream_def
      new_SecretHandshakeStream_def Let_def split: option.split)

text \<open>
  C21: a stream that has been opened is connected to the right peer. On a client it is the server
  whose key the stream was created for; on a server with a delegate it is a client that the
  delegate's \<open>authorizeSecretHandshake\<close> has accepted. The handshake was run on the wrapped stream
  with the keys the stream was created with and has finished; the peer has proved itself to it by
  a signature, under the peer's key, on what was agreed in this run. The stream is then open and
  drops the handshake, both of its encryption streams start out empty with the keys of the session
  of that very run, and it goes on where the handshake left the wrapped stream. The same holds of
  the stream of a \<open>SecretHandshakeSocket\<close> that was bound to an address and opened, over the socket
  that was made for the address.
\<close>

theorem opened_stream_peer:
  assumes "io_ok io" "4 \<le> fuel"
    and "stream_open fuel C io (setDelegate d (new_SecretHandshakeStream C (Some w) ctx serverKey x))
      = Some (Inr (), s') \<or>
      serverKey = Some pk \<and> w = tcp b \<and> so = (new_SecretHandshakeSocket C ctx pk x)\<lparr>so_binding := Some b\<rparr>
      \<and> socket_open fuel C io tcp so = Some (Inr (), so\<lparr>so_stream := s'\<rparr>)"
  shows "isOpen s' \<and> (\<forall>pk. serverKey = Some pk \<longrightarrow> s_peerPublicKey s' = pk)
    \<and> (\<forall>f. serverKey = None \<and> d = Some f \<longrightarrow> f (s_peerPublicKey s'))
    \<and> (\<exists>session h w'. SecretHandshake_handshake fuel C (handshake_vt C (serverKey \<noteq> None)) io
             (Some (opened_handshake C ctx serverKey d x)) (Some w) = Some (Inr session, None, Some w')
         \<and> api_run (handshake_vt C (serverKey \<noteq> None)) (opened_handshake C ctx serverKey d x) h
         \<and> finished h \<and> get_session C h = Inr session
         \<and> peer_signed C ctx serverKey h (s_peerPublicKey s')
         \<and> s_writer s' = Some (EncryptionStream_of_session session Compact)
         \<and> s_reader s' = Some (DecryptionStream_of_session session Compact)
         \<and> s_peerPublicKey s' = peerPublicKey session
         \<and> s_handshake s' = None \<and> s_stream s' = Some w')"
  using assms(3)
proof (elim disjE conjE)
  assume "stream_open fuel C io (setDelegate d (new_SecretHandshakeStream C (Some w) ctx serverKey x))
      = Some (Inr (), s')"
  then show ?thesis by (rule stream_open_peer [OF assms(1,2) refl])
next
  assume so: "serverKey = Some pk" "w = tcp b" "so = (new_SecretHandshakeSocket C ctx pk x)\<lparr>so_binding := Some b\<rparr>"
    "socket_open fuel C io tcp so = Some (Inr (), so\<lparr>so_stream := s'\<rparr>)"
  obtain s'' where s'': "so\<lparr>so_stream := s''\<rparr> = so\<lparr>so_stream := s'\<rparr>"
    "stream_open fuel C io (new_SecretHandshakeStream C (Some (tcp b)) ctx serverKey x) = Some (Inr (), s'')"
    using trans [OF socket_open_stream [OF so(3), symmetric] so(4)] by (auto simp: so(1))
  have "s'' = s'" using arg_cong [OF s''(1), of so_stream] by simp
  with s''(2) have "stream_open fuel C io (setDelegate None
      (new_SecretHandshakeStream C (Some w) ctx serverKey x)) = Some (Inr (), s')"
    by (simp add: so(2) setDelegate_def new_SecretHandshakeStream_def)
  note opened = stream_open_peer [OF assms(1,2) refl this]
  have "opened_handshake C ctx serverKey None x = opened_handshake C ctx serverKey d x"
    by (simp add: so(1) opened_handshake_def)
  with opened so(1) show ?thesis by (metis option.distinct(1))
qed

text \<open>A client whose incoming bytes are the two messages of the server of the example.\<close>

definition demo_stream :: "(bytes \<times> bytes) SecretHandshakeStream" where
  "demo_stream = new_SecretHandshakeStream toy
     (Some (script toy (replicate 32 5) [1, 2] [7] [3] [9] ServerChallenge
            @ script toy (replicate 32 5) [1, 2] [7] [3] [9] ServerAck, []))
     (demo_ctx [1, 2]) (Some (ed_public toy [3])) [7]"

lemma demo_stream_opens:
  "case stream_open 4 toy mem_io demo_stream of Some (Inr _, s') \<Rightarrow> True | _ \<Rightarrow> False"
  by code_simp

theorem opened_stream_peer_witness:
  "\<exists>s'. stream_open 4 toy mem_io demo_stream = Some (Inr (), s') \<and> isOpen s'
     \<and> s_peerPublicKey s' = ed_public toy [3]"
proof -
  obtain s' where s': "stream_open 4 toy mem_io demo_stream = Some (Inr (), s')"
    using demo_stream_opens by (auto split: option.splits prod.splits sum.splits)
  have "setDelegate None demo_stream = demo_stream"
    by (simp add: demo_stream_def setDelegate_def new_SecretHandshakeStream_def)
  with s' have "stream_open 4 toy mem_io (setDelegate None demo_stream) = Some (Inr (), s')" by simp
  from opened_stream_peer [OF mem_io_ok order_refl disjI1 [OF this [unfolded demo_stream_def]]] s'
  show ?thesis by blast
qed


text \<open>
  A stream created for a client cannot be opened once it has a delegate. \<open>open\<close> passes the
  delegate's authorizer to the handshake, whose cast to \<open>ServerHandshake&\<close> throws \<open>bad_cast\<close>; no
  byte is sent, the wrapped stream is left open, and the delegate is not told.
\<close>

lemma client_delegate_breaks_open:
  "stream_open fuel C io (setDelegate (Some d) (new_SecretHandshakeStream C w ctx (Some pk) x))
     = Some (Inl (Thrown BadCast), setDelegate (Some d) (new_SecretHandshakeStream C w ctx (Some pk) x))"
  by (simp add: stream_open_def setDelegate_def new_SecretHandshakeStream_def SecretHandshake_def
      SecretHandshake_setClientAuthorizer_def)

text \<open>A stream that was never opened has no encryptor yet.\<close>

lemma write_before_open:
  "fst (stream_write C io buffers (new_SecretHandshakeStream C w ctx serverKey x))
     = Inl (Thrown UndefinedBehaviour)"
  by (simp add: stream_write_def new_SecretHandshakeStream_def)

text \<open>What \<open>write\<close> finds and leaves: all output of the encryptor has been handed to the wrapped
  stream and will be skipped next time.\<close>

definition writer_ok :: "'w SecretHandshakeStream \<Rightarrow> CryptoStream \<Rightarrow> bool" where
  "writer_ok s e \<longleftrightarrow> s_writer s = Some e \<and> stream_ok e \<and> pending e = []
     \<and> s_lastWriteSize s = bytesAvailable e"

lemma push_buffers_stream:
  assumes "crypto_ok C"
  shows "length t \<le> 0xFFFF \<Longrightarrow> \<exists>ms t'. push_buffers C (stream r t b) bufs
      = (Inr (), stream (r @ seal_messages C b ms) t' ((next_box C ^^ length ms) b))
    \<and> messages ms \<and> concat ms @ t' = t @ concat bufs \<and> length t' \<le> 0xFFFF"
proof (induction bufs arbitrary: r t b)
  case Nil
  then show ?case by (intro exI [of _ "[]"] exI [of _ t]) simp
next
  case (Cons d ds)
  from pushPartial_stream [OF assms Cons.prems, of r b d] obtain ms t' where 1:
    "pushPartial C (stream r t b) d
       = (Inr (), stream (r @ seal_messages C b ms) t' ((next_box C ^^ length ms) b))"
    "messages ms" "concat ms @ t' = t @ d" "length t' \<le> 0xFFFF" by blast
  from Cons.IH [OF 1(4), of "r @ seal_messages C b ms" "(next_box C ^^ length ms) b"] obtain ns t2
    where 2: "push_buffers C (stream (r @ seal_messages C b ms) t' ((next_box C ^^ length ms) b)) ds
       = (Inr (), stream ((r @ seal_messages C b ms) @ seal_messages C ((next_box C ^^ length ms) b) ns)
            t2 ((next_box C ^^ length ns) ((next_box C ^^ length ms) b)))"
    "messages ns" "concat ns @ t2 = t' @ concat ds" "length t2 \<le> 0xFFFF" by blast
  have "(next_box C ^^ length ns) ((next_box C ^^ length ms) b) = (next_box C ^^ length (ms @ ns)) b"
    by (simp add: funpow_add [symmetric, THEN fun_cong, simplified] add.commute)
  then show ?case
    using 1 2 by (intro exI [of _ "ms @ ns"] exI [of _ t2]) (simp add: seal_all_append)
qed

lemma push_buffers_flush:
  assumes "crypto_ok C"
  shows "\<exists>ms. ebind (push_buffers C (stream r [] b) bufs) (\<lambda>_ e. flush C e) (\<lambda>e. e)
      = (Inr (), stream (r @ seal_messages C b ms) [] ((next_box C ^^ length ms) b))
    \<and> messages ms \<and> concat ms = concat bufs"
proof -
  from push_buffers_stream [OF assms, of "[]" r b bufs] obtain ms t' where
    p: "push_buffers C (stream r [] b) bufs
      = (Inr (), stream (r @ seal_messages C b ms) t' ((next_box C ^^ length ms) b))"
      "messages ms" "concat ms @ t' = concat bufs" "length t' \<le> 0xFFFF" by auto
  let ?ns = "if t' = [] then ms else ms @ [t']"
  have "flush C (stream (r @ seal_messages C b ms) t' ((next_box C ^^ length ms) b))
      = (Inr (), stream (r @ seal_messages C b ?ns) [] ((next_box C ^^ length ?ns) b))"
    using flush_stream [OF assms p(4)] by (simp add: flushed_def seal_all_append)
  then show ?thesis using p by (intro exI [of _ ?ns]) (auto split: if_splits)
qed

lemma stream_write_sends:
  assumes "crypto_ok C" "s_open s" "writer_ok s e" "s_stream s = Some w"
  shows "\<exists>ms s' e'. messages ms \<and> concat ms = concat buffers
    \<and> stream_write C io buffers s
        = (fst (io_write io (seal_all (frame C) (next_box C) (cs_box e) ms) w), s')
    \<and> s_stream s' = Some (snd (io_write io (seal_all (frame C) (next_box C) (cs_box e) ms) w))
    \<and> writer_ok s' e' \<and> cs_box e' = (next_box C ^^ length ms) (cs_box e) \<and> s_open s'"
proof -
  have e: "e = stream (availableData e) [] (cs_box e)" "s_writer s = Some e"
    "s_lastWriteSize s = length (availableData e)"
    using assms(3) stream_view [of e]
    by (auto simp: writer_ok_def availableData_def bytesAvailable_def stream_ok_def)
  have skip: "snd (skip e (s_lastWriteSize s)) = stream [] [] (cs_box e)"
    using e skip_stream [of "availableData e" "[]" "cs_box e" "s_lastWriteSize s"] by simp
  from push_buffers_flush [OF assms(1), of "[]" "cs_box e" buffers] obtain ms where ms:
    "ebind (push_buffers C (stream [] [] (cs_box e)) buffers) (\<lambda>_ e. flush C e) (\<lambda>e. e)
      = (Inr (), stream (seal_messages C (cs_box e) ms) [] ((next_box C ^^ length ms) (cs_box e)))"
    "messages ms" "concat ms = concat buffers" by auto
  let ?e' = "stream (seal_messages C (cs_box e) ms) [] ((next_box C ^^ length ms) (cs_box e))"
  let ?q = "io_write io (seal_messages C (cs_box e) ms) w"
  let ?s' = "s\<lparr>s_writer := Some ?e', s_lastWriteSize := length (seal_messages C (cs_box e) ms),
    s_stream := Some (snd ?q)\<rparr>"
  have "stream_write C io buffers s = (fst ?q, ?s')"
    using assms(2,4) e(2) skip ms(1) by (simp add: stream_write_def Let_def split: prod.split)
  moreover have "writer_ok ?s' ?e'" by (simp add: writer_ok_def)
  ultimately show ?thesis using ms assms(2)
    by (intro exI [of _ ms] exI [of _ ?s'] exI [of _ ?e']) simp
qed

text \<open>
  C23: \<open>write\<close> on an open stream hands to the wrapped stream, in one call, exactly the frames of a
  cutting of the given buffers into messages, under consecutive nonces, and nothing of an
  earlier write; it reports what the wrapped stream reports. The stream is then ready for the
  next write, also if this one failed.
\<close>

theorem crouton_write_sends:
  assumes "crypto_ok C" "s_open s" "writer_ok s e" "s_stream s = Some w"
  shows "\<exists>ms s' e'. messages ms \<and> concat ms = concat buffers
    \<and> stream_write C io buffers s
        = (fst (io_write io (seal_all (frame C) (next_box C) (cs_box e) ms) w), s')
    \<and> s_stream s' = Some (snd (io_write io (seal_all (frame C) (next_box C) (cs_box e) ms) w))
    \<and> writer_ok s' e' \<and> cs_box e' = (next_box C ^^ length ms) (cs_box e) \<and> s_open s'"
  using assms by (rule stream_write_sends)

theorem crouton_write_sends_witness:
  "\<exists>ms s'. concat ms = [1, 2, 3]
     \<and> stream_write toy mem_io [[1], [], [2, 3]] (demo_stream\<lparr>s_open := True,
         s_writer := Some (stream [8, 9] [] (demo_box Compact)), s_lastWriteSize := 2\<rparr>) = (Inr (), s')
     \<and> snd (the (s_stream s')) = seal_messages toy (demo_box Compact) ms"
proof -
  let ?s = "demo_stream\<lparr>s_open := True,
     s_writer := Some (stream [8, 9] [] (demo_box Compact)), s_lastWriteSize := 2\<rparr>"
  obtain i where i: "s_stream ?s = Some (i, [])"
    by (simp add: demo_stream_def new_SecretHandshakeStream_def)
  have "writer_ok ?s (stream [8, 9] [] (demo_box Compact))" "s_open ?s"
    by (simp_all add: writer_ok_def)
  from crouton_write_sends [OF toy_ok this(2,1) i, of "[[1], [], [2, 3]]" mem_io]
  show ?thesis by (auto simp: mem_io_def)
qed


text \<open>Successive reads of a stream that return data, and pushing what they return.\<close>

inductive stream_reads :: "('w \<Rightarrow> ('e + bytes) \<times> 'w) \<Rightarrow> 'w \<Rightarrow> bytes list \<Rightarrow> 'w \<Rightarrow> bool" for rd where
  none: "stream_reads rd w [] w"
| more: "rd w = (Inr b, w1) \<Longrightarrow> b \<noteq> [] \<Longrightarrow> stream_reads rd w1 bs w'
    \<Longrightarrow> stream_reads rd w (b # bs) w'"

fun push_all :: "crypto \<Rightarrow> CryptoStream \<Rightarrow> bytes list \<Rightarrow> (bool, CryptoStream) outcome" where
  "push_all C r [] = (Inr True, r)"
| "push_all C r (c # cs) = ebind (decryption_push C r c)
     (\<lambda>ok r1. if ok then push_all C r1 cs else (Inr False, r1)) (\<lambda>r1. r1)"

lemma close_clean:
  "stream_ok r \<Longrightarrow> availableData r = [] \<Longrightarrow> close r = (ok, r1) \<Longrightarrow> ok \<longleftrightarrow> pending r = []"
  "stream_ok r \<Longrightarrow> availableData r = [] \<Longrightarrow> close r = (True, r1) \<Longrightarrow> r1 = r"
  by (auto simp: close_def stream_ok_def availableData_def pending_def)

lemma available_zero: "stream_ok r \<Longrightarrow> bytesAvailable r = 0 \<longleftrightarrow> availableData r = []"
  by (auto simp: bytesAvailable_def availableData_def stream_ok_def)

lemma peek_loop_delivers:
  assumes "crypto_ok C"
  shows "stream_ok r \<Longrightarrow> peek_loop n C io r w s = Some (Inr bs, s') \<Longrightarrow>
    \<exists>chunks w' r'. stream_reads (io_readNoCopy io) w chunks w' \<and> push_all C r chunks = (Inr True, r')
      \<and> stream_ok r' \<and> s_reader s' = Some r' \<and> bs = availableData r' \<and> s_open s' = s_open s
      \<and> (if bs = [] then pending r' = [] \<and> (\<exists>w2. io_readNoCopy io w' = (Inr [], w2) \<and> s_stream s' = Some w2)
         else s_stream s' = Some w')"
proof (induction n arbitrary: r w)
  case (Suc n)
  show ?case
  proof (cases "bytesAvailable r = 0")
    case False
    then show ?thesis
      using Suc.prems available_zero [OF Suc.prems(1)]
      by (intro exI [of _ "[]"] exI [of _ w] exI [of _ r]) (auto intro: stream_reads.none)
  next
    case True
    then have empty: "availableData r = []" using available_zero [OF Suc.prems(1)] by simp
    obtain q w1 where q: "io_readNoCopy io w = (q, w1)" by fastforce
    then obtain enc where enc: "q = Inr enc" using Suc.prems(2) True by (cases q) auto
    show ?thesis
    proof (cases "enc = []")
      case eof: True
      obtain ok r1 where c: "close r = (ok, r1)" by fastforce
      then have "ok" "bs = []" "s' = s\<lparr>s_reader := Some r1, s_stream := Some w1\<rparr>"
        using Suc.prems(2) True q enc eof by (auto simp: Let_def split: if_splits)
      moreover have "pending r = []" "r1 = r"
        using close_clean [OF Suc.prems(1) empty] c \<open>ok\<close> by auto
      ultimately show ?thesis
        using q enc eof empty Suc.prems(1)
        by (intro exI [of _ "[]"] exI [of _ w] exI [of _ r]) (auto intro: stream_reads.none)
    next
      case False
      from decryption_push_cases [OF assms Suc.prems(1), of enc] obtain g r1 where
        d: "decryption_push C r enc = (Inr g, r1)" "stream_ok r1" by (metis stream_simps(4))
      then have "g" and rec: "peek_loop n C io r1 w1 s = Some (Inr bs, s')"
        using Suc.prems(2) True q enc False by (auto simp: Let_def split: if_splits)
      from Suc.IH [OF d(2) rec] obtain chunks w' r' where
        i: "stream_reads (io_readNoCopy io) w1 chunks w'" "push_all C r1 chunks = (Inr True, r')" "stream_ok r'"
          "s_reader s' = Some r'" "bs = availableData r'" "s_open s' = s_open s"
          "if bs = [] then pending r' = [] \<and> (\<exists>w2. io_readNoCopy io w' = (Inr [], w2) \<and> s_stream s' = Some w2)
           else s_stream s' = Some w'" by blast
      then show ?thesis
        using d(1) \<open>g\<close> stream_reads.more [of "io_readNoCopy io" w enc w1 chunks w'] q enc False
        by (intro exI [of _ "enc # chunks"] exI [of _ w'] exI [of _ r']) simp
    qed
  qed
qed simp

lemma peek_loop_fuel:
  assumes "\<And>w b w'. io_readNoCopy io w = (Inr b, w') \<Longrightarrow> b \<noteq> [] \<Longrightarrow> m w' < (m w :: nat)"
  shows "m w < n \<Longrightarrow> peek_loop n C io r w s \<noteq> None"
proof (induction n arbitrary: r w)
  case (Suc n)
  have "peek_loop n C io r1 w1 s \<noteq> None" if "io_readNoCopy io w = (Inr b, w1)" "b \<noteq> []" for r1 b w1
    using Suc.IH assms [OF that] Suc.prems by simp
  then show ?case
    by (auto simp: Let_def split: prod.splits sum.splits)
qed simp

text \<open>What \<open>peekNoCopy\<close> continues with: the reader without the bytes returned last time.\<close>

definition reader_now :: "'w SecretHandshakeStream \<Rightarrow> CryptoStream \<Rightarrow> CryptoStream" where
  "reader_now s r = snd (skip r (s_lastReadSize s))"

lemma reader_now_ok: "stream_ok r \<Longrightarrow> stream_ok (reader_now s r)"
  by (erule stream_cases) (simp add: reader_now_def skip_stream)

lemma peekNoCopy_open:
  assumes "s_open s" "s_reader s = Some r" "s_stream s = Some w"
  shows "peekNoCopy fuel C io s = peek_loop fuel C io (reader_now s r) w (s\<lparr>s_lastReadSize := 0\<rparr>)"
  using assms by (auto simp: peekNoCopy_def reader_now_def skip_def Let_def)

lemma readNoCopy_delivers:
  assumes "crypto_ok C" "s_open s" "s_reader s = Some r" "stream_ok r" "s_stream s = Some w"
    and "readNoCopy fuel C io maxLen s = Some (Inr bs, s')" "0 < maxLen"
  shows "\<exists>chunks w' r'. stream_reads (io_readNoCopy io) w chunks w'
    \<and> push_all C (reader_now s r) chunks = (Inr True, r')
    \<and> s_reader s' = Some r' \<and> bs = take maxLen (availableData r')
    \<and> availableData (reader_now s' r') = drop (length bs) (availableData r')
    \<and> (if bs = [] then pending r' = [] \<and> (\<exists>w2. io_readNoCopy io w' = (Inr [], w2) \<and> s_stream s' = Some w2)
       else s_stream s' = Some w') \<and> s_open s'"
proof -
  from assms(6) obtain ps s1 where p: "peekNoCopy fuel C io s = Some (Inr ps, s1)"
    and bs: "bs = take maxLen ps" "s' = s1\<lparr>s_lastReadSize := length bs\<rparr>"
    by (auto simp: readNoCopy_def Let_def split: option.splits prod.splits sum.splits)
  from peek_loop_delivers [OF assms(1) reader_now_ok [OF assms(4)],
      OF p [unfolded peekNoCopy_open [OF assms(2,3,5)]]]
  obtain chunks w' r' where i: "stream_reads (io_readNoCopy io) w chunks w'"
    "push_all C (reader_now s r) chunks = (Inr True, r')" "stream_ok r'" "s_reader s1 = Some r'"
    "ps = availableData r'" "s_open s1 = s_open s"
    "if ps = [] then pending r' = [] \<and> (\<exists>w2. io_readNoCopy io w' = (Inr [], w2) \<and> s_stream s1 = Some w2)
     else s_stream s1 = Some w'" by auto
  have "bs = [] \<longleftrightarrow> ps = []" using bs(1) assms(7) by auto
  moreover have "availableData (reader_now s' r') = drop (length bs) (availableData r')"
    using i(3) by (rule stream_cases) (simp add: bs(2) reader_now_def skip_stream)
  ultimately show ?thesis using i bs assms(2)
    by (intro exI [of _ chunks] exI [of _ w'] exI [of _ r']) auto
qed

lemma readNoCopy_returns:
  assumes "\<And>w b w'. io_readNoCopy io w = (Inr b, w') \<Longrightarrow> b \<noteq> [] \<Longrightarrow> m w' < (m w :: nat)"
    and "s_open s" "s_reader s = Some r" "s_stream s = Some w" "m w < fuel"
  shows "\<exists>result. readNoCopy fuel C io maxLen s = Some result"
proof -
  have "peek_loop fuel C io (reader_now s r) w (s\<lparr>s_lastReadSize := 0\<rparr>) \<noteq> None"
    using assms(1,5) by (rule peek_loop_fuel)
  then obtain q s1 where "peekNoCopy fuel C io s = Some (q, s1)"
    using peekNoCopy_open [OF assms(2-4)] by (metis not_None_eq surj_pair)
  then show ?thesis by (cases q) (auto simp: readNoCopy_def Let_def)
qed

text \<open>
  C24: \<open>readNoCopy\<close> delivers the decrypted data without loss or repetition. What it returns is the
  beginning of the decrypted bytes not returned before, after it has pushed into the decryptor
  exactly the bytes it read from the wrapped stream meanwhile (none, if decrypted bytes were still
  there); an empty result means that the wrapped stream has ended and that no part of a message
  is left over. And it returns as soon as the wrapped stream has nothing more to give: if every
  read of it that returns data decreases some measure of what is left, then as many rounds of the
  loop as that measure says, and one, are enough.
\<close>

theorem crouton_read_delivers:
  assumes "crypto_ok C" "s_open s" "s_reader s = Some r" "stream_ok r" "s_stream s = Some w"
  shows "(\<forall>bs s'. readNoCopy fuel C io maxLen s = Some (Inr bs, s') \<and> 0 < maxLen \<longrightarrow>
      (\<exists>chunks w' r'. stream_reads (io_readNoCopy io) w chunks w'
        \<and> push_all C (reader_now s r) chunks = (Inr True, r')
        \<and> s_reader s' = Some r' \<and> bs = take maxLen (availableData r')
        \<and> availableData (reader_now s' r') = drop (length bs) (availableData r')
        \<and> (if bs = [] then pending r' = [] \<and> (\<exists>w2. io_readNoCopy io w' = (Inr [], w2) \<and> s_stream s' = Some w2)
           else s_stream s' = Some w') \<and> s_open s'))
    \<and> (\<forall>m. (\<forall>w b w'. io_readNoCopy io w = (Inr b, w') \<longrightarrow> b \<noteq> [] \<longrightarrow> m w' < (m w :: nat)) \<and> m w < fuel \<longrightarrow>
         (\<exists>result. readNoCopy fuel C io maxLen s = Some result))"
proof (intro conjI allI impI, elim conjE, goal_cases)
  case (1 bs s')
  then show ?case by (rule readNoCopy_delivers [OF assms])
next
  case (2 m)
  then show ?case using readNoCopy_returns [OF _ assms(2,3,5), where m = m] by blast
qed

definition demo_reading :: "bytes \<Rightarrow> CryptoStream \<Rightarrow> (bytes \<times> bytes) SecretHandshakeStream" where
  "demo_reading incoming r = demo_stream\<lparr>s_open := True, s_stream := Some (incoming, []),
     s_reader := Some r, s_lastReadSize := 1\<rparr>"

lemma demo_reading_simps [simp]:
  "s_open (demo_reading i r)" "s_reader (demo_reading i r) = Some r"
  "s_stream (demo_reading i r) = Some (i, [])" "s_lastReadSize (demo_reading i r) = 1"
  by (simp_all add: demo_reading_def)

theorem crouton_read_delivers_witness:
  "(\<exists>chunks w' r'. stream_reads (io_readNoCopy mem_io) ([], []) chunks w'
     \<and> push_all toy (stream [9] [] (demo_box Compact)) chunks = (Inr True, r')
     \<and> take 10 (availableData r') = [9])
   \<and> (\<exists>result. readNoCopy 6 toy mem_io 10
     (demo_reading [0, 2, 1, 1, 1] (stream [8] [] (demo_box Compact))) = Some result)"
proof
  let ?r = "stream [8, 9] [] (demo_box Compact)"
  let ?s = "demo_reading [] ?r"
  have now: "reader_now ?s ?r = stream [9] [] (demo_box Compact)"
    by (simp add: reader_now_def skip_stream)
  have r: "readNoCopy 1 toy mem_io 10 ?s = Some (Inr [9], ?s\<lparr>s_lastReadSize := 1, s_reader := Some
      (stream [9] [] (demo_box Compact)), s_stream := Some ([], [])\<rparr>)"
    by (simp add: readNoCopy_def peekNoCopy_open [of ?s ?r "([], [])"] now)
  from crouton_read_delivers [OF toy_ok demo_reading_simps(1,2) stream_simps(4)
      demo_reading_simps(3), THEN conjunct1, rule_format, OF conjI [OF r]] now
  show "\<exists>chunks w' r'. stream_reads (io_readNoCopy mem_io) ([], []) chunks w'
     \<and> push_all toy (stream [9] [] (demo_box Compact)) chunks = (Inr True, r')
     \<and> take 10 (availableData r') = [9]" by fastforce
  have "\<forall>w b w'. io_readNoCopy mem_io w = (Inr b, w') \<longrightarrow> b \<noteq> [] \<longrightarrow> length (fst w') < length (fst w)"
    by (auto simp: mem_io_def)
  then show "\<exists>result. readNoCopy 6 toy mem_io 10
     (demo_reading [0, 2, 1, 1, 1] (stream [8] [] (demo_box Compact))) = Some result"
    using crouton_read_delivers [OF toy_ok demo_reading_simps(1,2) stream_simps(4) demo_reading_simps(3),
        THEN conjunct2, rule_format, of mem_io "\<lambda>w. length (fst w)"] by simp
qed

text \<open>
  C25: the end of the wrapped stream inside a message is an error. If no decrypted byte is left and
  part of a message is waiting when \<open>readNoCopy\<close> is called, and its first read of the wrapped stream
  meets the end, it returns \<open>DataError\<close>, not an empty result, and the stream is closed.
\<close>

theorem crouton_read_truncated:
  assumes "s_open s" "s_reader s = Some r" "stream_ok r" "s_stream s = Some w" "0 < fuel"
    and "availableData (reader_now s r) = []" "pending r \<noteq> []"
    and "io_readNoCopy io w = (Inr [], w')"
  shows "\<exists>s'. readNoCopy fuel C io maxLen s = Some (Inl DataError, s') \<and> \<not> isOpen s'"
proof -
  obtain n where n: "fuel = Suc n" using assms(5) gr0_conv_Suc by blast
  let ?r = "reader_now s r"
  obtain ok r1 where c: "close ?r = (ok, r1)" by fastforce
  have "pending ?r = pending r"
    using assms(3) by (rule stream_cases) (simp add: reader_now_def skip_stream)
  then have "\<not> ok"
    using close_clean(1) [OF reader_now_ok [OF assms(3)] assms(6) c] assms(7) by simp
  moreover have "bytesAvailable ?r = 0"
    using available_zero [OF reader_now_ok [OF assms(3), of s]] assms(6) by simp
  ultimately have "peekNoCopy fuel C io s = Some (Inl DataError, snd (stream_close io
      (s\<lparr>s_lastReadSize := 0, s_reader := Some r1, s_stream := Some w'\<rparr>)))"
    using assms(8) c by (simp add: peekNoCopy_open [OF assms(1,2,4)] n)
  then show ?thesis
    by (auto simp: readNoCopy_def isOpen_def stream_close_def notifyClosed_def Let_def
        split: prod.splits)
qed

theorem crouton_read_truncated_witness:
  "\<exists>s'. readNoCopy 1 toy mem_io 10 (demo_reading [] (stream [8] [1, 2] (demo_box Compact)))
     = Some (Inl DataError, s') \<and> \<not> isOpen s'"
  using crouton_read_truncated [of "demo_reading [] (stream [8] [1, 2] (demo_box Compact))"
      "stream [8] [1, 2] (demo_box Compact)" "([], [])" 1 mem_io "([], [])" toy 10]
  by (simp add: reader_now_def skip_stream mem_io_def)

text \<open>Every error code has a description of its own.\<close>

lemma error_described:
  assumes "error_code e = Some code" "error_code e' = Some code'"
  shows "\<exists>text. error_description code = Inr text \<and> text \<noteq> ''''"
    "error_description code = error_description code' \<longleftrightarrow> code = code'"
  using assms by (auto simp: error_code_def error_description_def Let_def split: io_error.splits hs_error.splits)

end
