(* ===== verification/Connection_Safety.thy ===== *)
theory Connection_Safety
  imports Secret_Connection Crouton_Safety
begin

text \<open>
  The properties of the Cap'n Proto adapter: the handshake over an inner stream ends and its result
  is that of a run of the handshake, writes put exactly the frames of the data on the inner
  stream, and \<open>tryRead\<close> returns decrypted bytes in order, with its behaviour at the end of the stream.
\<close>

section \<open>The handshake\<close>

text \<open>The result of \<open>runHandshake\<close> from handshake state \<open>h\<close> with an authorizer.\<close>

definition run_result :: "crypto \<Rightarrow> vtable \<Rightarrow> handshake \<Rightarrow> (bytes \<Rightarrow> bool) option
    \<Rightarrow> kj_error + Session \<Rightarrow> bool" where
  "run_result C V h auth r \<longleftrightarrow>
     (case r of
        Inr session \<Rightarrow> (\<exists>h'. api_run V h h' \<and> finished h' \<and> get_session C h' = Inr session)
          \<and> (case auth of None \<Rightarrow> True | Some f \<Rightarrow> f (peerPublicKey session))
      | Inl UnauthorizedClient \<Rightarrow> (\<exists>h' session f. api_run V h h' \<and> finished h'
          \<and> get_session C h' = Inr session \<and> auth = Some f \<and> \<not> f (peerPublicKey session))
      | Inl HandshakeFailed \<Rightarrow> (\<exists>h'. api_run V h h' \<and> h_error h' \<noteq> NoError)
      | Inl e \<Rightarrow> (\<exists>c. e = InnerError c))"

lemma run_result_trans: "api_run V h h' \<Longrightarrow> run_result C V h' auth r \<Longrightarrow> run_result C V h auth r"
  unfolding run_result_def
  by (auto split: sum.splits kj_error.splits intro: api_run_trans)

lemma kj_okD:
  assumes "kj_ok io"
  shows "kj_read io n w = (Inr bs, w') \<Longrightarrow> length bs = n"
    "kj_read io n w = (Inl e, w') \<Longrightarrow> \<exists>c. e = InnerError c"
    "kj_write io bs w = (Inl e, w') \<Longrightarrow> \<exists>c. e = InnerError c"
    "kj_getpeername io n w = (Inl e, w') \<Longrightarrow> \<exists>c. e = InnerError c"
  using assms unfolding kj_ok_def by metis+

lemma settle_in_then [simp]: "settle (in_then p) = settle p"
  by (cases p) simp_all

lemma settle_eq_Inr [simp]: "settle p = Inr r \<longleftrightarrow> p = Resolved r"
  by (cases p) simp_all

lemma peer_name_error:
  assumes "kj_ok io" "ws_getPeerName io s w = (Inl e, w')"
  shows "\<exists>c. e = InnerError c"
  using assms(2) kj_okD(4) [OF assms(1)]
  by (auto simp: ws_getPeerName_def getPeerName_def getpeername_def Let_def split: if_splits prod.splits sum.splits)

lemma peer_name_update [simp]: "ws_getPeerName io (s\<lparr>ws_handshake := h\<rparr>) w = ws_getPeerName io s w"
  by (simp add: ws_getPeerName_def getpeername_def [abs_def])

context handshake_protocol
begin

lemma send_step:
  assumes "inv h" "bytesToSend V h = (b, h1)" "b \<noteq> Inr []"
  obtains out h2 where "b = Inr out" "out \<noteq> []" "sendCompleted h1 = (Inr (), h2)" "inv h2"
    "api_run V h h2" "live (h_step h)" "h_step h2 = step_succ (h_step h)" "api_run V h h1"
proof -
  from bytesToSend_inv [OF assms(1,2)] obtain out where
    out: "b = Inr out" "inv h1" "h_step h1 = h_step h" by blast
  have ne: "out \<noteq> []" using assms(3) out(1) by auto
  have run1: "api_run V h h1" using api_run_one [OF api_step.bytesToSend [OF assms(2)]] out by simp
  note l = bytesToSend_live [OF inv_buffers [OF assms(1)] assms(2) [unfolded out(1)] ne]
  obtain u h2 where u: "sendCompleted h1 = (u, h2)" by fastforce
  have "u = Inr ()" "h2 = h1\<lparr>h_outputBuffer := [], h_step := step_succ (h_step h1)\<rparr>"
    using u l ne nextStep_live [of "h1\<lparr>h_outputBuffer := []\<rparr>"] by (auto simp: sendCompleted_def)
  then show ?thesis
    using that [OF out(1) ne] u sendCompleted_inv(2) [OF out(2) u] l(1) out(3) run1
      api_run.step [OF run1 api_step.sendCompleted [OF u]] by simp
qed

lemma send_idle:
  assumes "inv h" "bytesToSend V h = (Inr [], h1)"
  shows "h1 = h" "\<not> live (h_step h) \<or> needs (h_step h) \<noteq> 0"
  using inv_buffers [OF assms(1)] assms(2) by (cases rule: bytesToSend_cases; simp)+

lemma read_step:
  assumes "inv h" "needs (h_step h) \<noteq> 0" "length bs = needs (h_step h)"
  defines "h2 \<equiv> h\<lparr>h_inputBuffer := mem_write (resize (needs (h_step h)) (h_inputBuffer h)) 0 bs\<rparr>"
  obtains v h3 where "readCompleted V h2 = (Inr v, h3)" "inv h3" "api_run V h h3"
    "h_step h3 = step_succ (h_step h) \<or> h_step h3 = Failed"
proof -
  let ?h1 = "h\<lparr>h_inputBuffer := resize (needs (h_step h)) (h_inputBuffer h)\<rparr>"
  have "bytesToRead V h = (needs (h_step h), ?h1)" by (simp add: bytesToRead_def needed Let_def)
  then have "api_run V h ?h1" by (intro api_run_one api_step.bytesToRead)
  then have run2: "api_run V h h2"
    using api_run.step [OF _ api_step.fill_input [of bs ?h1]] assms(3) by (simp add: h2_def)
  have inv2: "inv h2" using api_run_inv [OF run2 assms(1)] .
  obtain r h3 where r: "readCompleted V h2 = (r, h3)" by fastforce
  from readCompleted_full [OF inv2 _ _ r] assms(2,3) obtain v where
    v: "r = Inr v" "h_step h3 = step_succ (h_step h) \<or> h_step h3 = Failed" by (auto simp: h2_def)
  have "api_run V h h3" using api_run.step [OF run2 api_step.readCompleted [OF r]] v by simp
  then show ?thesis using that r v api_run_inv [OF _ assms(1)] by blast
qed

lemma rank_after: "live s \<Longrightarrow> s' = step_succ s \<or> s' = Failed \<Longrightarrow> rank s' < rank s"
  using rank_succ [of s] rank_dead [of s] by (auto simp: rank_def live_def split: if_splits)

text \<open>One call of \<open>runHandshake\<close> ends with a result, or goes on from a later state.\<close>

definition run_advances :: "nat \<Rightarrow> crypto \<Rightarrow> 'w kj_stream \<Rightarrow> WrappedStream \<Rightarrow> 'w \<Rightarrow> handshake \<Rightarrow> bool" where
  "run_advances n C io s w h \<longleftrightarrow>
     (\<exists>r s' w'. runHandshake (Suc n) C V io s w = Some (r, s', w')
        \<and> run_result C V h (ws_authorizer s) (settle r))
   \<or> (\<exists>h' w'. inv h' \<and> api_run V h h' \<and> rank (h_step h') < rank (h_step h)
        \<and> runHandshake (Suc n) C V io s w
            = map_option (apfst in_then) (runHandshake n C V io (s\<lparr>ws_handshake := Some h'\<rparr>) w'))"

lemma run_sends:
  assumes "kj_ok io" "inv h" "ws_handshake s = Some h" "ws_getPeerName io s w = (Inr a, w0)" "\<not> finished h"
    and b: "bytesToSend V h = (b, h1)" "b \<noteq> Inr []"
  shows "run_advances n C io s w h"
proof -
  from send_step [OF assms(2) b] obtain out h2 where
    o: "b = Inr out" "out \<noteq> []" "sendCompleted h1 = (Inr (), h2)" "inv h2"
    "api_run V h h2" "live (h_step h)" "h_step h2 = step_succ (h_step h)" .
  obtain q w1 where q: "kj_write io out w0 = (q, w1)" by fastforce
  show ?thesis
  proof (cases q)
    case (Inl e)
    then show ?thesis
      using assms(3-5) b o q kj_okD(3) [OF assms(1)]
      by (fastforce simp: run_advances_def run_result_def)
  next
    case (Inr u)
    then have "runHandshake (Suc n) C V io s w
        = map_option (apfst in_then) (runHandshake n C V io (s\<lparr>ws_handshake := Some h2\<rparr>) w1)"
      using assms(3-5) b o q by simp
    then show ?thesis
      using o(4,5) rank_after [OF o(6)] o(7) unfolding run_advances_def by blast
  qed
qed

lemma run_reads:
  assumes "kj_ok io" "inv h" "ws_handshake s = Some h" "ws_getPeerName io s w = (Inr a, w0)" "\<not> finished h"
    and idle: "bytesToSend V h = (Inr [], h)" and nz: "needs (h_step h) \<noteq> 0"
  shows "run_advances n C io s w h"
proof -
  let ?n = "needs (h_step h)"
  let ?h1 = "h\<lparr>h_inputBuffer := resize ?n (h_inputBuffer h)\<rparr>"
  have rd: "bytesToRead V h = (?n, ?h1)" by (simp add: bytesToRead_def needed Let_def)
  obtain q w1 where q: "kj_read io ?n w0 = (q, w1)" by fastforce
  show ?thesis
  proof (cases q)
    case (Inl e)
    then show ?thesis
      using assms(3-5) idle rd q nz kj_okD(2) [OF assms(1)]
      by (fastforce simp: run_advances_def run_result_def)
  next
    case (Inr bs)
    then have "length bs = ?n" using kj_okD(1) [OF assms(1)] q by simp
    from read_step [OF assms(2) nz this] obtain v h3 where
      v: "readCompleted V (h\<lparr>h_inputBuffer := mem_write (resize ?n (h_inputBuffer h)) 0 bs\<rparr>) = (Inr v, h3)"
      "inv h3" "api_run V h h3" "h_step h3 = step_succ (h_step h) \<or> h_step h3 = Failed" .
    have "runHandshake (Suc n) C V io s w
        = map_option (apfst in_then) (runHandshake n C V io (s\<lparr>ws_handshake := Some h3\<rparr>) w1)"
      using assms(3-5) idle rd q Inr nz v(1) by simp
    then show ?thesis
      using v(2,3) rank_after [OF needs_live [OF nz] v(4)] unfolding run_advances_def by blast
  qed
qed

lemma run_fails:
  assumes "inv h" "ws_handshake s = Some h" "ws_getPeerName io s w = (Inr a, w0)" "\<not> finished h"
    and idle: "bytesToSend V h = (Inr [], h)" and nz: "needs (h_step h) = 0"
  shows "run_advances n C io s w h"
proof -
  have "h_step h = Failed" using send_idle(2) [OF assms(1) idle] nz assms(4) by (auto simp: live_def finished_def)
  then have "h_error h \<noteq> NoError" using inv_error [OF assms(1)] by simp
  then have "\<exists>s' w'. runHandshake (Suc n) C V io s w = Some (Rejected HandshakeFailed, s', w')"
    using assms(2-4) idle nz by (auto simp: bytesToRead_def needed Let_def)
  then show ?thesis using \<open>h_error h \<noteq> NoError\<close> api_run.start
    by (fastforce simp: run_advances_def run_result_def)
qed

lemma run_finishes:
  assumes "ws_handshake s = Some h" "ws_getPeerName io s w = (Inr a, w0)" "finished h"
    and "get_session C h = Inr x"
  shows "run_advances n C io s w h"
proof -
  have "\<exists>r s' w'. runHandshake (Suc n) C V io s w = Some (r, s', w')
      \<and> run_result C V h (ws_authorizer s) (settle r)"
    using assms api_run.start [of V h]
    by (cases "ws_authorizer s") (auto simp: run_result_def Let_def)
  then show ?thesis unfolding run_advances_def by blast
qed

lemma run_one:
  assumes "kj_ok io" "inv h" "ws_handshake s = Some h"
    and ses: "finished h \<Longrightarrow> \<exists>x. get_session C h = Inr x"
  shows "run_advances n C io s w h"
proof -
  obtain b h1 where b: "bytesToSend V h = (b, h1)" by fastforce
  consider (unnamed) e w0 where "ws_getPeerName io s w = (Inl e, w0)"
    | (fin) a w0 where "ws_getPeerName io s w = (Inr a, w0)" "finished h"
    | (send) a w0 where "ws_getPeerName io s w = (Inr a, w0)" "\<not> finished h" "b \<noteq> Inr []"
    | (idle) a w0 where "ws_getPeerName io s w = (Inr a, w0)" "\<not> finished h" "b = Inr []"
    by (cases "ws_getPeerName io s w"; cases "fst (ws_getPeerName io s w)") auto
  then show ?thesis
  proof cases
    case unnamed
    then obtain c where "e = InnerError c" using peer_name_error [OF assms(1)] by blast
    then show ?thesis using unnamed by (simp add: run_advances_def run_result_def)
  next
    case fin
    then show ?thesis using run_finishes [OF assms(3) fin] ses [OF fin(2)] by blast
  next
    case send
    then show ?thesis using run_sends [OF assms(1-3)] b by blast
  next
    case idle
    then have "bytesToSend V h = (Inr [], h)" using send_idle(1) [OF assms(2)] b by simp
    then show ?thesis
      using run_reads [OF assms(1-3) idle(1,2)] run_fails [OF assms(2,3) idle(1,2)]
      by (cases "needs (h_step h) = 0") blast+
  qed
qed

lemma runHandshake_ends:
  assumes io: "kj_ok io" and ses: "\<And>h'. api_run V h0 h' \<Longrightarrow> finished h' \<Longrightarrow> \<exists>s. get_session C h' = Inr s"
  shows "inv h \<Longrightarrow> api_run V h0 h \<Longrightarrow> rank (h_step h) < n \<Longrightarrow> ws_handshake s = Some h \<Longrightarrow>
    \<exists>r s' w'. runHandshake n C V io s w = Some (r, s', w') \<and> run_result C V h0 (ws_authorizer s) (settle r)"
proof (induction n arbitrary: h s w)
  case (Suc n)
  from run_one [OF io Suc.prems(1,4) ses [OF Suc.prems(2)], of n w] consider
    (ends) r s' w' where "runHandshake (Suc n) C V io s w = Some (r, s', w')"
      "run_result C V h (ws_authorizer s) (settle r)"
    | (goes_on) h' w' where "inv h'" "api_run V h h'" "rank (h_step h') < rank (h_step h)"
      "runHandshake (Suc n) C V io s w
        = map_option (apfst in_then) (runHandshake n C V io (s\<lparr>ws_handshake := Some h'\<rparr>) w')"
    unfolding run_advances_def by blast
  then show ?case
  proof cases
    case ends
    then show ?thesis using run_result_trans [OF Suc.prems(2)] by blast
  next
    case goes_on
    have "rank (h_step h') < n" using goes_on(3) Suc.prems(3) by simp
    from Suc.IH [OF goes_on(1) api_run_trans [OF goes_on(2) Suc.prems(2)] this,
        of "s\<lparr>ws_handshake := Some h'\<rparr>" w'] goes_on(4)
    show ?thesis by fastforce
  qed
qed simp

end

lemma fresh_runHandshake:
  assumes "kj_ok io" "fresh C V h0" "5 \<le> fuel"
  shows "\<exists>r s' w'. runHandshake fuel C V io (new_WrappedStream h0 auth sock) w = Some (r, s', w')
    \<and> run_result C V h0 auth (settle r)"
proof -
  let ?s = "new_WrappedStream h0 auth sock"
  have s: "ws_handshake ?s = Some h0" "ws_authorizer ?s = auth"
    by (simp_all add: new_WrappedStream_def)
  have n: "rank (h_step h0) < fuel" using rank_fresh [OF assms(2)] assms(3) by simp
  note ses = fresh_session [OF assms(2)]
  from assms(2) api_run.start show ?thesis
  proof (cases rule: fresh_run_cases)
    case (client i0 pk)
    from client_run.runHandshake_ends [OF assms(1) ses [unfolded client(1)] client(2) api_run.start n s(1)]
    show ?thesis using s(2) client(1) by simp
  next
    case (server i0 a)
    from server_run.runHandshake_ends [OF assms(1) ses [unfolded server(1)] server(2) api_run.start n s(1)]
    show ?thesis using s(2) server(1) by simp
  qed
qed

lemma fresh_plain_server: "fresh C (server_vt C) (ServerHandshake C ctx x)"
proof -
  have "setClientAuthorizer None (ServerHandshake C ctx x) = ServerHandshake C ctx x"
    by (simp add: setClientAuthorizer_def ServerHandshake_def new_Handshake_def)
  then show ?thesis using fresh.server [of C None ctx x] by simp
qed

text \<open>The example stream: bytes to be received, bytes sent; its peer is at an IPv6 address.\<close>

definition demo_sockaddr :: bytes where
  "demo_sockaddr = [10, 0, 1, 187, 0, 0, 0, 0] @ replicate 15 0 @ [1, 0, 0, 0, 0]"

definition mem_kj :: "(bytes \<times> bytes) kj_stream" where
  "mem_kj = \<lparr>kj_write = (\<lambda>bs (i, o'). (Inr (), (i, o' @ bs))),
     kj_read = (\<lambda>n (i, o'). if n \<le> length i then (Inr (take n i), (drop n i, o'))
                            else (Inl (InnerError 0), ([], o'))),
     kj_tryRead = (\<lambda>m n (i, o'). (Inr (take n i), (drop n i, o'))),
     kj_shutdownWrite = (\<lambda>w. w), kj_abortRead = (\<lambda>w. w),
     kj_whenWriteDisconnected = (\<lambda>w. None),
     kj_getsockopt = (\<lambda>level opt n w. (Inl (InnerError 1), w)),
     kj_setsockopt = (\<lambda>level opt v w. (Inl (InnerError 1), w)),
     kj_getsockname = (\<lambda>n w. (Inr (take n demo_sockaddr), w)),
     kj_getpeername = (\<lambda>n w. (Inr (take n demo_sockaddr), w)), kj_getFd = (\<lambda>w. None),
     inet_ntop = (\<lambda>family addr. if family = 10 then Some addr else None)\<rparr>"

lemma mem_kj_ok: "kj_ok mem_kj"
  by (auto simp: kj_ok_def mem_kj_def split: if_splits)

section \<open>Properties\<close>

lemma peer_name_throws:
  assumes "ws_getPeerName io s w = (Inl e, w')"
  shows "ws_isSocket s" "fst (kj_getpeername io 28 w) = Inl e"
  using assms by (auto simp: ws_getPeerName_def getPeerName_def getpeername_def Let_def
      split: if_splits prod.splits sum.splits)

text \<open>\<open>runHandshake\<close> throws, before it returns a promise, an exception of the handshake, or when the
  peer's name cannot be read.\<close>

lemma in_then_not_Throws [simp]: "in_then p \<noteq> Throws e"
  by (cases p) simp_all

lemma runHandshake_throws:
  assumes "runHandshake n C V io s w = Some (Throws e, s', w')"
  shows "(\<exists>w1. ws_getPeerName io s w = (Inl e, w1)) \<or> (\<exists>x. e = KjThrown x)"
  using assms
  by (cases n) (auto simp: Let_def apfst_def map_prod_def split: prod.splits sum.splits option.splits if_splits)

text \<open>
  C27: \<open>connect\<close> on a newly wrapped stream ends, after at most five calls of \<open>runHandshake\<close>, and never
  with an exception of the handshake's own. If it succeeds, a run of the handshake has finished
  with the session that the streams are made from, and the authorizer, if there is one, accepts the
  peer's key. If its promise is rejected the inner stream has been shut down in both directions, and
  the reason is one of three: an unauthorized client, for which the run has finished as well (the
  authorizer is asked only after the last message, the server's acknowledgement, was sent); a
  handshake that has failed; or an error of the inner stream. It throws only if the stream is said
  to be a socket and its peer's name cannot be read.
\<close>

theorem kj_handshake_outcome:
  assumes "kj_ok io" "fresh C V h0" "5 \<le> fuel"
  shows "\<exists>r s' w'. connect fuel C V io (new_WrappedStream h0 auth sock) w = Some (r, s', w')
    \<and> (case r of
         Resolved _ \<Rightarrow> (\<exists>h session. api_run V h0 h \<and> finished h \<and> get_session C h = Inr session
           \<and> (\<forall>f. auth = Some f \<longrightarrow> f (peerPublicKey session)) \<and> ws_session s' = Some session
           \<and> ws_encryptor s' = Some (EncryptionStream_of_session session Compact)
           \<and> ws_decryptor s' = Some (DecryptionStream_of_session session Compact))
       | Rejected e \<Rightarrow> (\<exists>w1. w' = kj_abortRead io (kj_shutdownWrite io w1))
           \<and> (case e of
                UnauthorizedClient \<Rightarrow> (\<exists>h session f. api_run V h0 h \<and> finished h
                  \<and> get_session C h = Inr session \<and> auth = Some f \<and> \<not> f (peerPublicKey session))
              | HandshakeFailed \<Rightarrow> (\<exists>h. api_run V h0 h \<and> h_error h \<noteq> NoError)
              | _ \<Rightarrow> (\<exists>c. e = InnerError c))
       | Throws e \<Rightarrow> sock \<and> (\<exists>w1. fst (kj_getpeername io 28 w1) = Inl e))"
proof (cases "ws_getPeerName io (new_WrappedStream h0 auth sock) w")
  case (Pair p w0)
  show ?thesis
  proof (cases p)
    case (Inl e)
    then show ?thesis
      using peer_name_throws [of io "new_WrappedStream h0 auth sock" w] Pair
      by (auto simp: connect_def new_WrappedStream_def intro: exI [of _ w])
  next
    case (Inr a)
    from fresh_runHandshake [OF assms, of auth sock w0] obtain r s' w' where r:
      "runHandshake fuel C V io (new_WrappedStream h0 auth sock) w0 = Some (r, s', w')"
      "run_result C V h0 auth (settle r)" by blast
    show ?thesis
    proof (cases r)
      case (Throws e)
      then have "\<nexists>x. e = KjThrown x" using r(2) by (auto simp: run_result_def)
      then obtain w1 where "ws_getPeerName io (new_WrappedStream h0 auth sock) w0 = (Inl e, w1)"
        using runHandshake_throws [OF r(1) [unfolded Throws]] by blast
      note peer_name_throws [OF this]
      then show ?thesis using Pair Inr r(1) Throws
        by (auto simp: connect_def new_WrappedStream_def intro: exI [of _ w0])
    next
      case (Rejected e)
      then show ?thesis using Pair Inr r
        by (auto simp: connect_def run_result_def split: kj_error.splits)
    next
      case (Resolved session)
      then show ?thesis using Pair Inr r
        by (auto simp: connect_def run_result_def EncryptionStream_of_session_def EncryptoBox_of_session_def
            DecryptionStream_of_session_def DecryptoBox_of_session_def)
    qed
  qed
qed

theorem kj_handshake_outcome_witness:
  "\<exists>r s' w'. connect 5 toy (server_vt toy) mem_kj (new_WrappedStream demo_s0 None True)
       (replicate 70 1, []) = Some (r, s', w') \<and> (\<forall>e. r \<noteq> Rejected (KjThrown e))"
proof -
  from kj_handshake_outcome [OF mem_kj_ok fresh_demo(2) order_refl, of None True "(replicate 70 1, [])"]
  show ?thesis by (fastforce split: kj_promise.splits kj_error.splits)
qed

lemma connect_success:
  assumes "kj_ok io" "fresh C V h0" "5 \<le> fuel"
    and "connect fuel C V io (new_WrappedStream h0 auth sock) w = Some (Resolved (), s', w')"
  obtains session where "run_result C V h0 auth (Inr session)" "ws_session s' = Some session"
    "ws_encryptor s' = Some (EncryptionStream_of_session session Compact)"
    "ws_decryptor s' = Some (DecryptionStream_of_session session Compact)"
proof -
  obtain p w0 where p: "ws_getPeerName io (new_WrappedStream h0 auth sock) w = (p, w0)" by fastforce
  from fresh_runHandshake [OF assms(1-3), of auth sock w0] obtain r s1 w1 where
    r: "runHandshake fuel C V io (new_WrappedStream h0 auth sock) w0 = Some (r, s1, w1)"
    "run_result C V h0 auth (settle r)" by blast
  with assms(4) p obtain session where "r = Resolved session"
    "ws_session s' = Some session"
    "ws_encryptor s' = Some (EncryptionStream_of_session session Compact)"
    "ws_decryptor s' = Some (DecryptionStream_of_session session Compact)"
    by (cases p; cases r) (auto simp: connect_def EncryptionStream_of_session_def EncryptoBox_of_session_def
        DecryptionStream_of_session_def DecryptoBox_of_session_def)
  then show ?thesis using that r(2) by simp
qed

lemma newHandshake_fresh: "newHandshake C W x = (V, h) \<Longrightarrow> fresh C V h"
  by (auto simp: newHandshake_def ServerWrapper_newHandshake_def ClientWrapper_newHandshake_def
      fresh_plain_server fresh.client split: option.splits)

lemma newHandshake_session:
  assumes "newHandshake C W x = (V, h0)" "run_result C V h0 auth (Inr session)"
    "sw_serverPublicKey W = Some pk"
  shows "peerPublicKey session = pk"
  using assms client_session [of C "sw_context W" pk x]
  by (fastforce simp: newHandshake_def ClientWrapper_newHandshake_def run_result_def)

text \<open>What is known of a wrapped connection: its session, by the wrapper that made it.\<close>

definition session_ok :: "StreamWrapper \<Rightarrow> WrappedStream \<Rightarrow> bytes \<Rightarrow> bool" where
  "session_ok W s k \<longleftrightarrow> (\<forall>pk. sw_serverPublicKey W = Some pk \<longrightarrow> k = pk)
     \<and> (\<forall>f. sw_authorizer W = Some f \<longrightarrow> f k)
     \<and> (\<exists>session. ws_session s = Some session \<and> peerPublicKey session = k
          \<and> ws_encryptor s = Some (EncryptionStream_of_session session Compact)
          \<and> ws_decryptor s = Some (DecryptionStream_of_session session Compact))"

lemma connect_session_ok:
  assumes "kj_ok io" "5 \<le> fuel" "newHandshake C W x = (V, h)"
    and "connect fuel C V io (new_WrappedStream h (sw_authorizer W) sock) w = Some (Resolved (), s, w1)"
  obtains k where "session_ok W s k"
proof -
  obtain session where r: "run_result C V h (sw_authorizer W) (Inr session)"
    "ws_session s = Some session"
    "ws_encryptor s = Some (EncryptionStream_of_session session Compact)"
    "ws_decryptor s = Some (DecryptionStream_of_session session Compact)"
    using connect_success [OF assms(1) newHandshake_fresh [OF assms(3)] assms(2,4)] .
  then have "session_ok W s (peerPublicKey session)"
    using newHandshake_session [OF assms(3) r(1)] by (auto simp: session_ok_def run_result_def)
  then show ?thesis using that by blast
qed

lemma wrap_session_ok:
  assumes "kj_ok io" "5 \<le> fuel" "wrap fuel C io W x w = Some (Resolved (s, w1))"
  obtains k where "session_ok W s k"
proof -
  obtain V h where n: "newHandshake C W x = (V, h)" by fastforce
  then have "connect fuel C V io (new_WrappedStream h (sw_authorizer W) (sw_isSocket W)) w
      = Some (Resolved (), s, w1)"
    using assms(3) by (auto simp: wrap_def split: option.splits prod.splits kj_promise.splits)
  then show ?thesis using connect_session_ok [OF assms(1,2) n] that by blast
qed

lemma wrap_authenticated_session_ok:
  assumes "kj_ok io" "5 \<le> fuel" "wrap_authenticated fuel C io W x w i = Some (Resolved A)"
  obtains s k where "as_wrapped A = Some s" "as_identity A = Some (SHSPeerIdentity k i)"
    "session_ok W s k"
proof -
  obtain V h where n: "newHandshake C W x = (V, h)" by fastforce
  then obtain s w1 where c: "connect fuel C V io (new_WrappedStream h (sw_authorizer W) (sw_isSocket W)) w
      = Some (Resolved (), s, w1)" "as_wrapped A = Some s" "as_identity A = getIdentity i s"
    using assms(3) by (auto simp: wrap_authenticated_def Let_def
        split: option.splits prod.splits kj_promise.splits if_splits)
  obtain k where k: "session_ok W s k" using connect_session_ok [OF assms(1,2) n c(1)] .
  then have "as_identity A = Some (SHSPeerIdentity k i)"
    using c(3) by (auto simp: getIdentity_def session_ok_def)
  then show ?thesis using that c(2) k by blast
qed

text \<open>
  C26: a wrapped stream knows its peer. Whenever \<open>wrap\<close> gives an authenticated stream, its identity
  is the \<open>SHSPeerIdentity\<close> of a public key \<open>k\<close> with the transport's identity inside: for a
  \<open>ClientWrapper\<close> \<open>k\<close> is the server key it was given, and an authorizer has accepted \<open>k\<close>. Both
  directions are encrypted under the keys of the session that the handshake made with \<open>k\<close>. The
  other \<open>wrap\<close> gives the same guarantee for its stream.
\<close>

theorem wrapped_stream_peer:
  assumes "kj_ok io" "5 \<le> fuel"
  shows "(\<forall>A. wrap_authenticated fuel C io W x w i = Some (Resolved A) \<longrightarrow>
      (\<exists>s k. as_wrapped A = Some s \<and> as_identity A = Some (SHSPeerIdentity k i) \<and> session_ok W s k))
    \<and> (\<forall>s w1. wrap fuel C io W x w = Some (Resolved (s, w1)) \<longrightarrow> (\<exists>k. session_ok W s k))"
  using wrap_authenticated_session_ok [OF assms] wrap_session_ok [OF assms] by metis

text \<open>The two ends of the example, each reading what the other one sends.\<close>

definition demo_script :: "step \<Rightarrow> bytes" where
  "demo_script = script toy (replicate 32 5) [1, 2] [7] [3] [9]"

definition demo_client_wrap :: "(bytes \<times> bytes, unit) AuthenticatedStream kj_promise option" where
  "demo_client_wrap = wrap_authenticated 5 toy mem_kj
     (ClientWrapper (demo_ctx [1, 2]) (ed_public toy [3])) [7]
     (demo_script ServerChallenge @ demo_script ServerAck, []) ()"

definition demo_server_wrap :: "(bytes \<times> bytes, unit) AuthenticatedStream kj_promise option" where
  "demo_server_wrap = wrap_authenticated 5 toy mem_kj (ServerWrapper (demo_ctx [3]) demo_auth) [9]
     (demo_script ClientChallenge @ demo_script ClientAuth, []) ()"

lemma demo_wraps:
  "case demo_client_wrap of Some (Resolved _) \<Rightarrow> True | _ \<Rightarrow> False"
  "case demo_server_wrap of Some (Resolved _) \<Rightarrow> True | _ \<Rightarrow> False"
  by code_simp+

theorem wrapped_stream_peer_witness:
  "\<exists>A B. demo_client_wrap = Some (Resolved A) \<and> demo_server_wrap = Some (Resolved B)
     \<and> as_identity A = Some (SHSPeerIdentity (ed_public toy [3]) ())
     \<and> as_identity B = Some (SHSPeerIdentity (ed_public toy [1, 2]) ())"
proof -
  obtain A where c: "demo_client_wrap = Some (Resolved A)"
    using demo_wraps(1) by (auto split: option.splits kj_promise.splits)
  obtain B where d: "demo_server_wrap = Some (Resolved B)"
    using demo_wraps(2) by (auto split: option.splits kj_promise.splits)
  show ?thesis
    using wrapped_stream_peer [OF mem_kj_ok order_refl, THEN conjunct1, rule_format,
        OF c [unfolded demo_client_wrap_def]]
      wrapped_stream_peer [OF mem_kj_ok order_refl, THEN conjunct1, rule_format,
        OF d [unfolded demo_server_wrap_def]] c d
    by (intro exI [of _ A] exI [of _ B])
      (auto simp: session_ok_def ClientWrapper_def ServerWrapper_def new_StreamWrapper_def demo_auth_def)
qed

section \<open>The name of a peer\<close>

lemma getPeerName_eq:
  assumes "gp 28 w = (Inr a, w')" "length a \<le> 28"
  shows "getPeerName ntop gp w = (Inr (case ntop (sin6_family (a @ replicate (28 - length a) 0))
    (sin6_addr (a @ replicate (28 - length a) 0)) of None \<Rightarrow> [] | Some name \<Rightarrow> name), w')"
  using assms by (simp add: getPeerName_def Let_def mem_write_split)

text \<open>The name of a peer with an IPv6 address (family 10) is the text of the address.\<close>

lemma ipv6_peer_name:
  assumes "length port = 2" "length flow = 4" "length ip = 16" "length scope = 4"
    and "gp 28 w = (Inr ([10, 0] @ port @ flow @ ip @ scope), w')"
  shows "getPeerName ntop gp w = (Inr (case ntop 10 ip of None \<Rightarrow> [] | Some name \<Rightarrow> name), w')"
  using assms getPeerName_eq [of gp w, OF assms(5)]
  by (simp add: sin6_family_def sin6_addr_def mem_read_def)

text \<open>
  With an IPv4 address (family 2) a \<open>sockaddr_in\<close> is stored, which has the address at offset 4 and
  zeros from offset 8 on. The code reads at offset 8, so every such peer has the same name, that of
  the address \<open>0.0.0.0\<close>.
\<close>

lemma ipv4_peer_name:
  assumes "length port = 2" "length ip = 4"
    and "gp 28 w = (Inr ([2, 0] @ port @ ip @ replicate 8 0), w')"
  shows "getPeerName ntop gp w = (Inr (case ntop 2 (replicate 16 0) of None \<Rightarrow> [] | Some name \<Rightarrow> name), w')"
  using assms getPeerName_eq [of gp w, OF assms(3)]
  by (simp add: sin6_family_def sin6_addr_def mem_read_def flip: replicate_add)

section \<open>Writing and reading\<close>

lemma kj_write1_eq: "kj_write1 C io buffer s w = kj_writev C io [buffer] s w"
  by (simp add: kj_write1_def kj_writev_def encryption_push_def ebind_def
      split: option.split prod.split sum.split)

lemma kj_writev_stream:
  assumes "crypto_ok C" "ws_encryptor s = Some (stream r [] b)"
  shows "\<exists>ms. messages ms \<and> concat ms = concat pieces
    \<and> (let out = r @ seal_messages C b ms; b' = (next_box C ^^ length ms) b; q = kj_write io out w
       in kj_writev C io pieces s w = (fst q, s\<lparr>ws_encryptor :=
            Some (if fst q = Inr () then stream [] [] b' else stream out [] b')\<rparr>, snd q))"
proof -
  from push_buffers_flush [OF assms(1), of r b pieces] obtain ms where ms:
    "ebind (push_buffers C (stream r [] b) pieces) (\<lambda>_ e. flush C e) (\<lambda>e. e)
      = (Inr (), stream (r @ seal_messages C b ms) [] ((next_box C ^^ length ms) b))"
    "messages ms" "concat ms = concat pieces" by auto
  then show ?thesis
    using assms(2) by (intro exI [of _ ms])
      (auto simp: kj_writev_def endWrite_def Let_def skip_stream split: prod.split sum.split)
qed

text \<open>
  C28: \<open>write\<close> sends everything once. It hands to the inner stream, in one call, exactly the frames
  of a cutting of the given pieces into messages, under consecutive nonces, after whatever an
  earlier write that failed has left over. If the inner stream accepts them nothing is left; if
  not, the error is passed on and the ciphertext is kept for the next write. The two overloads
  agree.
\<close>

theorem kj_write_sends:
  assumes "crypto_ok C" "ws_encryptor s = Some e" "encryption_ok e" "pending e = []"
  shows "\<exists>ms e'. messages ms \<and> concat ms = concat pieces
    \<and> (let out = availableData e @ seal_all (frame C) (next_box C) (cs_box e) ms; q = kj_write io out w
       in kj_writev C io pieces s w = (fst q, s\<lparr>ws_encryptor := Some e'\<rparr>, snd q)
          \<and> availableData e' = (if fst q = Inr () then [] else out))
    \<and> cs_box e' = (next_box C ^^ length ms) (cs_box e) \<and> encryption_ok e' \<and> pending e' = []
    \<and> kj_write1 C io (concat pieces) s w = kj_writev C io [concat pieces] s w"
proof -
  have e: "e = stream (availableData e) [] (cs_box e)"
    using assms(3,4) stream_view [of e] by (simp add: encryption_ok_def)
  from kj_writev_stream [OF assms(1), of s "availableData e" "cs_box e" pieces io w] obtain ms where ms:
    "messages ms" "concat ms = concat pieces"
    "let out = availableData e @ seal_messages C (cs_box e) ms; b' = (next_box C ^^ length ms) (cs_box e);
       q = kj_write io out w
     in kj_writev C io pieces s w = (fst q, s\<lparr>ws_encryptor :=
          Some (if fst q = Inr () then stream [] [] b' else stream out [] b')\<rparr>, snd q)"
    using assms(2) e by metis
  let ?out = "availableData e @ seal_messages C (cs_box e) ms"
  let ?b = "(next_box C ^^ length ms) (cs_box e)"
  let ?e' = "if fst (kj_write io ?out w) = Inr () then stream [] [] ?b else stream ?out [] ?b"
  show ?thesis
    using ms by (intro exI [of _ ms] exI [of _ ?e']) (simp add: Let_def encryption_ok_def kj_write1_eq)
qed

theorem kj_write_sends_witness:
  "\<exists>ms s' w'. concat ms = [1, 2, 3]
     \<and> kj_writev toy mem_kj [[1], [], [2, 3]] ((new_WrappedStream demo_c0 None True)
         \<lparr>ws_encryptor := Some (stream [8] [] (demo_box Compact))\<rparr>) ([], []) = (Inr (), s', w')
     \<and> snd w' = 8 # seal_messages toy (demo_box Compact) ms"
proof -
  let ?s = "(new_WrappedStream demo_c0 None True)\<lparr>ws_encryptor := Some (stream [8] [] (demo_box Compact))\<rparr>"
  have "ws_encryptor ?s = Some (stream [8] [] (demo_box Compact))" by simp
  from kj_write_sends [OF toy_ok this, of "[[1], [], [2, 3]]" mem_kj "([], [])"]
  show ?thesis by (auto simp: mem_kj_def Let_def)
qed

text \<open>What a successful \<open>tryRead\<close> has done: \<open>d'\<close> is the decryptor after the bytes were pushed.\<close>

definition read_result :: "'w kj_stream \<Rightarrow> nat \<Rightarrow> nat \<Rightarrow> CryptoStream \<Rightarrow> bytes \<Rightarrow> CryptoStream
    \<Rightarrow> 'w \<Rightarrow> 'w \<Rightarrow> bool" where
  "read_result io minBytes maxBytes d' bs d w w' \<longleftrightarrow>
     (if minBytes \<le> length (availableData d')
      then bs = take maxBytes (availableData d') \<and> availableData d = drop maxBytes (availableData d') \<and> w' = w
      else bs = [] \<and> d = d' \<and> kj_tryRead io 1 maxBytes w = (Inr [], w'))"

lemma bytesAvailable_length: "stream_ok d \<Longrightarrow> bytesAvailable d = length (availableData d)"
  by (auto simp: bytesAvailable_def availableData_def stream_ok_def)

lemma tryRead_delivers:
  assumes "crypto_ok C"
  shows "ws_decryptor s = Some d \<Longrightarrow> stream_ok d \<Longrightarrow>
    tryRead n C io minBytes maxBytes s w = Some (Inr bs, s', w') \<Longrightarrow>
    \<exists>chunks w1 d1 d2. stream_reads (kj_tryRead io 1 maxBytes) w chunks w1 \<and> push_all C d chunks = (Inr True, d1)
      \<and> s' = s\<lparr>ws_decryptor := Some d2\<rparr> \<and> read_result io minBytes maxBytes d1 bs d2 w1 w'
      \<and> pending d2 = pending d1 \<and> cs_box d2 = cs_box d1 \<and> stream_ok d2"
proof (induction n arbitrary: s d w)
  case (Suc n)
  note len = bytesAvailable_length [OF Suc.prems(2)]
  show ?case
  proof (cases "minBytes \<le> bytesAvailable d")
    case True
    obtain r t b where d: "d = stream r t b" using Suc.prems(2) by (rule stream_cases)
    have "bs = take maxBytes r" "s' = s\<lparr>ws_decryptor := Some (stream (drop maxBytes r) t b)\<rparr>" "w' = w"
      using Suc.prems(1,3) True d by (auto simp: pull_stream)
    then show ?thesis
      using True len d by (intro exI [of _ "[]"] exI [of _ w] exI [of _ d]
          exI [of _ "stream (drop maxBytes r) t b"]) (simp add: read_result_def stream_reads.none)
  next
    case False
    obtain q w1 where q: "kj_tryRead io 1 maxBytes w = (q, w1)" by fastforce
    then obtain enc where enc: "q = Inr enc" using Suc.prems(1,3) False by (cases q) auto
    show ?thesis
    proof (cases "enc = []")
      case eof: True
      then have "bs = []" "s' = s" "w' = w1" using Suc.prems(1,3) False q enc by auto
      then show ?thesis
        using False len q enc eof Suc.prems(1,2)
        by (intro exI [of _ "[]"] exI [of _ w] exI [of _ d])
          (simp add: read_result_def stream_reads.none)
    next
      case data: False
      from decryption_push_cases [OF assms Suc.prems(2), of enc] obtain g d1 where
        d: "decryption_push C d enc = (Inr g, d1)" "stream_ok d1" by (metis stream_simps(4))
      then have "g" and rec: "tryRead n C io minBytes maxBytes (s\<lparr>ws_decryptor := Some d1\<rparr>) w1
          = Some (Inr bs, s', w')"
        using Suc.prems(1,3) False q enc data by (auto split: if_splits)
      from Suc.IH [OF _ d(2) rec] obtain chunks w2 d2 d3 where i: "stream_reads (kj_tryRead io 1 maxBytes) w1 chunks w2"
        "push_all C d1 chunks = (Inr True, d2)" "s' = s\<lparr>ws_decryptor := Some d3\<rparr>"
        "read_result io minBytes maxBytes d2 bs d3 w2 w'" "pending d3 = pending d2" "cs_box d3 = cs_box d2"
        "stream_ok d3"
        by auto
      then show ?thesis
        using d(1) \<open>g\<close> stream_reads.more [of "kj_tryRead io 1 maxBytes" w enc w1 chunks w2] q enc data
        by (intro exI [of _ "enc # chunks"] exI [of _ w2] exI [of _ d2] exI [of _ d3]) simp
    qed
  qed
qed simp

lemma tryRead_fuel:
  assumes "\<And>w b w'. kj_tryRead io 1 maxBytes w = (Inr b, w') \<Longrightarrow> b \<noteq> [] \<Longrightarrow> m w' < (m w :: nat)"
  shows "m w < n \<Longrightarrow> tryRead n C io minBytes maxBytes s w \<noteq> None"
proof (induction n arbitrary: s w)
  case (Suc n)
  have "tryRead n C io minBytes maxBytes s1 w1 \<noteq> None"
    if "kj_tryRead io 1 maxBytes w = (Inr b, w1)" "b \<noteq> []" for s1 b w1
    using Suc.IH assms [OF that] Suc.prems by simp
  then show ?case by (auto split: option.splits prod.splits sum.splits)
qed simp

text \<open>
  C29: \<open>tryRead\<close> delivers the decrypted data in order, without repetition. A successful call has
  pushed into the decryptor exactly the bytes it read from the inner stream, and returns the
  first \<open>maxBytes\<close> of the decrypted bytes not returned before, once there are \<open>minBytes\<close> of them;
  the others stay for the next call. Otherwise the inner stream has ended, and it returns no
  bytes at all, however many there are. And it returns as soon as the inner stream has nothing more
  to give: if every read of it that returns data decreases some measure of what is left, then as many
  calls of itself as that measure says, and one, are enough.
\<close>

theorem kj_read_delivers:
  assumes "crypto_ok C" "ws_decryptor s = Some d" "stream_ok d"
  shows "(\<forall>bs s' w'. tryRead fuel C io minBytes maxBytes s w = Some (Inr bs, s', w') \<longrightarrow>
      (\<exists>chunks w1 d1 d2. stream_reads (kj_tryRead io 1 maxBytes) w chunks w1 \<and> push_all C d chunks = (Inr True, d1)
        \<and> ws_decryptor s' = Some d2 \<and> stream_ok d2 \<and> pending d2 = pending d1
        \<and> (if minBytes \<le> length (availableData d1)
           then bs = take maxBytes (availableData d1) \<and> availableData d2 = drop maxBytes (availableData d1) \<and> w' = w1
           else bs = [] \<and> d2 = d1 \<and> kj_tryRead io 1 maxBytes w1 = (Inr [], w'))))
    \<and> (\<forall>m. (\<forall>w b w'. kj_tryRead io 1 maxBytes w = (Inr b, w') \<longrightarrow> b \<noteq> [] \<longrightarrow> m w' < (m w :: nat)) \<and> m w < fuel \<longrightarrow>
         (\<exists>result. tryRead fuel C io minBytes maxBytes s w = Some result))"
proof (intro conjI allI impI, goal_cases)
  case (1 bs s' w')
  from tryRead_delivers [OF assms this] show ?case unfolding read_result_def by fastforce
next
  case (2 m)
  then have "tryRead fuel C io minBytes maxBytes s w \<noteq> None" using tryRead_fuel [where m = m] by blast
  then show ?case by blast
qed

definition demo_wrapped :: "bytes \<Rightarrow> bytes \<Rightarrow> WrappedStream" where
  "demo_wrapped r t = (new_WrappedStream demo_c0 None True)\<lparr>ws_decryptor := Some (stream r t (demo_box Compact))\<rparr>"

lemma demo_wrapped_simps [simp]:
  "ws_decryptor (demo_wrapped r t) = Some (stream r t (demo_box Compact))"
  by (simp add: demo_wrapped_def)

theorem kj_read_delivers_witness:
  "(\<exists>s' w'. tryRead 1 toy mem_kj 1 2 (demo_wrapped [7, 8, 9] []) ([], []) = Some (Inr [7, 8], s', w')
     \<and> (\<exists>d2. ws_decryptor s' = Some d2 \<and> stream_ok d2))
   \<and> (\<exists>result. tryRead 6 toy mem_kj 4 3 (demo_wrapped [8] []) ([0, 2, 1, 1, 1], []) = Some result)"
proof
  obtain s' w' where t: "tryRead 1 toy mem_kj 1 2 (demo_wrapped [7, 8, 9] []) ([], [])
      = Some (Inr [7, 8], s', w')" by (simp add: pull_stream)
  from kj_read_delivers [OF toy_ok demo_wrapped_simps stream_simps(4), THEN conjunct1, rule_format, OF t] t
  show "\<exists>s' w'. tryRead 1 toy mem_kj 1 2 (demo_wrapped [7, 8, 9] []) ([], []) = Some (Inr [7, 8], s', w')
     \<and> (\<exists>d2. ws_decryptor s' = Some d2 \<and> stream_ok d2)" by blast
  have "\<forall>w b w'. kj_tryRead mem_kj 1 3 w = (Inr b, w') \<longrightarrow> b \<noteq> [] \<longrightarrow> length (fst w') < length (fst w)"
    by (auto simp: mem_kj_def)
  then show "\<exists>result. tryRead 6 toy mem_kj 4 3 (demo_wrapped [8] []) ([0, 2, 1, 1, 1], []) = Some result"
    using kj_read_delivers [OF toy_ok demo_wrapped_simps stream_simps(4),
        THEN conjunct2, rule_format, of mem_kj 3 "\<lambda>w. length (fst w)"] by simp
qed

text \<open>The end of the inner stream while fewer than \<open>minBytes\<close> decrypted bytes, and possibly part of a
  message, are waiting looks like a clean end.\<close>

lemma tryRead_drops_tail:
  assumes "ws_decryptor s = Some d" "bytesAvailable d < minBytes"
    and "kj_tryRead io 1 maxBytes w = (Inr [], w')"
  shows "tryRead (Suc n) C io minBytes maxBytes s w = Some (Inr [], s, w')"
  using assms by simp

end
