(* ===== verification/Interop.thy ===== *)
theory Interop
  imports Connection_Safety Channel
begin

text \<open>
  Connections between the adapters. An end of an encrypted connection is a \<open>WrappedStream\<close> of the KJ
  adapter or a \<open>SecretHandshakeStream\<close> of the Crouton adapter after its handshake, on which reads and
  writes are made in any order. What passes to and from its inner stream is recorded. The locale
  \<open>sealed_end\<close> is what an end of either kind promises about that traffic, \<open>secure_link\<close> connects two
  ends whose sessions match; it is interpreted for all four combinations of the adapters.
\<close>

section \<open>Recording the traffic\<close>

text \<open>An inner stream that keeps, beside its state, the bytes it has accepted and the bytes it has
  given.\<close>

definition tapped :: "('e + bytes) \<times> 'w \<Rightarrow> bytes \<Rightarrow> bytes \<Rightarrow> ('e + bytes) \<times> 'w \<times> bytes \<times> bytes" where
  "tapped q out inp = (fst q, snd q, out, inp @ (case fst q of Inl _ \<Rightarrow> [] | Inr bs \<Rightarrow> bs))"

definition accepted :: "('e + unit) \<times> 'w \<Rightarrow> bytes \<Rightarrow> bytes \<Rightarrow> bytes \<Rightarrow> ('e + unit) \<times> 'w \<times> bytes \<times> bytes" where
  "accepted q bs out inp = (fst q, snd q, (if fst q = Inr () then out @ bs else out), inp)"

definition tap_kj :: "'w kj_stream \<Rightarrow> ('w \<times> bytes \<times> bytes) kj_stream" where
  "tap_kj io = \<lparr>kj_write = (\<lambda>bs (w, out, inp). accepted (kj_write io bs w) bs out inp),
     kj_read = (\<lambda>n (w, out, inp). tapped (kj_read io n w) out inp),
     kj_tryRead = (\<lambda>m n (w, out, inp). tapped (kj_tryRead io m n w) out inp),
     kj_shutdownWrite = (\<lambda>(w, t). (kj_shutdownWrite io w, t)),
     kj_abortRead = (\<lambda>(w, t). (kj_abortRead io w, t)),
     kj_whenWriteDisconnected = (\<lambda>(w, t). kj_whenWriteDisconnected io w),
     kj_getsockopt = (\<lambda>l opt n (w, t). apsnd (\<lambda>w1. (w1, t)) (kj_getsockopt io l opt n w)),
     kj_setsockopt = (\<lambda>l opt v (w, t). apsnd (\<lambda>w1. (w1, t)) (kj_setsockopt io l opt v w)),
     kj_getsockname = (\<lambda>n (w, t). apsnd (\<lambda>w1. (w1, t)) (kj_getsockname io n w)),
     kj_getpeername = (\<lambda>n (w, t). apsnd (\<lambda>w1. (w1, t)) (kj_getpeername io n w)),
     kj_getFd = (\<lambda>(w, t). kj_getFd io w), inet_ntop = inet_ntop io\<rparr>"

definition tap_io :: "'w io_stream \<Rightarrow> ('w \<times> bytes \<times> bytes) io_stream" where
  "tap_io io = \<lparr>io_isOpen = (\<lambda>(w, t). io_isOpen io w),
     io_open = (\<lambda>(w, t). apsnd (\<lambda>w1. (w1, t)) (io_open io w)),
     io_write = (\<lambda>bs (w, out, inp). accepted (io_write io bs w) bs out inp),
     io_read = (\<lambda>n (w, out, inp). tapped (io_read io n w) out inp),
     io_readNoCopy = (\<lambda>(w, out, inp). tapped (io_readNoCopy io w) out inp),
     io_close = (\<lambda>(w, t). apsnd (\<lambda>w1. (w1, t)) (io_close io w)),
     io_closeWrite = (\<lambda>(w, t). apsnd (\<lambda>w1. (w1, t)) (io_closeWrite io w))\<rparr>"

lemma tap_write [simp]:
  "kj_write (tap_kj io) bs (w, out, inp) = accepted (kj_write io bs w) bs out inp"
  "io_write (tap_io io') bs (w', out, inp) = accepted (io_write io' bs w') bs out inp"
  by (simp_all add: tap_kj_def tap_io_def)

lemma tap_reads:
  assumes "\<And>w out inp. rd (w, out, inp) = tapped (rd0 w) out inp"
    and "stream_reads rd (w, out, inp) chunks w'"
  shows "\<exists>w1. w' = (w1, out, inp @ concat chunks)"
  using assms(2)
proof (induction "(w, out, inp)" chunks w' arbitrary: w inp rule: stream_reads.induct)
  case (more b w1 bs w')
  then obtain w2 where "w1 = (w2, out, inp @ b)" by (auto simp: assms(1) tapped_def)
  from more(4) [OF this] show ?case by simp
qed simp

section \<open>Ends of a connection\<close>

text \<open>
  All successful writes and reads on an end with session \<open>S\<close>: the bytes written to it and those read
  from it.
\<close>

inductive kj_traffic :: "crypto \<Rightarrow> 'w kj_stream \<Rightarrow> Session \<Rightarrow> WrappedStream \<Rightarrow> 'w \<times> bytes \<times> bytes
    \<Rightarrow> bytes \<Rightarrow> bytes \<Rightarrow> bool" for C io S where
  start: "ws_encryptor s = Some (EncryptionStream_of_session S Compact)
    \<Longrightarrow> ws_decryptor s = Some (DecryptionStream_of_session S Compact)
    \<Longrightarrow> kj_traffic C io S s (w, [], []) [] []"
| writes: "kj_traffic C io S s w sent got \<Longrightarrow> kj_writev C (tap_kj io) pieces s w = (Inr (), s', w')
    \<Longrightarrow> kj_traffic C io S s' w' (sent @ concat pieces) got"
| reads: "kj_traffic C io S s w sent got
    \<Longrightarrow> tryRead fuel C (tap_kj io) minBytes maxBytes s w = Some (Inr bs, s', w')
    \<Longrightarrow> kj_traffic C io S s' w' sent (got @ bs)"

inductive crouton_traffic :: "crypto \<Rightarrow> 'w io_stream \<Rightarrow> Session
    \<Rightarrow> ('w \<times> bytes \<times> bytes) SecretHandshakeStream \<Rightarrow> bytes \<Rightarrow> bytes \<Rightarrow> bool" for C io S where
  start: "isOpen s \<Longrightarrow> s_writer s = Some (EncryptionStream_of_session S Compact)
    \<Longrightarrow> s_reader s = Some (DecryptionStream_of_session S Compact)
    \<Longrightarrow> s_lastWriteSize s = 0 \<Longrightarrow> s_lastReadSize s = 0 \<Longrightarrow> s_stream s = Some (w, [], [])
    \<Longrightarrow> crouton_traffic C io S s [] []"
| writes: "crouton_traffic C io S s sent got \<Longrightarrow> stream_write C (tap_io io) buffers s = (Inr (), s')
    \<Longrightarrow> crouton_traffic C io S s' (sent @ concat buffers) got"
| reads: "crouton_traffic C io S s sent got \<Longrightarrow> 0 < maxLen
    \<Longrightarrow> readNoCopy fuel C (tap_io io) maxLen s = Some (Inr bs, s')
    \<Longrightarrow> crouton_traffic C io S s' sent (got @ bs)"

text \<open>
  The contract of an end: what it has sent is sealed messages of the bytes written, and the bytes it
  has read, with those it has ready, are what the bytes received open to.
\<close>

definition end_state :: "crypto \<Rightarrow> Session \<Rightarrow> bytes \<Rightarrow> bytes \<Rightarrow> bytes \<Rightarrow> bytes \<Rightarrow> CryptoBox \<Rightarrow> CryptoStream \<Rightarrow> bool" where
  "end_state C S out inp sent got b d \<longleftrightarrow> (\<exists>ms. messages ms \<and> concat ms = sent
      \<and> out = seal_messages C (EncryptoBox_of_session S Compact) ms
      \<and> b = (next_box C ^^ length ms) (EncryptoBox_of_session S Compact))
    \<and> stream_ok d \<and> parses_frames C (DecryptoBox_of_session S Compact) inp (got @ availableData d)
        (cs_box d) (pending d) True"

lemma end_starts:
  assumes "crypto_ok C"
  shows "end_state C S [] [] [] [] (EncryptoBox_of_session S Compact) (DecryptionStream_of_session S Compact)"
proof -
  have "parses_frames C (DecryptoBox_of_session S Compact) [] [] (DecryptoBox_of_session S Compact) [] True"
    using assms by (intro parses.wait box_codec.unseal_Nil) (simp add: codec_ok_def)
  then show ?thesis by (auto simp: end_state_def session_streams intro!: exI [of _ "[]"])
qed

lemma end_writes:
  assumes "end_state C S out inp sent got b d" "messages ns" "concat ns = data"
  shows "end_state C S (out @ seal_messages C b ns) inp (sent @ data) got ((next_box C ^^ length ns) b) d"
proof -
  let ?b = "EncryptoBox_of_session S Compact"
  obtain ms where ms: "messages ms" "concat ms = sent" "out = seal_messages C ?b ms"
    "b = (next_box C ^^ length ms) ?b" using assms(1) by (auto simp: end_state_def)
  have "(next_box C ^^ length ns) b = (next_box C ^^ length (ms @ ns)) ?b"
    using ms(4) by (simp add: funpow_add [symmetric, THEN fun_cong, simplified] add.commute)
  moreover have "out @ seal_messages C b ns = seal_messages C ?b (ms @ ns)"
    using ms(3,4) by (simp add: seal_all_append)
  moreover have "messages (ms @ ns)" "concat (ms @ ns) = sent @ data" using ms assms(2,3) by simp_all
  ultimately show ?thesis using assms(1) unfolding end_state_def by blast
qed

lemma push_all_parses:
  assumes "crypto_ok C"
  shows "parses_frames C b0 w p b t True \<Longrightarrow> push_all C (stream r t b) chunks = (Inr True, d)
    \<Longrightarrow> \<exists>q b' t'. d = stream (r @ q) t' b' \<and> parses_frames C b0 (w @ concat chunks) (p @ q) b' t' True"
proof (induction chunks arbitrary: w p r t b)
  case (Cons c cs)
  obtain q b1 t1 g where q: "parses_frames C b (t @ c) q b1 t1 g"
    using parses_frames_total [OF assms] by blast
  from decryption_push_parses [OF assms q, of r] Cons.prems(2)
  have g: "g" "push_all C (stream (r @ q) t1 b1) cs = (Inr True, d)" by (auto split: if_splits)
  have "parses_frames C b0 (w @ c) (p @ q) b1 t1 True"
    using box_codec.parses_append [OF Cons.prems(1) q] assms g(1) by (simp add: codec_ok_def)
  from Cons.IH [OF this g(2)] show ?case by auto
qed fastforce

lemma end_reads:
  assumes "crypto_ok C" "end_state C S out inp sent got b d" "push_all C d chunks = (Inr True, d1)"
    and "availableData d1 = bs @ availableData d2" "pending d2 = pending d1" "cs_box d2 = cs_box d1" "stream_ok d2"
  shows "end_state C S out (inp @ concat chunks) sent (got @ bs) b d2"
proof -
  let ?b = "DecryptoBox_of_session S Compact"
  have d: "parses_frames C ?b inp (got @ availableData d) (cs_box d) (pending d) True"
    "d = stream (availableData d) (pending d) (cs_box d)"
    using assms(2) stream_view by (auto simp: end_state_def)
  obtain q b' t' where "d1 = stream (availableData d @ q) t' b'"
    "parses_frames C ?b (inp @ concat chunks) ((got @ availableData d) @ q) b' t' True"
    using push_all_parses [OF assms(1) d(1)] assms(3) d(2) by metis
  then have "parses_frames C ?b (inp @ concat chunks) ((got @ bs) @ availableData d2) (cs_box d2) (pending d2) True"
    using assms(4-6) by simp
  then show ?thesis using assms(2,7) by (simp add: end_state_def)
qed

section \<open>Both adapters keep the contract\<close>

lemma kj_traffic_inv:
  assumes "crypto_ok C"
  shows "kj_traffic C io S s v sent got \<Longrightarrow> \<exists>w out inp b d. v = (w, out, inp)
    \<and> ws_encryptor s = Some (stream [] [] b) \<and> ws_decryptor s = Some d \<and> end_state C S out inp sent got b d"
proof (induction rule: kj_traffic.induct)
  case (start s w)
  then show ?case using end_starts [OF assms, of S] by (fastforce simp: session_streams)
next
  case (writes s v sent got pieces s' v')
  then obtain w out inp b d where i: "v = (w, out, inp)" "ws_encryptor s = Some (stream [] [] b)"
    "ws_decryptor s = Some d" "end_state C S out inp sent got b d" by blast
  from kj_writev_stream [OF assms i(2), of pieces "tap_kj io" v] obtain ms where ms: "messages ms"
    "concat ms = concat pieces"
    "let out = seal_messages C b ms; b' = (next_box C ^^ length ms) b; q = kj_write (tap_kj io) out v
     in kj_writev C (tap_kj io) pieces s v = (fst q, s\<lparr>ws_encryptor :=
          Some (if fst q = Inr () then stream [] [] b' else stream out [] b')\<rparr>, snd q)" by auto
  have "fst (kj_write (tap_kj io) (seal_messages C b ms) v) = Inr ()"
    "v' = snd (kj_write (tap_kj io) (seal_messages C b ms) v)"
    "s' = s\<lparr>ws_encryptor := Some (stream [] [] ((next_box C ^^ length ms) b))\<rparr>"
    using ms(3) writes.hyps(2) by (auto simp: Let_def split: if_splits)
  then show ?case using i end_writes [OF i(4) ms(1,2)] by (auto simp: accepted_def)
next
  case (reads s v sent got fuel minBytes maxBytes bs s' v')
  then obtain w out inp b d where i: "v = (w, out, inp)" "ws_encryptor s = Some (stream [] [] b)"
    "ws_decryptor s = Some d" "end_state C S out inp sent got b d" by blast
  then have "stream_ok d" by (simp add: end_state_def)
  from tryRead_delivers [OF assms i(3) this reads.hyps(2)] obtain chunks v1 d1 d2 where
    r: "stream_reads (kj_tryRead (tap_kj io) 1 maxBytes) v chunks v1" "push_all C d chunks = (Inr True, d1)"
      "s' = s\<lparr>ws_decryptor := Some d2\<rparr>" "read_result (tap_kj io) minBytes maxBytes d1 bs d2 v1 v'"
      "pending d2 = pending d1" "cs_box d2 = cs_box d1" "stream_ok d2" by blast
  obtain w1 where v1: "v1 = (w1, out, inp @ concat chunks)"
    using tap_reads [OF _ r(1) [unfolded i(1)], of "kj_tryRead io 1 maxBytes"] by (auto simp: tap_kj_def)
  have "\<exists>w2. v' = (w2, out, inp @ concat chunks)" "availableData d1 = bs @ availableData d2"
    using r(4) v1 by (auto simp: read_result_def tap_kj_def tapped_def split: if_splits)
  then show ?case using i(2) r(3) end_reads [OF assms i(4) r(2) _ r(5-7)] by auto
qed

text \<open>What the other calls of a Crouton stream leave alone.\<close>

lemma stream_write_frame:
  "stream_write C io buffers s = (r, s') \<Longrightarrow> s_reader s' = s_reader s \<and> s_lastReadSize s' = s_lastReadSize s"
  by (auto simp: stream_write_def Let_def split: option.splits if_splits prod.splits sum.splits)

lemma peek_loop_frame:
  "peek_loop n C io r w s = Some (Inr bs, s') \<Longrightarrow> s_writer s' = s_writer s \<and> s_lastWriteSize s' = s_lastWriteSize s"
proof (induction n arbitrary: r w)
  case (Suc n)
  show ?case
  proof (cases "bytesAvailable r = 0")
    case True
    obtain q w1 where q: "io_readNoCopy io w = (q, w1)" by fastforce
    then obtain enc where enc: "q = Inr enc" using Suc.prems True by (cases q) auto
    obtain ok r1 where c: "close r = (ok, r1)" by fastforce
    obtain g r2 where d: "decryption_push C r enc = (g, r2)" by fastforce
    show ?thesis
      using Suc.prems Suc.IH [of r2 w1] True q enc c d by (cases g) (auto simp: Let_def split: if_splits)
  qed (use Suc.prems in auto)
qed simp

lemma readNoCopy_frame:
  assumes "s_open s" "s_reader s = Some r" "s_stream s = Some w"
    and "readNoCopy fuel C io maxLen s = Some (Inr bs, s')"
  shows "s_writer s' = s_writer s" "s_lastWriteSize s' = s_lastWriteSize s"
proof -
  obtain ps s1 where p: "peekNoCopy fuel C io s = Some (Inr ps, s1)" "s' = s1\<lparr>s_lastReadSize := length bs\<rparr>"
    using assms(4) by (auto simp: readNoCopy_def Let_def split: option.splits prod.splits sum.splits)
  from peek_loop_frame [OF p(1) [unfolded peekNoCopy_open [OF assms(1-3)]]] p(2)
  show "s_writer s' = s_writer s" "s_lastWriteSize s' = s_lastWriteSize s" by simp_all
qed

lemma reader_now_simps:
  assumes "stream_ok r"
  shows "stream_ok (reader_now s r)" "pending (reader_now s r) = pending r" "cs_box (reader_now s r) = cs_box r"
proof -
  obtain a t b where "r = stream a t b" using assms by (rule stream_cases)
  then show "stream_ok (reader_now s r)" "pending (reader_now s r) = pending r" "cs_box (reader_now s r) = cs_box r"
    by (simp_all add: reader_now_def skip_stream)
qed

lemma push_all_ok: "crypto_ok C \<Longrightarrow> stream_ok d \<Longrightarrow> push_all C d chunks = (Inr g, d') \<Longrightarrow> stream_ok d'"
proof (induction chunks arbitrary: d)
  case (Cons c cs)
  from decryption_push_cases [OF Cons.prems(1,2), of c] obtain q d1 where
    d: "decryption_push C d c = (Inr q, d1)" "stream_ok d1" by (metis stream_simps(4))
  show ?case using Cons.IH [OF Cons.prems(1) d(2)] Cons.prems(3) d by (cases q) simp_all
qed simp

text \<open>An open Crouton stream that has carried this traffic; \<open>reader_now\<close> is its reader without the bytes
  that the last read has returned.\<close>

definition crouton_inv :: "crypto \<Rightarrow> Session \<Rightarrow> ('w \<times> bytes \<times> bytes) SecretHandshakeStream \<Rightarrow> bytes \<Rightarrow> bytes \<Rightarrow> bool" where
  "crouton_inv C S s sent got \<longleftrightarrow> (\<exists>w out inp e r. s_stream s = Some (w, out, inp) \<and> s_open s
    \<and> writer_ok s e \<and> s_reader s = Some r \<and> stream_ok r \<and> end_state C S out inp sent got (cs_box e) (reader_now s r))"

lemma crouton_inv_writes:
  assumes "crypto_ok C" "crouton_inv C S s sent got" "stream_write C (tap_io io) buffers s = (Inr (), s')"
  shows "crouton_inv C S s' (sent @ concat buffers) got"
proof -
  obtain w out inp e r where i: "s_stream s = Some (w, out, inp)" "s_open s" "writer_ok s e"
    "s_reader s = Some r" "stream_ok r" "end_state C S out inp sent got (cs_box e) (reader_now s r)"
    using assms(2) unfolding crouton_inv_def by blast
  from stream_write_sends [OF assms(1) i(2,3,1), of buffers "tap_io io"] obtain ms s1 e' where
    ms: "messages ms" "concat ms = concat buffers"
      "stream_write C (tap_io io) buffers s
        = (fst (io_write (tap_io io) (seal_messages C (cs_box e) ms) (w, out, inp)), s1)"
      "s_stream s1 = Some (snd (io_write (tap_io io) (seal_messages C (cs_box e) ms) (w, out, inp)))"
      "writer_ok s1 e'" "cs_box e' = (next_box C ^^ length ms) (cs_box e)" "s_open s1" by blast
  have "s1 = s'" "fst (io_write io (seal_messages C (cs_box e) ms) w) = Inr ()"
    using ms(3) assms(3) by (auto simp: accepted_def)
  moreover have "s_reader s' = Some r" "reader_now s' r = reader_now s r"
    using stream_write_frame [OF assms(3)] i(4) by (simp_all add: reader_now_def)
  ultimately show ?thesis unfolding crouton_inv_def
    using ms(4-7) i(5) end_writes [OF i(6) ms(1,2)] by (auto simp: accepted_def)
qed

lemma crouton_inv_reads:
  assumes "crypto_ok C" "crouton_inv C S s sent got" "0 < maxLen"
    and "readNoCopy fuel C (tap_io io) maxLen s = Some (Inr bs, s')"
  shows "crouton_inv C S s' sent (got @ bs)"
proof -
  obtain w out inp e r where i: "s_stream s = Some (w, out, inp)" "s_open s" "writer_ok s e"
    "s_reader s = Some r" "stream_ok r" "end_state C S out inp sent got (cs_box e) (reader_now s r)"
    using assms(2) unfolding crouton_inv_def by blast
  note keeps = readNoCopy_frame [OF i(2,4,1) assms(4)]
  from readNoCopy_delivers [OF assms(1) i(2,4,5,1) assms(4,3)] obtain chunks v r' where
    d: "stream_reads (io_readNoCopy (tap_io io)) (w, out, inp) chunks v"
      "push_all C (reader_now s r) chunks = (Inr True, r')" "s_reader s' = Some r'"
      "bs = take maxLen (availableData r')"
      "availableData (reader_now s' r') = drop (length bs) (availableData r')"
      "if bs = [] then pending r' = [] \<and> (\<exists>w2. io_readNoCopy (tap_io io) v = (Inr [], w2) \<and> s_stream s' = Some w2)
       else s_stream s' = Some v" "s_open s'" by blast
  obtain w1 where v: "v = (w1, out, inp @ concat chunks)"
    using tap_reads [OF _ d(1), of "io_readNoCopy io"] by (auto simp: tap_io_def)
  have ok: "stream_ok r'" using push_all_ok [OF assms(1) reader_now_ok [OF i(5)] d(2)] .
  obtain w2 where "s_stream s' = Some (w2, out, inp @ concat chunks)"
    using d(6) v by (auto simp: tap_io_def tapped_def split: if_splits)
  moreover have "availableData r' = bs @ availableData (reader_now s' r')"
    using d(4,5) by (cases "maxLen \<le> length (availableData r')") simp_all
  then have "end_state C S out (inp @ concat chunks) sent (got @ bs) (cs_box e) (reader_now s' r')"
    using end_reads [OF assms(1) i(6) d(2)] reader_now_simps [OF ok] by blast
  moreover have "writer_ok s' e" using i(3) keeps by (simp add: writer_ok_def)
  ultimately show ?thesis unfolding crouton_inv_def using d(3,7) ok by blast
qed

lemma crouton_traffic_inv:
  assumes "crypto_ok C"
  shows "crouton_traffic C io S s sent got \<Longrightarrow> crouton_inv C S s sent got"
proof (induction rule: crouton_traffic.induct)
  case (start s w)
  then show ?case using end_starts [OF assms, of S] unfolding crouton_inv_def
    by (intro exI [of _ w] exI [of _ "[]"] exI [of _ "EncryptionStream_of_session S Compact"]
        exI [of _ "DecryptionStream_of_session S Compact"])
      (simp add: session_streams writer_ok_def reader_now_def skip_stream isOpen_def)
qed (use assms crouton_inv_writes crouton_inv_reads in blast)+

text \<open>A stream that \<open>wrap\<close> has resolved to is such an end, with the session of its handshake.\<close>

lemma wrapped_stream_starts:
  assumes "kj_ok io" "5 \<le> fuel" "wrap fuel C io W x w = Some (Resolved (s, w1))"
  shows "\<exists>S. ws_session s = Some S \<and> kj_traffic C io S s (w1, [], []) [] []"
proof -
  obtain k where "session_ok W s k" using wrap_session_ok [OF assms] .
  then show ?thesis by (auto simp: session_ok_def intro: kj_traffic.start)
qed

section \<open>The contract\<close>

text \<open>
  \<open>traffic S out inp sent got ready\<close>: an end with session \<open>S\<close>, to which \<open>sent\<close> was written and from
  which \<open>got\<close> was read, has given \<open>out\<close> to its inner stream, has taken \<open>inp\<close> from it, and has \<open>ready\<close>
  for the next read.
\<close>

locale sealed_end =
  fixes C :: crypto
    and traffic :: "Session \<Rightarrow> bytes \<Rightarrow> bytes \<Rightarrow> bytes \<Rightarrow> bytes \<Rightarrow> bytes \<Rightarrow> bool"
  assumes seals: "crypto_ok C \<Longrightarrow> traffic S out inp sent got ready \<Longrightarrow>
      \<exists>ms. messages ms \<and> concat ms = sent \<and> out = seal_messages C (EncryptoBox_of_session S Compact) ms"
    and opens: "crypto_ok C \<Longrightarrow> traffic S out inp sent got ready \<Longrightarrow>
      \<exists>b t. parses_frames C (DecryptoBox_of_session S Compact) inp (got @ ready) b t True"

locale secure_link = near: sealed_end C near + far: sealed_end C far
  for C :: crypto
    and near :: "Session \<Rightarrow> bytes \<Rightarrow> bytes \<Rightarrow> bytes \<Rightarrow> bytes \<Rightarrow> bytes \<Rightarrow> bool"
    and far :: "Session \<Rightarrow> bytes \<Rightarrow> bytes \<Rightarrow> bytes \<Rightarrow> bytes \<Rightarrow> bytes \<Rightarrow> bool"
begin

lemma delivers:
  assumes "crypto_ok C" "paired s t" "near s out inp sent got ready" "far t out' inp' sent' got' ready'"
    and "prefix inp' out"
  shows "prefix (got' @ ready') sent \<and> (inp' = out \<longrightarrow> got' @ ready' = sent)"
proof -
  let ?b = "EncryptoBox_of_session s Compact"
  have ok: "codec_ok C ?b" and b: "DecryptoBox_of_session t Compact = ?b"
    using assms(1,2) by (simp_all add: codec_ok_def paired_def EncryptoBox_of_session_def DecryptoBox_of_session_def)
  obtain ms where ms: "messages ms" "concat ms = sent" "out = seal_messages C ?b ms"
    using near.seals [OF assms(1,3)] by blast
  obtain b' rest where p: "parses_frames C ?b inp' (got' @ ready') b' rest True"
    using far.opens [OF assms(1,4)] b by auto
  from box_codec.parses_seal_all_prefix [OF ok messages_limit [OF ms(1)] assms(5) [unfolded ms(3)]] obtain k r where
    "parses_frames C ?b inp' (concat (take k ms)) ((next_box C ^^ k) ?b) r True" by blast
  with p have "got' @ ready' = concat (take k ms)" by (metis parses_det)
  moreover have "concat ms = concat (take k ms) @ concat (drop k ms)"
    by (metis append_take_drop_id concat_append)
  moreover have "got' @ ready' = concat ms" if "inp' = out"
    using box_codec.parses_seal_all [OF ok messages_limit [OF ms(1)]] p that ms(3) by (metis parses_det)
  ultimately show ?thesis using ms(2) by (metis prefixI)
qed

end

definition kj_end :: "crypto \<Rightarrow> 'w kj_stream \<Rightarrow> Session \<Rightarrow> bytes \<Rightarrow> bytes \<Rightarrow> bytes \<Rightarrow> bytes \<Rightarrow> bytes \<Rightarrow> bool" where
  "kj_end C io S out inp sent got ready \<longleftrightarrow> (\<exists>s w d. kj_traffic C io S s (w, out, inp) sent got
     \<and> ws_decryptor s = Some d \<and> ready = availableData d)"

definition crouton_end :: "crypto \<Rightarrow> 'w io_stream \<Rightarrow> Session \<Rightarrow> bytes \<Rightarrow> bytes \<Rightarrow> bytes \<Rightarrow> bytes \<Rightarrow> bytes \<Rightarrow> bool" where
  "crouton_end C io S out inp sent got ready \<longleftrightarrow> (\<exists>s w r. crouton_traffic C io S s sent got
     \<and> s_stream s = Some (w, out, inp) \<and> s_reader s = Some r \<and> ready = availableData (reader_now s r))"

lemma kj_end_state:
  assumes "crypto_ok C" "kj_end C io S out inp sent got ready"
  obtains b d where "end_state C S out inp sent got b d" "ready = availableData d"
  using assms(2) kj_traffic_inv [OF assms(1)] that by (fastforce simp: kj_end_def)

lemma crouton_end_state:
  assumes "crypto_ok C" "crouton_end C io S out inp sent got ready"
  obtains b d where "end_state C S out inp sent got b d" "ready = availableData d"
  using assms(2) crouton_traffic_inv [OF assms(1), unfolded crouton_inv_def] that
  by (fastforce simp: crouton_end_def)

interpretation kj_sealed: sealed_end C "kj_end C io" for C and io :: "'w kj_stream"
  by unfold_locales (metis kj_end_state end_state_def)+

interpretation crouton_sealed: sealed_end C "crouton_end C io" for C and io :: "'w io_stream"
  by unfold_locales (metis crouton_end_state end_state_def)+

interpretation kj_to_kj: secure_link C "kj_end C io" "kj_end C io'"
  for C and io :: "'w kj_stream" and io' :: "'v kj_stream" ..

interpretation kj_to_crouton: secure_link C "kj_end C io" "crouton_end C io'"
  for C and io :: "'w kj_stream" and io' :: "'v io_stream" ..

interpretation crouton_to_kj: secure_link C "crouton_end C io" "kj_end C io'"
  for C and io :: "'w io_stream" and io' :: "'v kj_stream" ..

interpretation crouton_to_crouton: secure_link C "crouton_end C io" "crouton_end C io'"
  for C and io :: "'w io_stream" and io' :: "'v io_stream" ..

section \<open>Property\<close>

text \<open>
  C8: the adapters understand each other. Take a \<open>WrappedStream\<close> of the KJ adapter or an open
  \<open>SecretHandshakeStream\<close> of the Crouton adapter on each side, with sessions that match, and any
  sequence of successful writes and reads on both, over any inner streams. If the bytes that one side
  has taken from its inner stream are a beginning of those that the other has given to its own, then
  what was read on it, with what it has ready, is a beginning of what was written on the other side,
  and all of it once all the bytes have been taken.
\<close>

theorem adapters_interoperate:
  assumes "crypto_ok C" "paired s t"
    and "kj_end C io s out inp sent got ready \<or> crouton_end C cio s out inp sent got ready"
    and "kj_end C io' t out' inp' sent' got' ready' \<or> crouton_end C cio' t out' inp' sent' got' ready'"
    and "prefix inp' out"
  shows "prefix (got' @ ready') sent \<and> (inp' = out \<longrightarrow> got' @ ready' = sent)"
  using assms(3,4) kj_to_kj.delivers [OF assms(1,2) _ _ assms(5)] kj_to_crouton.delivers [OF assms(1,2) _ _ assms(5)]
    crouton_to_kj.delivers [OF assms(1,2) _ _ assms(5)] crouton_to_crouton.delivers [OF assms(1,2) _ _ assms(5)]
  by (elim disjE) blast+

text \<open>A Crouton stream writes three bytes, a KJ stream reads what arrives.\<close>

definition demo_end_box :: CryptoBox where
  "demo_end_box = EncryptoBox_of_session demo_session Compact"

lemma demo_crouton_writes:
  obtains ms where "messages ms" "concat ms = [1, 2, 3]"
    "crouton_end toy mem_io demo_session (seal_messages toy demo_end_box ms) [] [1, 2, 3] [] []"
proof -
  let ?s = "(new_SecretHandshakeStream toy (Some (([], []), [], [])) (demo_ctx [1, 2]) None [7])
    \<lparr>s_open := True, s_writer := Some (EncryptionStream_of_session demo_session Compact),
     s_reader := Some (DecryptionStream_of_session demo_session Compact)\<rparr>"
  have e: "EncryptionStream_of_session demo_session Compact = stream [] [] demo_end_box"
    by (simp add: session_streams demo_end_box_def)
  have s: "s_stream ?s = Some (([], []), [], [])" "s_open ?s"
    "writer_ok ?s (stream [] [] demo_end_box)" "s_lastReadSize ?s = 0"
    by (simp_all add: new_SecretHandshakeStream_def writer_ok_def e)
  have t: "crouton_traffic toy mem_io demo_session ?s [] []"
    by (rule crouton_traffic.start) (simp_all add: new_SecretHandshakeStream_def isOpen_def)
  from stream_write_sends [OF toy_ok s(2,3,1), of "[[1], [2, 3]]" "tap_io mem_io"] obtain ms s1 where
    w: "messages ms" "concat ms = [1, 2, 3]" "stream_write toy (tap_io mem_io) [[1], [2, 3]] ?s = (Inr (), s1)"
      "s_stream s1 = Some (([], seal_messages toy demo_end_box ms), seal_messages toy demo_end_box ms, [])"
    by (auto simp: accepted_def mem_io_def)
  have "s_reader s1 = Some (stream [] [] (DecryptoBox_of_session demo_session Compact))" "s_lastReadSize s1 = 0"
    using stream_write_frame [OF w(3)] s(4) by (simp_all add: session_streams)
  then have "crouton_end toy mem_io demo_session (seal_messages toy demo_end_box ms) [] [1, 2, 3] [] []"
    using crouton_traffic.writes [OF t w(3)] w(4) unfolding crouton_end_def
    by (intro exI [of _ s1]) (simp add: reader_now_def skip_stream)
  then show ?thesis using that w(1,2) by blast
qed

theorem adapters_interoperate_witness:
  "\<exists>out got ready. crouton_end toy mem_io demo_session out [] [1, 2, 3] [] []
     \<and> kj_end toy mem_kj demo_session [] out [] got ready \<and> got @ ready = [1, 2, 3]"
proof -
  obtain ms where ms: "messages ms" "concat ms = [1, 2, 3]"
    "crouton_end toy mem_io demo_session (seal_messages toy demo_end_box ms) [] [1, 2, 3] [] []"
    by (rule demo_crouton_writes)
  let ?out = "seal_messages toy demo_end_box ms"
  let ?s = "(new_WrappedStream demo_c0 None True)
    \<lparr>ws_encryptor := Some (EncryptionStream_of_session demo_session Compact),
     ws_decryptor := Some (DecryptionStream_of_session demo_session Compact)\<rparr>"
  have d: "DecryptionStream_of_session demo_session Compact = stream [] [] demo_end_box"
    by (simp add: session_streams demo_end_box_def EncryptoBox_of_session_def DecryptoBox_of_session_def demo_session_def)
  have ok: "codec_ok toy demo_end_box" by (simp add: codec_ok_def toy_ok)
  have ne: "?out \<noteq> []" using ms(2) box_codec.seal_nonempty [OF ok] by (cases ms) auto
  have push: "decryption_push toy (stream [] [] demo_end_box) ?out
      = (Inr True, stream [1, 2, 3] [] ((next_box toy ^^ length ms) demo_end_box))"
    using decryption_push_parses [OF toy_ok, of _ "[]" ?out]
      box_codec.parses_seal_all [OF ok messages_limit [OF ms(1)]] ms(2) by simp
  have "kj_traffic toy mem_kj demo_session ?s ((?out, []), [], []) [] []"
    by (rule kj_traffic.start) simp_all
  moreover obtain bs s' d' where r: "tryRead 2 toy (tap_kj mem_kj) 1 (length ?out) ?s ((?out, []), [], [])
      = Some (Inr bs, s', (([], []), [], ?out))" "ws_decryptor s' = Some d'"
    using ne push by (auto simp: d numeral_2_eq_2 tap_kj_def mem_kj_def tapped_def pull_stream)
  ultimately have far: "kj_end toy mem_kj demo_session [] ?out [] bs (availableData d')"
    using kj_traffic.reads [of toy mem_kj demo_session ?s _ "[]" "[]" 2 1 "length ?out" bs s'] unfolding kj_end_def by fastforce
  from adapters_interoperate [OF toy_ok demo_paired disjI2 [OF ms(3)] disjI1 [OF far] prefix_order.refl]
  show ?thesis using ms(3) far by blast
qed

end
