(* ===== verification/Secret_RPC.thy ===== *)
theory Secret_RPC
  imports Connection_Safety
begin

text \<open>
  The RPC endpoints, \<open>capnproto/SecretRPC.cc\<close> and \<open>.hh\<close>: \<open>SecretRPCServer\<close> with its accept loop and
  connections, \<open>SecretRPCClient\<close>, and the thread's \<open>RPCContext\<close>. Cap'n Proto's RPC system on top of a
  stream is a parameter: a capability is a value of a type variable, a client's \<open>bootstrap\<close> a
  function of its stream. The tasks of KJ's event loop are members of the server's state, and
  the events that make them continue are the steps of a transition system.
\<close>

section \<open>RPCContext\<close>

text \<open>KJ's event loop, made by \<open>setupAsyncIo\<close>.\<close>

record ('l, 'p, 's) AsyncIoContext =
  lowLevelProvider :: 'l
  provider :: 'p
  waitScope :: 's

text \<open>
  KJ's reference counts, which \<open>kj::refcounted\<close>, \<open>kj::addRef\<close> and the end of a \<open>kj::Own\<close> pointer work
  on: that of a new object, and what it becomes with one more pointer or with one less. \<open>None\<close> says
  that no pointer is left and the object is destroyed. KJ documents that this happens when as many
  pointers have gone as were made.
\<close>

record 'r kj_refcount =
  kr_refcounted :: 'r
  kr_addRef :: "'r \<Rightarrow> 'r"
  kr_release :: "'r \<Rightarrow> 'r option"

definition refcount_ok :: "'r kj_refcount \<Rightarrow> ('r \<Rightarrow> nat) \<Rightarrow> bool" where
  "refcount_ok K refs \<longleftrightarrow> refs (kr_refcounted K) = 1 \<and> (\<forall>r. refs (kr_addRef K r) = refs r + 1)
     \<and> (\<forall>r. 0 < refs r \<longrightarrow> (case kr_release K r of
          None \<Rightarrow> refs r = 1 | Some r' \<Rightarrow> 1 < refs r \<and> refs r' = refs r - 1))"

text \<open>A thread's pointer to its context, and the contexts that exist by address, each with its
  reference count.\<close>

record ('r, 'l, 'p, 's) rpc_thread =
  threadSecretContext :: "nat option"
  rt_heap :: "nat \<Rightarrow> ('r \<times> ('l, 'p, 's) AsyncIoContext) option"

text \<open>\<open>setupAsyncIo\<close> is what that call of KJ returns or throws; an exception leaves the constructor
  before the thread's pointer is set.\<close>

definition new_RPCContext :: "'r kj_refcount \<Rightarrow> nat \<Rightarrow> kj_error + ('l, 'p, 's) AsyncIoContext
    \<Rightarrow> ('r, 'l, 'p, 's) rpc_thread \<Rightarrow> (kj_error + nat) \<times> ('r, 'l, 'p, 's) rpc_thread" where
  "new_RPCContext K this_ptr setupAsyncIo T =
     (case setupAsyncIo of
        Inl e \<Rightarrow> (Inl e, T)
      | Inr io \<Rightarrow>
          (Inr this_ptr, T\<lparr>rt_heap := (rt_heap T)(this_ptr := Some (kr_refcounted K, io)),
             threadSecretContext := Some this_ptr\<rparr>))"

definition delete_RPCContext :: "nat \<Rightarrow> ('r, 'l, 'p, 's) rpc_thread
    \<Rightarrow> (kj_error + unit) \<times> ('r, 'l, 'p, 's) rpc_thread" where
  "delete_RPCContext this_ptr T =
     (if threadSecretContext T \<noteq> Some this_ptr then (Inl RequireFailed, T)
      else (Inr (), T\<lparr>threadSecretContext := None\<rparr>))"

text \<open>\<open>addr\<close> is where a new context would be allocated.\<close>

definition getThreadLocal :: "'r kj_refcount \<Rightarrow> nat \<Rightarrow> kj_error + ('l, 'p, 's) AsyncIoContext
    \<Rightarrow> ('r, 'l, 'p, 's) rpc_thread \<Rightarrow> (kj_error + nat) \<times> ('r, 'l, 'p, 's) rpc_thread" where
  "getThreadLocal K addr setupAsyncIo T =
     (case threadSecretContext T of
        Some existing \<Rightarrow>
          (case rt_heap T existing of
             None \<Rightarrow> (Inl (KjThrown UndefinedBehaviour), T)
           | Some (refs, io) \<Rightarrow>
               (Inr existing, T\<lparr>rt_heap := (rt_heap T)(existing := Some (kr_addRef K refs, io))\<rparr>))
      | None \<Rightarrow> new_RPCContext K addr setupAsyncIo T)"

text \<open>The end of a \<open>kj::Own\<close> pointer to a context: the last one runs the destructor and frees it.\<close>

definition drop_RPCContext :: "'r kj_refcount \<Rightarrow> nat \<Rightarrow> ('r, 'l, 'p, 's) rpc_thread
    \<Rightarrow> (kj_error + unit) \<times> ('r, 'l, 'p, 's) rpc_thread" where
  "drop_RPCContext K p T =
     (case rt_heap T p of
        None \<Rightarrow> (Inl (KjThrown UndefinedBehaviour), T)
      | Some (refs, io) \<Rightarrow>
          (case kr_release K refs of
             Some refs' \<Rightarrow> (Inr (), T\<lparr>rt_heap := (rt_heap T)(p := Some (refs', io))\<rparr>)
           | None \<Rightarrow>
               (case delete_RPCContext p T of
                  (r, T1) \<Rightarrow> (r, T1\<lparr>rt_heap := (rt_heap T1)(p := None)\<rparr>))))"

text \<open>The accessors, through a pointer to a context.\<close>

definition getIoContext :: "nat \<Rightarrow> ('r, 'l, 'p, 's) rpc_thread \<Rightarrow> kj_error + ('l, 'p, 's) AsyncIoContext" where
  "getIoContext p T =
     (case rt_heap T p of None \<Rightarrow> Inl (KjThrown UndefinedBehaviour) | Some (_, io) \<Rightarrow> Inr io)"

definition getWaitScope :: "nat \<Rightarrow> ('r, 'l, 'p, 's) rpc_thread \<Rightarrow> kj_error + 's" where
  "getWaitScope p T = map_sum (\<lambda>e. e) waitScope (getIoContext p T)"

definition getIoProvider :: "nat \<Rightarrow> ('r, 'l, 'p, 's) rpc_thread \<Rightarrow> kj_error + 'p" where
  "getIoProvider p T = map_sum (\<lambda>e. e) provider (getIoContext p T)"

definition getLowLevelIoProvider :: "nat \<Rightarrow> ('r, 'l, 'p, 's) rpc_thread \<Rightarrow> kj_error + 'l" where
  "getLowLevelIoProvider p T = map_sum (\<lambda>e. e) lowLevelProvider (getIoContext p T)"

section \<open>SecretRPCServer\<close>

text \<open>An object ID in a restore request: null, or a text.\<close>

datatype AnyPointer = NullPointer | TextPointer bytes

text \<open>Cap'n Proto's network over one stream: which side it is, and the options for reading.\<close>

datatype Side = SERVER | CLIENT

record 'o TwoPartyVatNetwork =
  vn_side :: Side
  vn_readerOptions :: 'o

record 'c ExportedCap =
  ec_name :: bytes
  ec_cap :: 'c

definition new_ExportedCap :: "bytes \<Rightarrow> 'c \<Rightarrow> 'c ExportedCap" where
  "new_ExportedCap name cap = \<lparr>ec_name = name, ec_cap = cap\<rparr>"

record ('w, 'i, 'c, 'o) Connection =
  co_stream :: "('w, 'i) AuthenticatedStream"
  co_network :: "'o TwoPartyVatNetwork"
  co_mainInterface :: 'c

definition new_Connection :: "('w, 'i) AuthenticatedStream \<Rightarrow> 'c \<Rightarrow> 'o \<Rightarrow> ('w, 'i, 'c, 'o) Connection" where
  "new_Connection authStream mainInterface readerOpts =
     \<lparr>co_stream = authStream, co_network = \<lparr>vn_side = SERVER, vn_readerOptions = readerOpts\<rparr>,
      co_mainInterface = mainInterface\<rparr>"

text \<open>
  \<open>rs_port\<close> is the promise of the port: null, pending, or settled. \<open>rs_accepting\<close> counts the outstanding calls of the listener's \<open>accept\<close>; \<open>rs_wrapping\<close> are the
  accepted streams whose handshake is running; \<open>rs_failures\<close> are the errors that \<open>taskFailed\<close> has
  logged.
\<close>

record ('w, 'i, 'c, 'o) rpc_server =
  rs_mainInterfaceFactory :: "(bytes \<times> 'i) option \<Rightarrow> 'c"
  rs_context :: nat
  rs_port :: "(kj_error + nat) option option"
  rs_readerOptions :: 'o
  rs_shsWrapper :: "StreamWrapper option"
  rs_accepting :: nat
  rs_wrapping :: "('w \<times> 'i) list"
  rs_connections :: "('w, 'i, 'c, 'o) Connection list"
  rs_exportMap :: "bytes \<Rightarrow> 'c ExportedCap option"
  rs_failures :: "kj_error list"

text \<open>The members of \<open>Impl\<close> once it has its context.\<close>

definition new_Impl :: "((bytes \<times> 'i) option \<Rightarrow> 'c) \<Rightarrow> 'o \<Rightarrow> StreamWrapper option \<Rightarrow> nat
    \<Rightarrow> ('w, 'i, 'c, 'o) rpc_server" where
  "new_Impl factory readerOpts wrapper context =
     \<lparr>rs_mainInterfaceFactory = factory, rs_context = context, rs_port = None,
      rs_readerOptions = readerOpts, rs_shsWrapper = wrapper, rs_accepting = 0, rs_wrapping = [],
      rs_connections = [], rs_exportMap = (\<lambda>_. None), rs_failures = []\<rparr>"

text \<open>The other constructor delegates to that one, and makes the promise of the port.\<close>

definition listening_Impl :: "((bytes \<times> 'i) option \<Rightarrow> 'c) \<Rightarrow> 'o \<Rightarrow> StreamWrapper option \<Rightarrow> nat
    \<Rightarrow> ('w, 'i, 'c, 'o) rpc_server" where
  "listening_Impl factory readerOpts wrapper context =
     (new_Impl factory readerOpts wrapper context)\<lparr>rs_port := Some None\<rparr>"

definition new_SecretRPCServer :: "'r kj_refcount \<Rightarrow> nat \<Rightarrow> kj_error + ('l, 'p, 's) AsyncIoContext \<Rightarrow> ((bytes \<times> 'i) option \<Rightarrow> 'c) \<Rightarrow> 'o
    \<Rightarrow> StreamWrapper option \<Rightarrow> ('r, 'l, 'p, 's) rpc_thread
    \<Rightarrow> (kj_error + ('w, 'i, 'c, 'o) rpc_server) \<times> ('r, 'l, 'p, 's) rpc_thread" where
  "new_SecretRPCServer K addr setupAsyncIo factory readerOpts wrapper T =
     apfst (map_sum (\<lambda>e. e) (new_Impl factory readerOpts wrapper)) (getThreadLocal K addr setupAsyncIo T)"

definition new_listening_server :: "'r kj_refcount \<Rightarrow> nat \<Rightarrow> kj_error + ('l, 'p, 's) AsyncIoContext \<Rightarrow> ((bytes \<times> 'i) option \<Rightarrow> 'c) \<Rightarrow> 'o
    \<Rightarrow> StreamWrapper option \<Rightarrow> ('r, 'l, 'p, 's) rpc_thread
    \<Rightarrow> (kj_error + ('w, 'i, 'c, 'o) rpc_server) \<times> ('r, 'l, 'p, 's) rpc_thread" where
  "new_listening_server K addr setupAsyncIo factory readerOpts wrapper T =
     apfst (map_sum (\<lambda>e. e) (listening_Impl factory readerOpts wrapper)) (getThreadLocal K addr setupAsyncIo T)"

definition delete_SecretRPCServer :: "'r kj_refcount \<Rightarrow> ('w, 'i, 'c, 'o) rpc_server \<Rightarrow> ('r, 'l, 'p, 's) rpc_thread
    \<Rightarrow> (kj_error + unit) \<times> ('r, 'l, 'p, 's) rpc_thread" where
  "delete_SecretRPCServer K s T = drop_RPCContext K (rs_context s) T"

definition server_getWaitScope :: "('w, 'i, 'c, 'o) rpc_server \<Rightarrow> ('r, 'l, 'p, 's) rpc_thread \<Rightarrow> kj_error + 's" where
  "server_getWaitScope s T = getWaitScope (rs_context s) T"

definition server_getIoProvider :: "('w, 'i, 'c, 'o) rpc_server \<Rightarrow> ('r, 'l, 'p, 's) rpc_thread \<Rightarrow> kj_error + 'p" where
  "server_getIoProvider s T = getIoProvider (rs_context s) T"

definition server_getLowLevelIoProvider :: "('w, 'i, 'c, 'o) rpc_server \<Rightarrow> ('r, 'l, 'p, 's) rpc_thread \<Rightarrow> kj_error + 'l" where
  "server_getLowLevelIoProvider s T = getLowLevelIoProvider (rs_context s) T"

definition acceptLoop :: "('w, 'i, 'c, 'o) rpc_server \<Rightarrow> ('w, 'i, 'c, 'o) rpc_server" where
  "acceptLoop s = s\<lparr>rs_accepting := rs_accepting s + 1\<rparr>"

definition taskFailed :: "kj_error \<Rightarrow> ('w, 'i, 'c, 'o) rpc_server \<Rightarrow> ('w, 'i, 'c, 'o) rpc_server" where
  "taskFailed e s = s\<lparr>rs_failures := rs_failures s @ [e]\<rparr>"

text \<open>The task of the listening constructor: the address has been looked up and \<open>listen\<close> has a port,
  or one of the two has failed and the fulfiller of the promised port goes away with its task.\<close>

definition server_listen :: "kj_error + nat \<Rightarrow> ('w, 'i, 'c, 'o) rpc_server \<Rightarrow> ('w, 'i, 'c, 'o) rpc_server" where
  "server_listen listening s =
     (case listening of
        Inl e \<Rightarrow> taskFailed e (s\<lparr>rs_port := Some (Some (Inl BrokenPromise))\<rparr>)
      | Inr port \<Rightarrow> acceptLoop (s\<lparr>rs_port := Some (Some (Inr port))\<rparr>))"

text \<open>\<open>getPort\<close>: the promise, \<open>None\<close> while it is pending; that of a server which does not listen is null.\<close>

definition getPort :: "('w, 'i, 'c, 'o) rpc_server \<Rightarrow> (kj_error + nat) option" where
  "getPort s = (case rs_port s of None \<Rightarrow> Some (Inl (KjThrown UndefinedBehaviour)) | Some promise \<Rightarrow> promise)"

text \<open>The \<open>dynamic_cast\<close> to \<open>SHSPeerIdentity\<close>.\<close>

definition peer_id :: "'i PeerIdentity option \<Rightarrow> (bytes \<times> 'i) option" where
  "peer_id identity = (case identity of Some (SHSPeerIdentity k inner) \<Rightarrow> Some (k, inner) | _ \<Rightarrow> None)"

text \<open>The virtual call of \<open>getpeername\<close> on a stream that may be a wrapped one.\<close>

definition as_getpeername :: "'w kj_stream \<Rightarrow> ('w, 'i) AuthenticatedStream \<Rightarrow> nat \<Rightarrow> 'w \<Rightarrow> (kj_error + bytes) \<times> 'w" where
  "as_getpeername io authStream =
     (case as_wrapped authStream of None \<Rightarrow> kj_getpeername io | Some ws \<Rightarrow> getpeername io ws)"

definition startConnection :: "'w kj_stream \<Rightarrow> ('w, 'i) AuthenticatedStream \<Rightarrow> 'o \<Rightarrow> ('w, 'i, 'c, 'o) rpc_server
    \<Rightarrow> (kj_error + unit) \<times> ('w, 'i, 'c, 'o) rpc_server" where
  "startConnection io authStream readerOpts s =
     (case getPeerName (inet_ntop io) (as_getpeername io authStream) (as_inner authStream) of
        (Inl e, _) \<Rightarrow> (Inl e, s)
      | (Inr from, w1) \<Rightarrow>
          let mainInterface = rs_mainInterfaceFactory s (peer_id (as_identity authStream));
              connection = new_Connection (authStream\<lparr>as_inner := w1\<rparr>) mainInterface readerOpts
          in (Inr (), s\<lparr>rs_connections := rs_connections s @ [connection]\<rparr>))"

text \<open>
  The continuations in \<open>acceptLoop\<close>: a stream was accepted, accepting failed, and the handshake of
  the \<open>n\<close>-th stream has ended or its 15 seconds have passed. The first one reads the peer's name
  before it calls \<open>acceptLoop\<close> again, and calls \<open>wrap\<close> through the pointer to the wrapper; an exception
  in it fails the task. A call of \<open>wrap\<close> that throws does so before the timer is started.
\<close>

definition on_accept :: "'w kj_stream \<Rightarrow> 'w \<Rightarrow> 'i \<Rightarrow> ('w, 'i, 'c, 'o) rpc_server
    \<Rightarrow> (unit, ('w, 'i, 'c, 'o) rpc_server) outcome" where
  "on_accept io w i s =
     (let s0 = s\<lparr>rs_accepting := rs_accepting s - 1\<rparr> in
      case getPeerName (inet_ntop io) (kj_getpeername io) w of
        (Inl e, _) \<Rightarrow> (Inr (), taskFailed e s0)
      | (Inr from, w1) \<Rightarrow>
          let s1 = acceptLoop s0 in
          case rs_shsWrapper s1 of
            None \<Rightarrow> (Inl UndefinedBehaviour, s1)
          | Some _ \<Rightarrow> (Inr (), s1\<lparr>rs_wrapping := rs_wrapping s1 @ [(w1, i)]\<rparr>))"

text \<open>The handler of a failed accept returns a null promise, through which the event loop then waits
  for the handshake's result.\<close>

definition on_accept_error :: "('w, 'i, 'c, 'o) rpc_server \<Rightarrow> (unit, ('w, 'i, 'c, 'o) rpc_server) outcome" where
  "on_accept_error s =
     (let s1 = acceptLoop (s\<lparr>rs_accepting := rs_accepting s - 1\<rparr>);
          promise = (None :: unit option)
      in with_val (opt_deref promise) s1 (\<lambda>_. (Inr (), s1)))"

definition on_wrapped :: "'w kj_stream \<Rightarrow> 'o \<Rightarrow> kj_error + ('w, 'i) AuthenticatedStream
    \<Rightarrow> ('w, 'i, 'c, 'o) rpc_server \<Rightarrow> ('w, 'i, 'c, 'o) rpc_server" where
  "on_wrapped io readerOpts r s =
     (case r of
        Inl e \<Rightarrow> taskFailed e s
      | Inr authStream \<Rightarrow>
          (case startConnection io authStream readerOpts s of
             (Inl e, s1) \<Rightarrow> taskFailed e s1
           | (Inr _, s1) \<Rightarrow> s1))"

definition on_handshake_end :: "nat \<Rightarrow> crypto \<Rightarrow> 'w kj_stream \<Rightarrow> (nat \<Rightarrow> bool) \<Rightarrow> bytes \<Rightarrow> nat
    \<Rightarrow> ('w, 'i, 'c, 'o) rpc_server \<Rightarrow> ('w, 'i, 'c, 'o) rpc_server option" where
  "on_handshake_end fuel C io timer x n s =
     (case (rs_shsWrapper s, rs_wrapping s ! n) of
        (Some W, (w, i)) \<Rightarrow>
          let s1 = s\<lparr>rs_wrapping := take n (rs_wrapping s) @ drop (Suc n) (rs_wrapping s)\<rparr> in
          (case wrap_authenticated fuel C io W x w i of
             Some (Throws e) \<Rightarrow> Some (taskFailed e s1)
           | promise \<Rightarrow>
               if timer 15 then Some (taskFailed TimedOut s1)
               else map_option (\<lambda>r. on_wrapped io (rs_readerOptions s) (settle r) s1) promise)
      | (None, _) \<Rightarrow> Some s)"

definition acceptStream :: "nat \<Rightarrow> crypto \<Rightarrow> 'w kj_stream \<Rightarrow> bytes \<Rightarrow> kj_error + 'w \<times> 'i \<Rightarrow> 'o
    \<Rightarrow> ('w, 'i, 'c, 'o) rpc_server \<Rightarrow> ('w, 'i, 'c, 'o) rpc_server option" where
  "acceptStream fuel C io x streamPromise readerOpts s =
     map_option (\<lambda>r. on_wrapped io readerOpts r s)
       (asyncWrap (\<lambda>W (w, i). wrap_authenticated fuel C io W x w i)
          (\<lambda>(w, i). \<lparr>as_inner = w, as_wrapped = None, as_identity = Some (TransportIdentity i)\<rparr>)
          (rs_shsWrapper s) streamPromise)"

definition server_acceptStream :: "nat \<Rightarrow> crypto \<Rightarrow> 'w kj_stream \<Rightarrow> bytes \<Rightarrow> kj_error + 'w \<times> 'i \<Rightarrow> 'o
    \<Rightarrow> ('w, 'i, 'c, 'o) rpc_server \<Rightarrow> ('w, 'i, 'c, 'o) rpc_server option" where
  "server_acceptStream fuel C io x streamPromise readerOpts impl =
     acceptStream fuel C io x streamPromise readerOpts impl"

text \<open>A connection is destroyed when its network disconnects.\<close>

definition on_disconnect :: "nat \<Rightarrow> ('w, 'i, 'c, 'o) rpc_server \<Rightarrow> ('w, 'i, 'c, 'o) rpc_server" where
  "on_disconnect n s =
     s\<lparr>rs_connections := take n (rs_connections s) @ drop (Suc n) (rs_connections s)\<rparr>"

text \<open>\<open>restore\<close> of the server and of a connection; the text of a null pointer is empty.\<close>

definition server_restore :: "AnyPointer \<Rightarrow> ('w, 'i, 'c, 'o) rpc_server \<Rightarrow> kj_error + 'c" where
  "server_restore objectId s =
     (let name = (case objectId of NullPointer \<Rightarrow> [] | TextPointer t \<Rightarrow> t) in
      case rs_exportMap s name of None \<Rightarrow> Inl RequireFailed | Some cap \<Rightarrow> Inr (ec_cap cap))"

definition connection_restore :: "AnyPointer \<Rightarrow> ('w, 'i, 'c, 'o) Connection \<Rightarrow> ('w, 'i, 'c, 'o) rpc_server
    \<Rightarrow> kj_error + 'c" where
  "connection_restore objectId c s =
     (if objectId = NullPointer then Inr (co_mainInterface c) else server_restore objectId s)"

section \<open>SecretRPCClient\<close>

text \<open>A client's connection: its stream, wrapped or not, and the network on it.\<close>

record ('w, 'o) ClientContext =
  cc_stream :: "WrappedStream option \<times> 'w"
  cc_network :: "'o TwoPartyVatNetwork"

definition new_ClientContext :: "WrappedStream option \<times> 'w \<Rightarrow> 'o \<Rightarrow> ('w, 'o) ClientContext" where
  "new_ClientContext client_stream readerOpts =
     \<lparr>cc_stream = client_stream, cc_network = \<lparr>vn_side = CLIENT, vn_readerOptions = readerOpts\<rparr>\<rparr>"

text \<open>The requests to the RPC system of a connection name the side that hosts the object.\<close>

definition context_getMain :: "(('w, 'o) ClientContext \<Rightarrow> Side \<Rightarrow> 'c) \<Rightarrow> ('w, 'o) ClientContext \<Rightarrow> 'c" where
  "context_getMain bootstrap c = bootstrap c SERVER"

definition context_restore :: "(('w, 'o) ClientContext \<Rightarrow> Side \<Rightarrow> AnyPointer \<Rightarrow> 'c) \<Rightarrow> bytes
    \<Rightarrow> ('w, 'o) ClientContext \<Rightarrow> 'c" where
  "context_restore rpc_restore name c = rpc_restore c SERVER (TextPointer name)"

text \<open>\<open>rc_setup\<close> is the setup promise: pending, failed, or resolved.\<close>

record ('w, 'o) rpc_client =
  rc_context :: nat
  rc_shsWrapper :: "StreamWrapper option"
  rc_readerOptions :: 'o
  rc_setup :: "(kj_error + unit) option"
  rc_clientContext :: "('w, 'o) ClientContext option"

definition new_client_Impl :: "StreamWrapper option \<Rightarrow> 'o \<Rightarrow> nat \<Rightarrow> ('w, 'o) rpc_client" where
  "new_client_Impl wrapper readerOpts context =
     \<lparr>rc_context = context, rc_shsWrapper = wrapper, rc_readerOptions = readerOpts, rc_setup = None,
      rc_clientContext = None\<rparr>"

text \<open>The two constructors; the one for an address also holds a reference to the context while it
  starts the lookup, and lets go of it at its end or when an exception leaves it.\<close>

definition new_SecretRPCClient :: "'r kj_refcount \<Rightarrow> nat \<Rightarrow> kj_error + ('l, 'p, 's) AsyncIoContext \<Rightarrow> StreamWrapper option \<Rightarrow> 'o
    \<Rightarrow> ('r, 'l, 'p, 's) rpc_thread \<Rightarrow> (kj_error + ('w, 'o) rpc_client) \<times> ('r, 'l, 'p, 's) rpc_thread" where
  "new_SecretRPCClient K addr setupAsyncIo wrapper readerOpts T =
     apfst (map_sum (\<lambda>e. e) (new_client_Impl wrapper readerOpts)) (getThreadLocal K addr setupAsyncIo T)"

definition new_connecting_client :: "'r kj_refcount \<Rightarrow> nat \<Rightarrow> kj_error + ('l, 'p, 's) AsyncIoContext \<Rightarrow> StreamWrapper option \<Rightarrow> 'o
    \<Rightarrow> ('r, 'l, 'p, 's) rpc_thread \<Rightarrow> (kj_error + ('w, 'o) rpc_client) \<times> ('r, 'l, 'p, 's) rpc_thread" where
  "new_connecting_client K addr setupAsyncIo wrapper readerOpts T =
     (case getThreadLocal K addr setupAsyncIo T of
        (Inl e, T1) \<Rightarrow> (Inl e, T1)
      | (Inr context, T1) \<Rightarrow>
          (case new_SecretRPCClient K addr setupAsyncIo wrapper readerOpts T1 of
             (Inl e, T2) \<Rightarrow> (Inl e, snd (drop_RPCContext K context T2))
           | (Inr c, T2) \<Rightarrow>
               (case drop_RPCContext K context T2 of
                  (Inl e, T3) \<Rightarrow> (Inl e, T3)
                | (Inr _, T3) \<Rightarrow> (Inr c, T3))))"

text \<open>The move constructor leaves the other client without an \<open>Impl\<close>.\<close>

definition move_SecretRPCClient :: "('w, 'o) rpc_client option \<Rightarrow> ('w, 'o) rpc_client option \<times> ('w, 'o) rpc_client option" where
  "move_SecretRPCClient other = (other, None)"

definition delete_SecretRPCClient :: "'r kj_refcount \<Rightarrow> ('w, 'o) rpc_client option \<Rightarrow> ('r, 'l, 'p, 's) rpc_thread
    \<Rightarrow> (kj_error + unit) \<times> ('r, 'l, 'p, 's) rpc_thread" where
  "delete_SecretRPCClient K impl T =
     (case impl of None \<Rightarrow> (Inr (), T) | Some c \<Rightarrow> drop_RPCContext K (rc_context c) T)"

definition client_getWaitScope :: "('w, 'o) rpc_client \<Rightarrow> ('r, 'l, 'p, 's) rpc_thread \<Rightarrow> kj_error + 's" where
  "client_getWaitScope c T = getWaitScope (rc_context c) T"

definition client_getIoProvider :: "('w, 'o) rpc_client \<Rightarrow> ('r, 'l, 'p, 's) rpc_thread \<Rightarrow> kj_error + 'p" where
  "client_getIoProvider c T = getIoProvider (rc_context c) T"

definition client_getLowLevelIoProvider :: "('w, 'o) rpc_client \<Rightarrow> ('r, 'l, 'p, 's) rpc_thread \<Rightarrow> kj_error + 'l" where
  "client_getLowLevelIoProvider c T = getLowLevelIoProvider (rc_context c) T"

text \<open>The stream promise, for an address, is the lookup followed by the connection.\<close>

definition connectAttach :: "('a \<Rightarrow> kj_error + 'w) \<Rightarrow> kj_error + 'a \<Rightarrow> kj_error + 'w" where
  "connectAttach connect_addr addr = (case addr of Inl e \<Rightarrow> Inl e | Inr a \<Rightarrow> connect_addr a)"

text \<open>The setup promise is settled.\<close>

definition client_setup :: "nat \<Rightarrow> crypto \<Rightarrow> 'w kj_stream \<Rightarrow> bytes \<Rightarrow> kj_error + 'w \<Rightarrow> ('w, 'o) rpc_client
    \<Rightarrow> ('w, 'o) rpc_client option" where
  "client_setup fuel C io x streamPromise c =
     map_option (\<lambda>r. case r of
          Inl e \<Rightarrow> c\<lparr>rc_setup := Some (Inl e)\<rparr>
        | Inr client_stream \<Rightarrow>
            c\<lparr>rc_clientContext := Some (new_ClientContext client_stream (rc_readerOptions c)),
              rc_setup := Some (Inr ())\<rparr>)
       (asyncWrap (\<lambda>W w. map_option (map_kj_promise (apfst Some)) (wrap fuel C io W x w))
          (\<lambda>w. (None, w)) (rc_shsWrapper c) streamPromise)"

text \<open>\<open>getMain\<close>: \<open>None\<close> while the setup promise it waits for is pending. \<open>Impl\<close> has a copy of it.\<close>

definition getMain :: "(('w, 'o) ClientContext \<Rightarrow> Side \<Rightarrow> 'c) \<Rightarrow> ('w, 'o) rpc_client
    \<Rightarrow> (kj_error + 'c) option" where
  "getMain bootstrap c =
     (case rc_clientContext c of
        Some client \<Rightarrow> Some (Inr (context_getMain bootstrap client))
      | None \<Rightarrow>
          (case rc_setup c of
             None \<Rightarrow> None
           | Some (Inl e) \<Rightarrow> Some (Inl e)
           | Some (Inr _) \<Rightarrow> Some (Inl (KjThrown AssertFailed))))"

definition Impl_getMain :: "(('w, 'o) ClientContext \<Rightarrow> Side \<Rightarrow> 'c) \<Rightarrow> ('w, 'o) rpc_client
    \<Rightarrow> (kj_error + 'c) option" where
  "Impl_getMain bootstrap c =
     (case rc_clientContext c of
        Some client \<Rightarrow> Some (Inr (context_getMain bootstrap client))
      | None \<Rightarrow>
          (case rc_setup c of
             None \<Rightarrow> None
           | Some (Inl e) \<Rightarrow> Some (Inl e)
           | Some (Inr _) \<Rightarrow> Some (Inl (KjThrown AssertFailed))))"

definition getMain_as :: "('c \<Rightarrow> 'd) \<Rightarrow> (('w, 'o) ClientContext \<Rightarrow> Side \<Rightarrow> 'c) \<Rightarrow> ('w, 'o) rpc_client
    \<Rightarrow> (kj_error + 'd) option" where
  "getMain_as castAs bootstrap c = map_option (map_sum (\<lambda>e. e) castAs) (getMain bootstrap c)"

definition Impl_getMain_as :: "('c \<Rightarrow> 'd) \<Rightarrow> (('w, 'o) ClientContext \<Rightarrow> Side \<Rightarrow> 'c) \<Rightarrow> ('w, 'o) rpc_client
    \<Rightarrow> (kj_error + 'd) option" where
  "Impl_getMain_as castAs bootstrap c = map_option (map_sum (\<lambda>e. e) castAs) (Impl_getMain bootstrap c)"

section \<open>The server's event loop\<close>

inductive server_step :: "nat \<Rightarrow> crypto \<Rightarrow> 'w kj_stream \<Rightarrow> ('w, 'i, 'c, 'o) rpc_server
    \<Rightarrow> ('w, 'i, 'c, 'o) rpc_server \<Rightarrow> bool" for fuel C io where
  accept: "0 < rs_accepting s \<Longrightarrow> on_accept io w i s = (Inr (), s') \<Longrightarrow> server_step fuel C io s s'"
| accept_error: "0 < rs_accepting s \<Longrightarrow> on_accept_error s = (Inr (), s') \<Longrightarrow> server_step fuel C io s s'"
| handshake_end: "n < length (rs_wrapping s) \<Longrightarrow>
    on_handshake_end fuel C io timer x n s = Some s' \<Longrightarrow> server_step fuel C io s s'"
| accept_stream: "server_acceptStream fuel C io x promise opts s = Some s' \<Longrightarrow> server_step fuel C io s s'"
| disconnect: "n < length (rs_connections s) \<Longrightarrow> server_step fuel C io s (on_disconnect n s)"

inductive server_run :: "nat \<Rightarrow> crypto \<Rightarrow> 'w kj_stream \<Rightarrow> ('w, 'i, 'c, 'o) rpc_server
    \<Rightarrow> ('w, 'i, 'c, 'o) rpc_server \<Rightarrow> bool" for fuel C io where
  start: "server_run fuel C io s s"
| step: "server_run fuel C io s s' \<Longrightarrow> server_step fuel C io s' s'' \<Longrightarrow> server_run fuel C io s s''"

text \<open>A failed accept starts the next one, but is never survived.\<close>

lemma on_accept_error_eq: "on_accept_error s = (Inl UndefinedBehaviour, acceptLoop (s\<lparr>rs_accepting := rs_accepting s - 1\<rparr>))"
  by (simp add: on_accept_error_def opt_deref_def with_val_def Let_def)

text \<open>What the server knows of the peer of a connection.\<close>

definition connection_ok :: "StreamWrapper option \<Rightarrow> ((bytes \<times> 'i) option \<Rightarrow> 'c)
    \<Rightarrow> ('w, 'i, 'c, 'o) Connection \<Rightarrow> bool" where
  "connection_ok wrapper factory c = (case wrapper of
      None \<Rightarrow> as_wrapped (co_stream c) = None \<and> co_mainInterface c = factory None
    | Some W \<Rightarrow> \<exists>ws k i. as_wrapped (co_stream c) = Some ws \<and> session_ok W ws k
        \<and> co_mainInterface c = factory (Some (k, i)))"

text \<open>What it knows of a stream before the connection is started.\<close>

definition stream_known :: "StreamWrapper option \<Rightarrow> ('w, 'i) AuthenticatedStream \<Rightarrow> bool" where
  "stream_known wrapper A = (case wrapper of
      None \<Rightarrow> as_wrapped A = None \<and> peer_id (as_identity A) = None
    | Some W \<Rightarrow> \<exists>ws k i. as_wrapped A = Some ws \<and> session_ok W ws k
        \<and> as_identity A = Some (SHSPeerIdentity k i))"

definition server_inv :: "((bytes \<times> 'i) option \<Rightarrow> 'c) \<Rightarrow> StreamWrapper option
    \<Rightarrow> (kj_error + nat) option option \<Rightarrow> ('w, 'i, 'c, 'o) rpc_server \<Rightarrow> bool" where
  "server_inv factory wrapper port s \<longleftrightarrow> rs_mainInterfaceFactory s = factory
     \<and> rs_shsWrapper s = wrapper \<and> rs_port s = port \<and> rs_exportMap s = (\<lambda>_. None)
     \<and> list_all (connection_ok wrapper factory) (rs_connections s)"

lemma as_getpeername_eq [simp]: "as_getpeername io A = kj_getpeername io"
  by (auto simp: as_getpeername_def getpeername_def fun_eq_iff split: option.split)

lemma startConnection_cases:
  obtains (unnamed) e w' where "startConnection io A opts s = (Inl e, s)"
    "kj_getpeername io 28 (as_inner A) = (Inl e, w')"
  | (started) w' where "startConnection io A opts s = (Inr (), s\<lparr>rs_connections := rs_connections s
      @ [new_Connection (A\<lparr>as_inner := w'\<rparr>) (rs_mainInterfaceFactory s (peer_id (as_identity A))) opts]\<rparr>)"
proof (cases "kj_getpeername io 28 (as_inner A)")
  case (Pair r w')
  then show ?thesis
    using that by (cases r) (auto simp: startConnection_def getPeerName_def Let_def)
qed

lemma stream_known_connection_ok:
  "stream_known wr A \<Longrightarrow> connection_ok wr F (new_Connection (A\<lparr>as_inner := w'\<rparr>) (F (peer_id (as_identity A))) opts)"
  by (cases wr) (auto 0 4 simp: stream_known_def connection_ok_def new_Connection_def peer_id_def)

lemma on_wrapped_inv:
  assumes "server_inv F wr p s" "\<And>A. r = Inr A \<Longrightarrow> stream_known wr A"
  shows "server_inv F wr p (on_wrapped io opts r s)"
proof (cases r)
  case (Inl e)
  then show ?thesis using assms(1) by (simp add: on_wrapped_def taskFailed_def server_inv_def)
next
  case (Inr A)
  show ?thesis
  proof (cases rule: startConnection_cases [of io A opts s])
    case unnamed
    then show ?thesis using assms(1) Inr by (simp add: on_wrapped_def taskFailed_def server_inv_def)
  next
    case started
    then show ?thesis
      using assms(1) stream_known_connection_ok [OF assms(2) [OF Inr]] Inr
      by (auto simp: on_wrapped_def server_inv_def)
  qed
qed

lemma on_wrapped_keeps [simp]:
  "rs_accepting (on_wrapped io opts r s) = rs_accepting s"
proof (cases r)
  case (Inr A)
  then show ?thesis
    by (cases rule: startConnection_cases [of io A opts s]) (simp_all add: on_wrapped_def taskFailed_def)
qed (simp add: on_wrapped_def taskFailed_def)

lemma wrap_known:
  assumes "kj_ok io" "5 \<le> fuel" "wrap_authenticated fuel C io W x w i = Some r" "settle r = Inr A"
  shows "stream_known (Some W) A"
proof -
  have "wrap_authenticated fuel C io W x w i = Some (Resolved A)" using assms(3,4) by simp
  with assms(1,2) show ?thesis
    by (rule wrap_authenticated_session_ok) (auto simp: stream_known_def)
qed

lemma acceptStream_cases:
  assumes "kj_ok io" "5 \<le> fuel" "acceptStream fuel C io x promise opts s = Some s'"
  obtains r where "s' = on_wrapped io opts r s" "\<And>A. r = Inr A \<Longrightarrow> stream_known (rs_shsWrapper s) A"
proof -
  obtain r where r: "s' = on_wrapped io opts r s" "asyncWrap (\<lambda>W (w, i). wrap_authenticated fuel C io W x w i)
      (\<lambda>(w, i). \<lparr>as_inner = w, as_wrapped = None, as_identity = Some (TransportIdentity i)\<rparr>)
      (rs_shsWrapper s) promise = Some r"
    using assms(3) by (auto simp: acceptStream_def)
  have "stream_known (rs_shsWrapper s) A" if "r = Inr A" for A
  proof (cases "rs_shsWrapper s")
    case None
    then show ?thesis using r(2) that
      by (cases promise) (auto simp: asyncWrap_def stream_known_def peer_id_def)
  next
    case (Some W)
    then show ?thesis using r(2) that wrap_known [OF assms(1,2)]
      by (fastforce simp: asyncWrap_def split: sum.splits)
  qed
  then show ?thesis using that r(1) by blast
qed

lemma on_handshake_end_cases:
  assumes "kj_ok io" "5 \<le> fuel" "on_handshake_end fuel C io timer x m s = Some s'"
  defines "s1 \<equiv> s\<lparr>rs_wrapping := take m (rs_wrapping s) @ drop (Suc m) (rs_wrapping s)\<rparr>"
  obtains (ends) r where "s' = on_wrapped io (rs_readerOptions s) r s1"
    "\<And>A. r = Inr A \<Longrightarrow> stream_known (rs_shsWrapper s) A"
  | (unwrapped) "rs_shsWrapper s = None" "s' = s"
proof (cases "rs_shsWrapper s")
  case None
  then have "s' = s" using assms(3) by (cases "rs_wrapping s ! m") (simp add: on_handshake_end_def)
  then show ?thesis using None unwrapped by blast
next
  case (Some W)
  obtain w i where w: "rs_wrapping s ! m = (w, i)" by fastforce
  have failed: "taskFailed e s1 = on_wrapped io (rs_readerOptions s) (Inl e) s1" for e
    by (simp add: on_wrapped_def)
  have known: "stream_known (rs_shsWrapper s) A" if "wrap_authenticated fuel C io W x w i = Some p" "settle p = Inr A"
    for p A using wrap_known [OF assms(1,2) that] Some by simp
  show ?thesis
  proof (cases "wrap_authenticated fuel C io W x w i")
    case None
    then have "s' = taskFailed TimedOut s1"
      using assms(3) Some w by (simp add: on_handshake_end_def Let_def s1_def split: if_splits)
    then show ?thesis using ends [of "Inl TimedOut"] failed by simp
  next
    case p: (Some p)
    then have "s' = taskFailed TimedOut s1 \<or> s' = on_wrapped io (rs_readerOptions s) (settle p) s1"
      using assms(3) Some w
      by (cases p) (simp_all add: on_handshake_end_def Let_def on_wrapped_def s1_def split: if_splits)
    then show ?thesis
      using ends [of "Inl TimedOut"] ends [of "settle p"] known [OF p] failed by blast
  qed
qed

lemma server_step_inv:
  assumes "kj_ok io" "5 \<le> fuel"
  shows "server_step fuel C io s s' \<Longrightarrow> server_inv F wr p s \<Longrightarrow> server_inv F wr p s'"
proof (induction rule: server_step.induct)
  case (handshake_end m s timer x s')
  have wr: "rs_shsWrapper s = wr" using handshake_end(3) by (simp add: server_inv_def)
  from assms handshake_end(2) show ?case
  proof (cases rule: on_handshake_end_cases)
    case (ends r)
    have "server_inv F wr p (s\<lparr>rs_wrapping := take m (rs_wrapping s) @ drop (Suc m) (rs_wrapping s)\<rparr>)"
      using handshake_end(3) by (simp add: server_inv_def)
    then show ?thesis unfolding ends(1) by (rule on_wrapped_inv) (use ends(2) wr in simp)
  next
    case unwrapped
    then show ?thesis using handshake_end(3) by simp
  qed
next
  case (accept_stream x promise opts s s')
  then have wr: "rs_shsWrapper s = wr" by (simp add: server_inv_def)
  from acceptStream_cases [OF assms accept_stream(1) [unfolded server_acceptStream_def]] show ?case
    using on_wrapped_inv [OF accept_stream(2)] wr by metis
next
  case (disconnect m s)
  then show ?case
    by (auto simp: on_disconnect_def server_inv_def list_all_iff dest: in_set_takeD in_set_dropD)
qed (auto simp: on_accept_def on_accept_error_eq acceptLoop_def taskFailed_def server_inv_def Let_def
    split: option.splits prod.splits sum.splits)

lemma server_run_inv:
  assumes "server_run fuel C io s s'" "kj_ok io" "5 \<le> fuel" "server_inv F wr p s"
  shows "server_inv F wr p s'"
  using assms by (induction rule: server_run.induct) (auto intro: server_step_inv)

lemmas new_server_simps = new_Impl_def listening_Impl_def server_listen_def acceptLoop_def

text \<open>A new server, listening or not.\<close>

lemma new_server_inv:
  "server_inv F wr None (new_Impl F opts wr ctx)"
  "server_inv F wr (Some (Some (Inr port))) (server_listen (Inr port) (listening_Impl F opts wr ctx))"
  by (simp_all add: server_inv_def new_server_simps)

text \<open>The number of outstanding accepts only changes when the name of an accepted peer cannot be read.\<close>

lemma getPeerName_unread:
  "getPeerName ntop gp w = (Inl e, w') \<longleftrightarrow> gp 28 w = (Inl e, w')"
  by (auto simp: getPeerName_def Let_def split: prod.splits sum.splits)

lemma accept_count:
  assumes "kj_ok io" "5 \<le> fuel" "server_step fuel C io s s'"
  shows "rs_accepting s' = rs_accepting s
    \<or> rs_accepting s' = rs_accepting s - 1 \<and> (\<exists>w e w'. kj_getpeername io 28 w = (Inl e, w'))"
  using assms(3)
proof cases
  case (accept w i)
  then show ?thesis
    by (auto simp: on_accept_def acceptLoop_def taskFailed_def Let_def getPeerName_unread
        split: option.splits prod.splits sum.splits)
next
  case (handshake_end n timer x)
  from assms(1,2) handshake_end(2) show ?thesis by (cases rule: on_handshake_end_cases) auto
next
  case (accept_stream x promise opts)
  from acceptStream_cases [OF assms(1,2) accept_stream [unfolded server_acceptStream_def]] show ?thesis by (metis on_wrapped_keeps)
qed (auto simp: on_accept_error_eq on_disconnect_def)

lemma accepting_bound:
  assumes "server_run fuel C io s s'" "kj_ok io" "5 \<le> fuel"
  shows "rs_accepting s' \<le> rs_accepting s"
  using assms by (induction rule: server_run.induct) (use accept_count in fastforce)+

lemma accepting_kept:
  assumes "server_run fuel C io s s'" "kj_ok io" "5 \<le> fuel" "\<And>w. \<exists>a w'. kj_getpeername io 28 w = (Inr a, w')"
  shows "rs_accepting s' = rs_accepting s"
  using assms(1)
proof (induction rule: server_run.induct)
  case (step s s' s'')
  then show ?case using accept_count [OF assms(2,3) step(2)] assms(4) by (metis Inl_Inr_False prod.inject)
qed simp

section \<open>Properties\<close>

text \<open>
  C30: a server with a wrapper only ever serves authenticated clients. In every state that its event
  loop can reach, with streams accepted from the listener or passed to \<open>acceptStream\<close>, handshakes
  ending in any order, failing or timing out, and connections closing, each connection is a
  wrapped stream whose handshake made a session with a key \<open>k\<close> that the authorizer accepts, and
  its main interface is the one that the factory made for \<open>k\<close>. That is what a null object ID
  restores; any other one is refused, since nothing is ever exported. A failed handshake leaves
  no connection.
\<close>

theorem rpc_connections_authenticated:
  assumes "kj_ok io" "5 \<le> fuel" "W = Some (ServerWrapper ctx (Some auth))"
    and "server_run fuel C io (new_Impl factory opts W context) s
      \<or> server_run fuel C io (server_listen (Inr port) (listening_Impl factory opts W context)) s"
    and "c \<in> set (rs_connections s)"
  shows "\<exists>ws session i. as_wrapped (co_stream c) = Some ws \<and> ws_session ws = Some session
    \<and> auth (peerPublicKey session) \<and> co_mainInterface c = factory (Some (peerPublicKey session, i))
    \<and> connection_restore NullPointer c s = Inr (co_mainInterface c)
    \<and> connection_restore (TextPointer name) c s = Inl RequireFailed"
proof -
  obtain p where "server_inv factory W p s"
    using assms(4) server_run_inv [OF _ assms(1,2)] new_server_inv by metis
  then have "connection_ok W factory c" "rs_exportMap s = (\<lambda>_. None)"
    using assms(5) by (auto simp: server_inv_def list_all_iff)
  then show ?thesis
    by (auto simp: assms(3) connection_ok_def session_ok_def ServerWrapper_def connection_restore_def
        server_restore_def)
qed

text \<open>
  C31: a listening server keeps accepting, as long as the names of the peers it accepts can be read
  and no call of the listener's \<open>accept\<close> fails. However accepts, handshakes, failures of handshakes
  and disconnections are interleaved, exactly one call of \<open>accept\<close> is outstanding, so a client is
  never locked out by others that fail or stall in their handshake, and none is accepted twice: the
  next one that connects is taken, and another \<open>accept\<close> is started. A call of \<open>accept\<close> that fails
  also starts another one, but the handler then returns a null promise, which the event loop
  dereferences: the server does not survive it, in any state.
\<close>

theorem rpc_keeps_accepting:
  assumes "kj_ok io" "5 \<le> fuel" "\<And>w. \<exists>a w'. kj_getpeername io 28 w = (Inr a, w')"
    and "server_run fuel C io (server_listen (Inr port) (listening_Impl factory opts (Some W) context)) s"
  shows "rs_accepting s = 1 \<and> getPort s = Some (Inr port)
    \<and> (\<exists>s' w'. on_accept io w i s = (Inr (), s') \<and> rs_accepting s' = 1
         \<and> rs_wrapping s' = rs_wrapping s @ [(w', i)])
    \<and> fst (on_accept_error s) = Inl UndefinedBehaviour \<and> rs_accepting (snd (on_accept_error s)) = 1"
proof -
  from server_run_inv [OF assms(4,1,2) new_server_inv(2)]
  have "server_inv factory (Some W) (Some (Some (Inr port))) s" .
  moreover have "rs_accepting s = 1"
    using accepting_kept [OF assms(4,1,2,3)] by (simp add: new_server_simps)
  moreover obtain a w' where "kj_getpeername io 28 w = (Inr a, w')" using assms(3) by blast
  ultimately show ?thesis
    by (auto simp: server_inv_def getPort_def on_accept_def on_accept_error_eq acceptLoop_def getPeerName_def Let_def)
qed

text \<open>
  C32: one accepted connection whose peer's name cannot be read stops the server for good. If
  \<open>getpeername\<close> fails on an accepted socket, as it does once the peer has reset the connection, the
  error ends the task before \<open>acceptLoop\<close> is called again: no \<open>accept\<close> is outstanding any more, in any
  later state, although the server still has its port.
\<close>

theorem rpc_accept_stops:
  assumes "kj_ok io" "5 \<le> fuel"
    and "server_run fuel C io (server_listen (Inr port) (listening_Impl factory opts wrapper context)) s"
    and "kj_getpeername io 28 w = (Inl e, w')"
    and "server_run fuel C io (snd (on_accept io w i s)) s'"
  shows "fst (on_accept io w i s) = Inr () \<and> rs_failures (snd (on_accept io w i s)) = rs_failures s @ [e]
    \<and> rs_accepting s' = 0 \<and> getPort s' = Some (Inr port)"
proof -
  let ?s = "s\<lparr>rs_accepting := rs_accepting s - 1, rs_failures := rs_failures s @ [e]\<rparr>"
  have a: "on_accept io w i s = (Inr (), ?s)"
    using assms(4) by (simp add: on_accept_def getPeerName_def taskFailed_def)
  have "rs_accepting s \<le> 1"
    using accepting_bound [OF assms(3,1,2)] by (simp add: new_server_simps)
  then have "rs_accepting s' = 0"
    using accepting_bound [OF assms(5,1,2)] by (simp add: a)
  moreover have "server_inv factory wrapper (Some (Some (Inr port))) ?s"
    using server_run_inv [OF assms(3,1,2) new_server_inv(2)] by (simp add: server_inv_def)
  then have "getPort s' = Some (Inr port)"
    using server_run_inv [OF assms(5) [unfolded a snd_conv] assms(1,2)]
    by (auto simp: server_inv_def getPort_def)
  ultimately show ?thesis by (simp add: a)
qed

text \<open>A server made with no wrapper, which \<open>SecretRPC.hh\<close> allows in order to disable secrecy, calls
  \<open>wrap\<close> through a null pointer as soon as it accepts a connection.\<close>

lemma no_wrapper_accept:
  assumes "kj_getpeername io 28 w = (Inr a, w')"
  shows "fst (on_accept io w i (server_listen (Inr port) (listening_Impl factory opts None context)))
    = Inl UndefinedBehaviour"
  using assms by (simp add: on_accept_def new_server_simps getPeerName_def Let_def)

text \<open>\<open>startConnection\<close> asks for the peer's name whether or not the wrapper says that its streams are
  sockets: over streams that have none, such as a pipe passed to \<open>acceptStream\<close>, no connection is
  ever started.\<close>

lemma on_wrapped_unnamed:
  assumes "\<And>w. \<exists>e w'. kj_getpeername io 28 w = (Inl e, w')"
  shows "rs_connections (on_wrapped io opts r s) = rs_connections s"
proof (cases r)
  case (Inr A)
  obtain e w' where "kj_getpeername io 28 (as_inner A) = (Inl e, w')" using assms by blast
  then show ?thesis using Inr
    by (simp add: on_wrapped_def startConnection_def getPeerName_def taskFailed_def)
qed (simp add: on_wrapped_def taskFailed_def)

lemma acceptStream_unnamed:
  assumes "\<And>w. \<exists>e w'. kj_getpeername io 28 w = (Inl e, w')"
    and "acceptStream fuel C io x promise opts s = Some s'"
  shows "rs_connections s' = rs_connections s"
  using assms(2) on_wrapped_unnamed [OF assms(1)] by (auto simp: acceptStream_def)

lemma new_client_simps [simp]: "rc_shsWrapper (new_client_Impl W opts p) = W"
  "rc_clientContext (new_client_Impl W opts p) = None"
  "rc_readerOptions (new_client_Impl W opts p) = opts"
  by (simp_all add: new_client_Impl_def)

text \<open>The copy of \<open>getMain\<close> inside \<open>Impl\<close> agrees with the public one.\<close>

lemma Impl_getMain_eq: "Impl_getMain bootstrap c = getMain bootstrap c"
  by (simp add: Impl_getMain_def getMain_def)

lemma Impl_getMain_as_eq: "Impl_getMain_as castAs bootstrap c = getMain_as castAs bootstrap c"
  by (simp add: Impl_getMain_as_def getMain_as_def Impl_getMain_eq)

lemma map_promise_Resolved:
  "map_kj_promise f p = Resolved y \<longleftrightarrow> (\<exists>x. p = Resolved x \<and> y = f x)"
  by (cases p) auto

text \<open>
  C33: a client's main capability comes from the right server. Once the setup of a client with a
  \<open>ClientWrapper\<close> has succeeded, on a given stream or, with \<open>connectAttach\<close>, for an address, \<open>getMain\<close>
  returns the bootstrap capability of the server side of a stream whose handshake made a session
  with the server key it was given, read with the client's options; if the setup has failed, \<open>getMain\<close>
  reports its error; it never trips the assertion that a resolved setup has left a stream.
\<close>

theorem rpc_client_main:
  assumes "kj_ok io" "5 \<le> fuel"
    and "client_setup fuel C io x promise (new_client_Impl (Some (ClientWrapper ctx pk)) opts context) = Some c"
  shows "(\<exists>e. rc_setup c = Some (Inl e) \<and> getMain bootstrap c = Some (Inl e))
    \<or> (\<exists>cc ws w session. rc_setup c = Some (Inr ()) \<and> getMain bootstrap c = Some (Inr (bootstrap cc SERVER))
         \<and> cc_stream cc = (Some ws, w) \<and> ws_session ws = Some session \<and> peerPublicKey session = pk
         \<and> cc_network cc = \<lparr>vn_side = CLIENT, vn_readerOptions = opts\<rparr>)"
proof -
  let ?W = "ClientWrapper ctx pk"
  obtain r where r: "asyncWrap (\<lambda>W w. map_option (map_kj_promise (apfst Some)) (wrap fuel C io W x w))
      (\<lambda>w. (None, w)) (Some ?W) promise = Some r"
    "c = (case r of
         Inl e \<Rightarrow> (new_client_Impl (Some ?W) opts context)\<lparr>rc_setup := Some (Inl e)\<rparr>
       | Inr st \<Rightarrow> (new_client_Impl (Some ?W) opts context)
           \<lparr>rc_clientContext := Some (new_ClientContext st opts), rc_setup := Some (Inr ())\<rparr>)"
    using assms(3) unfolding client_setup_def new_client_simps by auto
  show ?thesis
  proof (cases r)
    case (Inl e)
    then show ?thesis using r(2) by (simp add: getMain_def)
  next
    case (Inr st)
    then obtain w ws w1 where w: "wrap fuel C io ?W x w = Some (Resolved (ws, w1))" "st = (Some ws, w1)"
      using r(1) by (auto simp: asyncWrap_def map_promise_Resolved split: sum.splits)
    obtain k where "session_ok ?W ws k" using wrap_session_ok [OF assms(1,2) w(1)] .
    then show ?thesis
      using r(2) Inr w(2)
      by (auto simp: getMain_def context_getMain_def new_ClientContext_def session_ok_def ClientWrapper_def)
  qed
qed

section \<open>The life of a thread's context\<close>

text \<open>The endpoints of one thread, made by any of the constructors and destroyed in any order.\<close>

datatype ('w, 'i, 'c, 'o) endpoint =
    ServerEndpoint "('w, 'i, 'c, 'o) rpc_server" | ClientEndpoint "('w, 'o) rpc_client"

fun endpoint_context :: "('w, 'i, 'c, 'o) endpoint \<Rightarrow> nat" where
  "endpoint_context (ServerEndpoint s) = rs_context s"
| "endpoint_context (ClientEndpoint c) = rc_context c"

text \<open>The arguments of the four constructors, and what each of them makes.\<close>

datatype ('i, 'c, 'o) constructor_call =
    UnboundServer "(bytes \<times> 'i) option \<Rightarrow> 'c" 'o "StreamWrapper option"
  | ListeningServer "(bytes \<times> 'i) option \<Rightarrow> 'c" 'o "StreamWrapper option"
  | StreamClient "StreamWrapper option" 'o
  | ConnectingClient "StreamWrapper option" 'o

fun new_endpoint :: "'r kj_refcount \<Rightarrow> nat \<Rightarrow> kj_error + ('l, 'p, 's) AsyncIoContext
    \<Rightarrow> ('i, 'c, 'o) constructor_call \<Rightarrow> ('r, 'l, 'p, 's) rpc_thread
    \<Rightarrow> (kj_error + ('w, 'i, 'c, 'o) endpoint) \<times> ('r, 'l, 'p, 's) rpc_thread" where
  "new_endpoint K addr setupAsyncIo (UnboundServer F opts W) T =
     apfst (map_sum (\<lambda>e. e) ServerEndpoint) (new_SecretRPCServer K addr setupAsyncIo F opts W T)"
| "new_endpoint K addr setupAsyncIo (ListeningServer F opts W) T =
     apfst (map_sum (\<lambda>e. e) ServerEndpoint) (new_listening_server K addr setupAsyncIo F opts W T)"
| "new_endpoint K addr setupAsyncIo (StreamClient W opts) T =
     apfst (map_sum (\<lambda>e. e) ClientEndpoint) (new_SecretRPCClient K addr setupAsyncIo W opts T)"
| "new_endpoint K addr setupAsyncIo (ConnectingClient W opts) T =
     apfst (map_sum (\<lambda>e. e) ClientEndpoint) (new_connecting_client K addr setupAsyncIo W opts T)"

fun delete_endpoint :: "'r kj_refcount \<Rightarrow> ('w, 'i, 'c, 'o) endpoint \<Rightarrow> ('r, 'l, 'p, 's) rpc_thread
    \<Rightarrow> (kj_error + unit) \<times> ('r, 'l, 'p, 's) rpc_thread" where
  "delete_endpoint K (ServerEndpoint s) T = delete_SecretRPCServer K s T"
| "delete_endpoint K (ClientEndpoint c) T = delete_SecretRPCClient K (Some c) T"

text \<open>A thread without a context, and one with a single context.\<close>

definition no_context :: "('r, 'l, 'p, 's) rpc_thread" where
  "no_context = \<lparr>threadSecretContext = None, rt_heap = (\<lambda>_. None)\<rparr>"

definition one_context :: "nat \<Rightarrow> 'r \<Rightarrow> ('l, 'p, 's) AsyncIoContext \<Rightarrow> ('r, 'l, 'p, 's) rpc_thread" where
  "one_context p r io = \<lparr>threadSecretContext = Some p, rt_heap = (\<lambda>_. None)(p := Some (r, io))\<rparr>"

inductive endpoint_run :: "'r kj_refcount \<Rightarrow> ('w, 'i, 'c, 'o) endpoint list \<Rightarrow> ('r, 'l, 'p, 's) rpc_thread
    \<Rightarrow> bool" for K where
  start: "endpoint_run K [] no_context"
| create: "endpoint_run K es T \<Longrightarrow> new_endpoint K addr setupAsyncIo k T = (Inr e, T') \<Longrightarrow>
    endpoint_run K (es @ [e]) T'"
| create_fails: "endpoint_run K es T \<Longrightarrow>
    new_endpoint K addr setupAsyncIo k T = (Inl x :: kj_error + ('w, 'i, 'c, 'o) endpoint, T') \<Longrightarrow>
    endpoint_run K es T'"
| delete: "endpoint_run K (es @ e # es') T \<Longrightarrow> delete_endpoint K e T = (r, T') \<Longrightarrow>
    endpoint_run K (es @ es') T'"

lemma delete_endpoint_eq: "delete_endpoint K e T = drop_RPCContext K (endpoint_context e) T"
  by (cases e) (simp_all add: delete_SecretRPCServer_def delete_SecretRPCClient_def)

lemma context_simps [simp]:
  "threadSecretContext no_context = None" "rt_heap no_context = (\<lambda>_. None)"
  "threadSecretContext (one_context p r io) = Some p"
  "rt_heap (one_context p r io) = (\<lambda>_. None)(p := Some (r, io))"
  "getIoContext p (one_context p r io) = Inr io"
  by (simp_all add: no_context_def one_context_def getIoContext_def)

lemma getThreadLocal_no_context:
  "getThreadLocal K addr (Inl x) no_context = (Inl x, no_context)"
  "getThreadLocal K addr (Inr io) no_context = (Inr addr, one_context addr (kr_refcounted K) io)"
  by (simp_all add: getThreadLocal_def new_RPCContext_def no_context_def one_context_def)

lemma getThreadLocal_one_context:
  "getThreadLocal K addr setupAsyncIo (one_context p r io) = (Inr p, one_context p (kr_addRef K r) io)"
  by (simp add: getThreadLocal_def one_context_def)

lemma refcount_okD:
  assumes "refcount_ok K refs"
  shows "refs (kr_refcounted K) = 1" "refs (kr_addRef K r) = Suc (refs r)"
    "refs r = 1 \<Longrightarrow> kr_release K r = None"
    "1 < refs r \<Longrightarrow> \<exists>r'. kr_release K r = Some r' \<and> refs r' = refs r - 1"
proof -
  show "refs (kr_refcounted K) = 1" "refs (kr_addRef K r) = Suc (refs r)"
    using assms by (simp_all add: refcount_ok_def)
  have "0 < refs r \<Longrightarrow> case kr_release K r of
      None \<Rightarrow> refs r = 1 | Some r' \<Rightarrow> 1 < refs r \<and> refs r' = refs r - 1"
    using assms by (auto simp: refcount_ok_def)
  then show "refs r = 1 \<Longrightarrow> kr_release K r = None"
    "1 < refs r \<Longrightarrow> \<exists>r'. kr_release K r = Some r' \<and> refs r' = refs r - 1"
    by (auto split: option.splits)
qed

lemma drop_one_context:
  assumes "refcount_ok K refs"
  shows "refs r = 1 \<Longrightarrow> drop_RPCContext K p (one_context p r io) = (Inr (), no_context)"
    "1 < refs r \<Longrightarrow> \<exists>r'. refs r' = refs r - 1
       \<and> drop_RPCContext K p (one_context p r io) = (Inr (), one_context p r' io)"
  using refcount_okD(3,4) [OF assms, of r]
  by (auto simp: drop_RPCContext_def delete_RPCContext_def one_context_def no_context_def fun_eq_iff)

lemmas new_endpoint_simps = new_SecretRPCServer_def new_listening_server_def new_SecretRPCClient_def
  new_connecting_client_def new_Impl_def listening_Impl_def new_client_Impl_def

text \<open>Creating an endpoint on a thread that has none yet, and on one that has.\<close>

lemma new_endpoint_fails:
  "new_endpoint K addr (Inl x) k no_context = (Inl x, no_context)"
  by (cases k) (simp_all add: new_endpoint_simps getThreadLocal_no_context)

lemma new_endpoint_first:
  assumes "refcount_ok K refs"
  shows "\<exists>e r. new_endpoint K addr (Inr io) k no_context = (Inr e, one_context addr r io)
    \<and> refs r = 1 \<and> endpoint_context e = addr"
proof -
  let ?r = "kr_addRef K (kr_refcounted K)"
  have "refs ?r = 2" using refcount_okD(1,2) [OF assms] by simp
  then obtain r' where "refs r' = 1" "drop_RPCContext K addr (one_context addr ?r io) = (Inr (), one_context addr r' io)"
    using drop_one_context(2) [OF assms, of ?r addr io] by auto
  then show ?thesis using refcount_okD(1) [OF assms]
    by (cases k) (auto simp: new_endpoint_simps getThreadLocal_no_context getThreadLocal_one_context)
qed

lemma new_endpoint_shared:
  assumes "refcount_ok K refs"
  shows "\<exists>e r'. new_endpoint K addr setupAsyncIo k (one_context p r io) = (Inr e, one_context p r' io)
    \<and> refs r' = Suc (refs r) \<and> endpoint_context e = p"
proof -
  let ?r = "kr_addRef K (kr_addRef K r)"
  have "refs ?r = Suc (Suc (refs r))" using refcount_okD(2) [OF assms] by simp
  then obtain r' where "refs r' = Suc (refs r)"
    "drop_RPCContext K p (one_context p ?r io) = (Inr (), one_context p r' io)"
    using drop_one_context(2) [OF assms, of ?r p io] by auto
  then show ?thesis using refcount_okD(2) [OF assms]
    by (cases k) (auto simp: new_endpoint_simps getThreadLocal_one_context)
qed

text \<open>What a thread with these endpoints looks like.\<close>

definition thread_ok :: "('r \<Rightarrow> nat) \<Rightarrow> ('w, 'i, 'c, 'o) endpoint list \<Rightarrow> ('r, 'l, 'p, 's) rpc_thread \<Rightarrow> bool" where
  "thread_ok refs es T \<longleftrightarrow> (if es = [] then T = no_context
     else \<exists>p r io. T = one_context p r io \<and> refs r = length es \<and> (\<forall>e \<in> set es. endpoint_context e = p))"

lemma new_endpoint_thread_ok:
  assumes "refcount_ok K refs" "thread_ok refs (es :: ('w, 'i, 'c, 'o) endpoint list) T"
    "new_endpoint K addr setupAsyncIo k T = (q, T')"
  shows "thread_ok refs (case q of Inl _ \<Rightarrow> es | Inr e \<Rightarrow> es @ [e]) T'"
proof (cases "es = []")
  case True
  then have T: "T = no_context" using assms(2) by (simp add: thread_ok_def)
  show ?thesis
  proof (cases setupAsyncIo)
    case (Inl x)
    then show ?thesis using assms(2,3) T by (auto simp: new_endpoint_fails)
  next
    case (Inr io)
    obtain e :: "('w, 'i, 'c, 'o) endpoint" and r where
      "new_endpoint K addr (Inr io) k no_context = (Inr e, one_context addr r io)" "refs r = 1" "endpoint_context e = addr"
      using new_endpoint_first [OF assms(1)] by metis
    then show ?thesis using True assms(3) T Inr by (auto simp: thread_ok_def intro!: exI [of _ r])
  qed
next
  case False
  then obtain p r io where T: "T = one_context p r io" "refs r = length es" "\<forall>e \<in> set es. endpoint_context e = p"
    using assms(2) by (auto simp: thread_ok_def)
  obtain e :: "('w, 'i, 'c, 'o) endpoint" and r' where
    "new_endpoint K addr setupAsyncIo k (one_context p r io) = (Inr e, one_context p r' io)"
    "refs r' = Suc (refs r)" "endpoint_context e = p"
    using new_endpoint_shared [OF assms(1)] by metis
  then show ?thesis using T assms(3) by (auto simp: thread_ok_def intro!: exI [of _ r'])
qed

lemma delete_thread_ok:
  assumes "refcount_ok K refs" "thread_ok refs (es @ e # es') T" "delete_endpoint K e T = (q, T')"
  shows "thread_ok refs (es @ es') T' \<and> q = Inr ()"
proof -
  obtain p r io where T: "T = one_context p r io" "refs r = Suc (length (es @ es'))" "endpoint_context e = p"
    "\<forall>e \<in> set (es @ es'). endpoint_context e = p" using assms(2) by (auto simp: thread_ok_def)
  show ?thesis
  proof (cases "es @ es' = []")
    case True
    then show ?thesis using drop_one_context(1) [OF assms(1), of r p io] T assms(3)
      by (simp add: thread_ok_def delete_endpoint_eq)
  next
    case False
    then have "1 < refs r" using T(2) by (cases "es @ es'") auto
    then obtain r' where "refs r' = refs r - 1" "drop_RPCContext K p T = (Inr (), one_context p r' io)"
      using drop_one_context(2) [OF assms(1), of r p io] T(1) by auto
    then show ?thesis using False T assms(3) by (auto simp: thread_ok_def delete_endpoint_eq)
  qed
qed

lemma endpoint_run_ok: "endpoint_run K es T \<Longrightarrow> refcount_ok K refs \<Longrightarrow> thread_ok refs es T"
proof (induction rule: endpoint_run.induct)
  case start
  then show ?case by (simp add: thread_ok_def)
next
  case (create es T addr setupAsyncIo k e T')
  then show ?case using new_endpoint_thread_ok by fastforce
next
  case (create_fails es T addr setupAsyncIo k x T')
  then show ?case using new_endpoint_thread_ok [OF _ _ create_fails(2)] by fastforce
next
  case (delete es e es' T r T')
  then show ?case using delete_thread_ok by blast
qed

text \<open>
  C34: the endpoints of a thread share one event loop, which lives exactly as long as they do, given
  that KJ counts references as it documents. However servers and clients are created, fail to be
  created and are destroyed on a thread, all of them have the same context, with one reference each,
  so the event loop that their accessors return is never a destroyed one; destroying an endpoint
  never fails; the last one takes the context with it, and nothing is left over. Creating another
  endpoint, by any of the four constructors, fails only if it is the first one and \<open>setupAsyncIo\<close>
  throws: that exception is what the constructor throws, and it leaves the thread as it was. Without
  it the first endpoint has the new event loop, and a later one that of the others, whether or not
  another could be set up.
\<close>

theorem rpc_context_lifetime:
  assumes "refcount_ok K refs" "endpoint_run K (es :: ('w, 'i, 'c, 'o) endpoint list) T"
  shows "(es = [] \<longrightarrow> threadSecretContext T = None \<and> rt_heap T = (\<lambda>_. None))
    \<and> (\<exists>io r. \<forall>e \<in> set es. threadSecretContext T = Some (endpoint_context e)
         \<and> rt_heap T = (\<lambda>_. None)(endpoint_context e := Some (r, io)) \<and> refs r = length es
         \<and> getIoContext (endpoint_context e) T = Inr io \<and> fst (delete_endpoint K e T) = Inr ())
    \<and> (es = [] \<longrightarrow> new_endpoint K addr (Inl x) k T = (Inl x :: kj_error + ('w, 'i, 'c, 'o) endpoint, T))
    \<and> (es = [] \<longrightarrow> (\<exists>e :: ('w, 'i, 'c, 'o) endpoint. \<exists>T'. new_endpoint K addr (Inr io') k T = (Inr e, T')
         \<and> getIoContext (endpoint_context e) T' = Inr io'))
    \<and> (es \<noteq> [] \<longrightarrow> (\<exists>e :: ('w, 'i, 'c, 'o) endpoint. \<exists>T'. new_endpoint K addr setupAsyncIo k T = (Inr e, T')
         \<and> threadSecretContext T = Some (endpoint_context e)
         \<and> getIoContext (endpoint_context e) T' = getIoContext (endpoint_context e) T))"
proof (cases "es = []")
  case True
  then have "T = no_context" using endpoint_run_ok [OF assms(2,1)] by (simp add: thread_ok_def)
  moreover obtain e :: "('w, 'i, 'c, 'o) endpoint" and r where
    "new_endpoint K addr (Inr io') k no_context = (Inr e, one_context addr r io')" "endpoint_context e = addr"
    using new_endpoint_first [OF assms(1)] by metis
  ultimately show ?thesis using True by (auto simp: new_endpoint_fails)
next
  case False
  then obtain p r io where T: "T = one_context p r io" "refs r = length es" "\<forall>e \<in> set es. endpoint_context e = p"
    using endpoint_run_ok [OF assms(2,1)] by (auto simp: thread_ok_def)
  have del: "fst (delete_endpoint K e T) = Inr ()" if "e \<in> set es" for e
    using delete_thread_ok [OF assms(1)] endpoint_run_ok [OF assms(2,1)] split_list [OF that]
    by (metis prod.collapse)
  obtain e :: "('w, 'i, 'c, 'o) endpoint" and r' where
    "new_endpoint K addr setupAsyncIo k (one_context p r io) = (Inr e, one_context p r' io)" "endpoint_context e = p"
    using new_endpoint_shared [OF assms(1)] by metis
  then show ?thesis using False T del by (auto simp del: fun_upd_apply)
qed

section \<open>Examples\<close>

type_synonym demo_server = "(bytes \<times> bytes, unit, bytes option, unit) rpc_server"

abbreviation demo_wrapper :: StreamWrapper where
  "demo_wrapper \<equiv> ServerWrapper (demo_ctx [3]) (Some (\<lambda>pk. pk = ed_public toy [1, 2]))"

definition demo_rpc :: demo_server where
  "demo_rpc = server_listen (Inr 99) (listening_Impl (map_option fst) () (Some demo_wrapper) 0)"

text \<open>The client of the other examples connects to it.\<close>

definition demo_accepted :: "bytes \<times> bytes" where
  "demo_accepted = (demo_script ClientChallenge @ demo_script ClientAuth, [])"

definition demo_rpc_accepted :: demo_server where
  "demo_rpc_accepted = snd (on_accept mem_kj demo_accepted () demo_rpc)"

definition demo_rpc_connected :: "demo_server option" where
  "demo_rpc_connected = on_handshake_end 5 toy mem_kj (\<lambda>_. False) [9] 0 demo_rpc_accepted"

lemma demo_rpc_connects:
  "case demo_rpc_connected of None \<Rightarrow> False | Some s \<Rightarrow> length (rs_connections s) = 1"
  by code_simp

lemma mem_kj_peer [simp]: "kj_getpeername mem_kj n w = (Inr (take n demo_sockaddr), w)"
  by (simp add: mem_kj_def)

lemmas demo_rpc_defs = demo_rpc_def demo_rpc_accepted_def on_accept_def new_server_simps
  getPeerName_def

lemma demo_rpc_run:
  assumes "demo_rpc_connected = Some s"
  shows "server_run 5 toy mem_kj demo_rpc s"
proof -
  have "server_step 5 toy mem_kj demo_rpc demo_rpc_accepted"
    by (rule server_step.accept [of _ _ demo_accepted "()"]) (simp_all add: demo_rpc_defs Let_def)
  moreover have "server_step 5 toy mem_kj demo_rpc_accepted s"
    by (rule server_step.handshake_end [OF _ assms [unfolded demo_rpc_connected_def]])
      (simp add: demo_rpc_defs Let_def)
  ultimately show ?thesis using server_run.step server_run.start by metis
qed

theorem rpc_connections_authenticated_witness:
  "\<exists>s c. demo_rpc_connected = Some s \<and> c \<in> set (rs_connections s)
     \<and> co_mainInterface c = Some (ed_public toy [1, 2])"
proof -
  obtain s where s: "demo_rpc_connected = Some s" "length (rs_connections s) = 1"
    using demo_rpc_connects by (auto split: option.splits)
  then obtain c where c: "c \<in> set (rs_connections s)" by (cases "rs_connections s") auto
  from rpc_connections_authenticated [OF mem_kj_ok order_refl refl
      disjI2 [OF demo_rpc_run [OF s(1), unfolded demo_rpc_def]] c] s(1) c
  show ?thesis by force
qed

theorem rpc_keeps_accepting_witness:
  "\<exists>s. demo_rpc_connected = Some s \<and> length (rs_connections s) = 1 \<and> rs_accepting s = 1
     \<and> fst (on_accept_error s) = Inl UndefinedBehaviour"
proof -
  obtain s where s: "demo_rpc_connected = Some s" "length (rs_connections s) = 1"
    using demo_rpc_connects by (auto split: option.splits)
  have "\<exists>a w'. kj_getpeername mem_kj 28 w = (Inr a, w')" for w by simp
  from rpc_keeps_accepting [OF mem_kj_ok order_refl this demo_rpc_run [OF s(1), unfolded demo_rpc_def]] s
  show ?thesis by blast
qed

text \<open>The same stream, but the connection has been reset.\<close>

definition reset_kj :: "(bytes \<times> bytes) kj_stream" where
  "reset_kj = mem_kj\<lparr>kj_getpeername := (\<lambda>n w. (Inl (InnerError 107), w))\<rparr>"

lemma reset_kj_ok: "kj_ok reset_kj"
  using mem_kj_ok by (simp add: kj_ok_def reset_kj_def)

theorem rpc_accept_stops_witness:
  "rs_accepting demo_rpc = 1 \<and> rs_accepting (snd (on_accept reset_kj demo_accepted () demo_rpc)) = 0"
proof -
  have r: "kj_getpeername reset_kj 28 demo_accepted = (Inl (InnerError 107), demo_accepted)"
    by (simp add: reset_kj_def)
  have "server_run 5 toy reset_kj (server_listen (Inr 99)
      (listening_Impl (map_option fst) () (Some demo_wrapper) 0)) demo_rpc"
    unfolding demo_rpc_def by (rule server_run.start)
  from rpc_accept_stops [OF reset_kj_ok order_refl this r server_run.start, of "()"]
  show ?thesis by (simp add: demo_rpc_def new_server_simps)
qed

theorem rpc_client_main_witness:
  "\<exists>c. client_setup 5 toy mem_kj [7] (Inr (demo_script ServerChallenge @ demo_script ServerAck, []))
       (new_client_Impl (Some (ClientWrapper (demo_ctx [1, 2]) (ed_public toy [3]))) () 0) = Some c
     \<and> (\<exists>m. getMain (\<lambda>_ _. ()) c = Some m)"
proof -
  let ?c = "client_setup 5 toy mem_kj [7] (Inr (demo_script ServerChallenge @ demo_script ServerAck, []))
       (new_client_Impl (Some (ClientWrapper (demo_ctx [1, 2]) (ed_public toy [3]))) () 0)"
  have "case ?c of None \<Rightarrow> False | Some c \<Rightarrow> rc_setup c = Some (Inr ())" by code_simp
  then obtain c where c: "?c = Some c" by (auto split: option.splits)
  from rpc_client_main [OF mem_kj_ok order_refl c, of "\<lambda>_ _. ()"] c show ?thesis by blast
qed

text \<open>A server and a client of one thread, with numbers as reference counts; before them, a client
  could not be created.\<close>

definition demo_loop :: "(unit, unit, nat) AsyncIoContext" where
  "demo_loop = \<lparr>lowLevelProvider = (), provider = (), waitScope = 5\<rparr>"

definition demo_counts :: "nat kj_refcount" where
  "demo_counts = \<lparr>kr_refcounted = 1, kr_addRef = Suc, kr_release = (\<lambda>n. if n = 1 then None else Some (n - 1))\<rparr>"

lemma demo_counts_ok: "refcount_ok demo_counts (\<lambda>n. n)"
  by (auto simp: refcount_ok_def demo_counts_def)

theorem rpc_context_lifetime_witness:
  "\<exists>(es :: (unit, unit, unit, unit) endpoint list) (T :: (nat, unit, unit, nat) rpc_thread).
     endpoint_run demo_counts es T \<and> length es = 2
     \<and> (\<forall>e \<in> set es. getWaitScope (endpoint_context e) T = Inr 5 \<and> fst (delete_endpoint demo_counts e T) = Inr ())"
proof -
  define s :: "(unit, unit, unit, unit) endpoint" where "s = ServerEndpoint (new_Impl (\<lambda>_. ()) () None 8)"
  define c :: "(unit, unit, unit, unit) endpoint" where "c = ClientEndpoint (new_client_Impl None () 8)"
  note demo = demo_counts_def new_endpoint_simps getThreadLocal_no_context getThreadLocal_one_context
  have "endpoint_run demo_counts ([] :: (unit, unit, unit, unit) endpoint list) no_context"
    by (rule endpoint_run.create_fails [OF endpoint_run.start new_endpoint_fails])
  then have "endpoint_run demo_counts ([] @ [s]) (one_context 8 1 demo_loop)"
    by (rule endpoint_run.create [of _ _ _ 8 "Inr demo_loop" "UnboundServer (\<lambda>_. ()) () None"])
      (simp add: demo s_def)
  then have "endpoint_run demo_counts (([] @ [s]) @ [c]) (one_context 8 2 demo_loop)"
    by (rule endpoint_run.create [of _ _ _ 9 "Inl (InnerError 1)" "StreamClient None ()"])
      (simp add: demo c_def numeral_2_eq_2)
  then have run: "endpoint_run demo_counts [s, c] (one_context 8 2 demo_loop)" by simp
  have "\<forall>e \<in> set [s, c]. fst (delete_endpoint demo_counts e (one_context 8 2 demo_loop)) = Inr ()"
    using rpc_context_lifetime [OF demo_counts_ok run] by blast
  moreover have "getWaitScope 8 (one_context 8 2 demo_loop) = Inr 5"
    by (simp add: getWaitScope_def demo_loop_def)
  moreover have "endpoint_context s = 8" "endpoint_context c = 8"
    by (simp_all add: s_def c_def new_Impl_def new_client_Impl_def)
  ultimately show ?thesis
    using run by (intro exI [of _ "[s, c]"] exI [of _ "one_context 8 2 demo_loop"]) simp
qed

end
