(* ===== verification/Spec2Isabelle.thy ===== *)
theory Spec2Isabelle
  imports Handshake_Network Handshake_Agreement Logging Channel C_Api Interop Secret_RPC
begin

text \<open>
  A verification of the C++ implementation of the Secret Handshake protocol: the library in
  \<open>include/\<close> and \<open>src/\<close>, its C interface, and its adapters for Crouton (\<open>crouton/\<close>) and for Cap'n Proto
  and KJ (\<open>capnproto/\<close>).

  \<^bold>\<open>The program.\<close> A client and a server with long-term Ed25519 keys authenticate each other in
  four messages (challenge, challenge, client authentication, server acknowledgement) and derive
  a session key and nonce per direction. The crypto of the four messages is the class
  \<open>impl::handshake\<close> (\<open>shs.cc\<close>); a state machine, \<open>Handshake\<close> with the subclasses \<open>ClientHandshake\<close> and
  \<open>ServerHandshake\<close> (\<open>SecretHandshake.cc\<close>), decides what is to be read and sent next and can be driven
  message by message or with arbitrary fragments. With the resulting \<open>Session\<close>, \<open>EncryptoBox\<close> and
  \<open>DecryptoBox\<close> turn messages into frames and back, in a compact format and in that of Scuttlebutt's
  box streams, and \<open>EncryptionStream\<close> and \<open>DecryptionStream\<close> make a byte stream of that
  (\<open>SecretStream.cc\<close>). The adapters run the handshake over a given asynchronous stream and then
  encrypt and decrypt what passes through; \<open>SecretRPC.cc\<close> builds RPC servers and clients on them.

  \<^bold>\<open>The theories.\<close>
  \<^item> \<open>SHS_Prelude\<close>: bytes, C++ exceptions as values, an object's state next to a call's outcome,
    \<open>size_t\<close> arithmetic modulo \<open>2 ^ 64\<close>, byte memory, and generic lemmas.
  \<^item> \<open>SHS_Crypto\<close>: the Monocypher functions that the code calls, as a record \<open>crypto\<close> of parameters. The
    predicate \<open>crypto_ok\<close> says what the code relies on: lengths, that a box opens to what was put in
    and that only a box made with the key opens, that a signature checks, that key exchange commutes
    and agrees with the conversion of keys. A field says which build it is, with or without
    compatibility with Scuttlebutt, on which the cipher of the handshake depends; every theorem is
    about both. The executable instance \<open>toy\<close> satisfies it, so no
    hypothesis is empty; examples are evaluated on it.
  \<^item> \<open>Shs_Impl\<close> (\<open>shs.cc\<close>, \<open>shs.hh\<close>): the record \<open>impl_handshake\<close> with the members of the class, and one
    definition per member function; the messages and keys of an honest exchange as \<open>CheatSheet.md\<close>
    derives them.
  \<^item> \<open>Handshake\<close> (\<open>SecretHandshake.cc\<close>, \<open>.hh\<close>, \<open>SecretHandshakeTypes.hh\<close>): the record \<open>handshake\<close>, a record
    \<open>vtable\<close> for the virtual functions, the base class and the two subclasses. The locale
    \<open>handshake_class\<close> is the contract between the base class and an overrider, \<open>handshake_protocol\<close> adds
    an invariant of the crypto state; all facts on fragmentation, step order and buffers are proved
    there once. \<open>Handshake_Safety\<close> interprets both for client and server and shows exactly when a call
    throws, that none misuses the crypto object, that the two ways to read and to write agree, and
    that a finished side has opened its peer's message, checked the signature in it, and asked the
    authorizer. \<open>Handshake_Calls\<close> labels a call with the message it passes to the crypto object and
    the one it asks for. The locale \<open>impl_invariant\<close> of \<open>Handshake_Types\<close> lifts an invariant of the crypto
    object to all states of a run, failed ones included; its interpretations say that keys, secrets
    and hashes keep the sizes that the code declares, and that each class sends messages of the size
    the other one waits for. \<open>Demo\<close> is one concrete run.
  \<^item> \<open>Handshake_Agreement\<close>: what the checked signatures mean. A \<open>world\<close> has any number of clients and
    servers, on which any calls are made with any bytes, and records what their calls have signed. If
    the one signature that a finished side has received and checked is not forged (\<open>unforged\<close>: it is
    among those recorded for the key), then a party of the other role in the same world agrees with
    it on the application ID, both identities and the secret.
  \<^item> \<open>Logging\<close> (\<open>_Log\<close> and its calls in \<open>SecretHandshake.cc\<close>, \<open>shslog\<close> in the Crouton adapter): the member
    functions with the callback's state beside the object. Erasing that state gives the functions
    of \<open>Handshake\<close>, and the records tell truthfully what became of the handshake. The locale
    \<open>small_messages\<close> bounds the sizes that are logged.
  \<^item> \<open>Handshake_Network\<close>: a client and a server connected by two byte queues. The locale \<open>scripted_peer\<close>
    describes a side whose messages are foreseen; its two interpretations give that an honest
    exchange agrees on the keys under every schedule, and can always be completed.
  \<^item> \<open>Framing\<close>: the contract of a message format for streams, as locale \<open>frame_codec\<close>, and with
    authenticity \<open>authentic_codec\<close>. \<open>CryptoBox\<close> models the boxes on a byte memory, proves what they write
    and read under any overlap of the buffers, and interprets the locales; \<open>CryptoBox_Safety\<close> has the
    properties, error paths included: what a call may read, write and consume, and when sizes wrap.
  \<^item> \<open>CryptoStream\<close>, \<open>CryptoStream_Safety\<close>: the streams with the buffer that both ends of the data share,
    encryption in place, and the decryption loop. \<open>Channel\<close> connects an encrypting and a decrypting
    stream and shows that they refine a queue of bytes.
  \<^item> \<open>C_Api\<close> (\<open>SecretHandshake.h\<close>, \<open>SecretStream.h\<close>): the C functions over a heap of objects and the
    caller's memory, the layout of the structs, the casts between the enumerations of the two
    languages, and what erasing and the destructors leave of them.
  \<^item> \<open>Crouton_Stream\<close>, \<open>Crouton_Safety\<close> (\<open>crouton/SecretHandshakeStream.cc\<close>), and \<open>Secret_Connection\<close>,
    \<open>Connection_Safety\<close> (\<open>capnproto/SecretConnection.cc\<close>): the adapters. The wrapped stream is a record
    of operations over a state of any type; \<open>io_ok\<close> and \<open>kj_ok\<close> say what is documented of them. A
    coroutine or promise chain is the sequence of its steps. With KJ a call can throw before it
    returns a promise, which error handlers attached to the promise do not see; \<open>kj_promise\<close> keeps the
    two apart. \<open>Interop\<close> connects two adapters: the locale \<open>sealed_end\<close> is what either promises about
    the bytes on its inner stream, \<open>secure_link\<close> puts two such ends together, and its interpretations
    cover the four combinations.
  \<^item> \<open>Secret_RPC\<close> (\<open>capnproto/SecretRPC.cc\<close>, \<open>.hh\<close>): the server's tasks as a transition system, the client,
    and the event loop that the endpoints of a thread share. \<open>setupAsyncIo\<close> may fail; KJ's reference
    counts are a record \<open>kj_refcount\<close> of parameters, and \<open>refcount_ok\<close> says what KJ documents of them.
    Chaining a null promise, as a failed accept does, is undefined behaviour.
  \<^item> This theory: the handshake and the streams together.

  \<^bold>\<open>Bounds and fuel.\<close> Loops whose end depends on the wrapped stream take fuel and return \<open>None\<close> when
  it runs out. Four rounds are enough for the handshake loop of Crouton, since each round sends or
  reads one of the four messages and the last finds the handshake finished; five calls are enough
  for \<open>runHandshake\<close>, which needs one more to see that. Both are theorems, for every stream. Reading
  needs one round more than the wrapped stream returns pieces of data. All other recursion is on
  data, or has a termination proof. Sizes are natural numbers; where a sum can pass \<open>size_t\<close> it wraps.

  \<^bold>\<open>Not modelled.\<close> The log lines of the adapters themselves (\<open>KJ_LOG\<close>, \<open>LNet\<close>), which are calls of
  their frameworks that nothing depends on; the names of peers, which are logged there, are modelled
  because reading them can fail. The drawing of random keys, which are arguments. Cap'n Proto's
  messages and RPC system, KJ's and Crouton's event loops and Monocypher, which are not part of the
  sources. Only one thread uses its RPC context, and calls on one object do not overlap. The test
  programs. What is left of the sources are declarations of what the definitions above model.
  Secrecy against a computationally bounded attacker is not stated: authenticity rests on the law
  that only a box made with the key opens, taken of the cipher as a function, and agreement on the
  absence of a forged signature.
\<close>

section \<open>A whole connection\<close>

lemma matching_paired: "matching_keys s t \<Longrightarrow> paired s t \<and> paired t s"
  by (simp add: matching_keys_def paired_def)

lemma honest_sessions_paired:
  assumes "crypto_ok C" "authorizes auth (ed_public C A)"
    and "net_run C (honest_net C K A a B b auth) N"
    and "get_session C (n_client N) = Inr s" "get_session C (n_server N) = Inr t"
  shows "paired s t" "paired t s"
proof -
  have "finished (n_client N)" "finished (n_server N)"
    using assms(4,5) by (auto simp: get_session_def finished_def split: if_splits)
  then have "matching_keys s t" using honest_run_sessions [OF assms(1-3)] assms(4,5) by auto
  then show "paired s t" "paired t s" using matching_paired by auto
qed

text \<open>
  C1: from the first handshake byte to the last message. When a client and a server have run the
  handshake against each other over any network that delivers their bytes, in pieces of any size
  and in any interleaving, and each of them has taken its session from it, then streams made from
  these sessions, in either protocol, carry the data of both directions: what has been received is
  at every moment a beginning of what was sent, all of it once everything is flushed and
  delivered, and then \<open>close\<close> reports a clean end. Neither end's operations can fail.
\<close>

theorem connection_end_to_end:
  assumes "crypto_ok C" "authorizes auth (ed_public C A)"
    and "net_run C (honest_net C K A a B b auth) N"
    and "get_session C (n_client N) = Inr s" "get_session C (n_server N) = Inr t"
    and "channel_run C (new_channel s t p) c \<or> channel_run C (new_channel t s p) c"
  shows "prefix (ch_received c @ availableData (ch_dec c)) (ch_sent c)
    \<and> (pending (ch_enc c) = [] \<and> availableData (ch_enc c) = [] \<and> ch_wire c = []
         \<longrightarrow> ch_received c @ availableData (ch_dec c) = ch_sent c \<and> fst (close (ch_dec c)))
    \<and> (\<exists>e. encryption_push C (ch_enc c) data = (Inr (), e))
    \<and> (\<exists>d. decryption_push C (ch_dec c) (take n (ch_wire c)) = (Inr True, d))"
proof -
  note pairs = honest_sessions_paired [OF assms(1-5)]
  obtain box where inv: "channel_inv C box c"
    using assms(6) channel_run_inv [OF _ assms(1) new_channel_inv [OF assms(1)]] pairs by blast
  show ?thesis
    using channel_received_prefix [OF assms(1) inv] channel_all_delivered [OF assms(1) inv]
      channel_ops_succeed [OF assms(1) inv] by blast
qed

theorem connection_end_to_end_witness:
  "\<exists>N s t. net_run toy (honest_net toy (replicate 32 5) [1, 2] [7] [3] [9] demo_auth) N
     \<and> get_session toy (n_client N) = Inr s \<and> get_session toy (n_server N) = Inr t
     \<and> (\<exists>e. encryption_push toy (ch_enc (new_channel t s BoxStream)) [1, 2, 3] = (Inr (), e))"
proof -
  let ?N = "honest_net toy (replicate 32 5) [1, 2] [7] [3] [9] demo_auth"
  have a: "authorizes demo_auth (ed_public toy [1, 2])" by (simp add: authorizes_def demo_auth_def)
  obtain N where N: "net_run toy ?N N" "finished (n_client N)" "finished (n_server N)"
    using net_inv_completes [OF toy_ok a honest_net_inv] by blast
  then obtain s t where st: "get_session toy (n_client N) = Inr s" "get_session toy (n_server N) = Inr t"
    using honest_run_sessions [OF toy_ok a N(1)] by auto
  from connection_end_to_end [OF toy_ok a N(1) st disjI2 [OF channel_run.start]] N(1) st
  show ?thesis by blast
qed

end
